(* ===== verification/Prelude.thy ===== *)
theory Prelude
  imports Main "HOL-Library.Monad_Syntax" "HOL-Library.Sublist"
begin

text \<open>
  What every component shares: the convention for undefined behaviour, C's integer
  conversions, allocated blocks of bytes, and the generic list lemmas.

  A C or C++ operation whose behaviour is undefined (an access outside an allocated block,
  through a null or dangling pointer, past the end of a container) is \<open>None\<close>; a defined
  outcome is \<open>Some\<close>. The \<open>do\<close> blocks of the option monad then read like the
  statement sequences of the source.
\<close>

named_theorems block_simps \<open>reads and writes of allocated blocks\<close>
named_theorems wf_intros \<open>operations keep the well-formedness invariants\<close>

text \<open>One byte is one \<open>char\<close>; a block is what one malloc returned.\<close>

type_synonym block = "char list"

abbreviation NUL :: char where
  "NUL \<equiv> CHR 0x00"

abbreviation CR :: char where
  "CR \<equiv> CHR 0x0D"

abbreviation LF :: char where
  "LF \<equiv> CHR 0x0A"

abbreviation CRLF :: string where
  "CRLF \<equiv> [CR, LF]"

abbreviation EOH :: string where
  "EOH \<equiv> CRLF @ CRLF"

subsection \<open>C integers\<close>

text \<open>Conversion of a mathematical integer to a 32-bit \<open>int\<close> and to a 64-bit \<open>size_t\<close>.\<close>

definition to_int32 :: "int \<Rightarrow> int" where
  "to_int32 x = (x + 2147483648) mod 4294967296 - 2147483648"

definition to_size_t :: "int \<Rightarrow> nat" where
  "to_size_t x = nat (x mod 18446744073709551616)"

lemma to_int32_id: "-2147483648 \<le> x \<Longrightarrow> x < 2147483648 \<Longrightarrow> to_int32 x = x"
  by (simp add: to_int32_def)

lemma to_int32_range: "-2147483648 \<le> to_int32 x \<and> to_int32 x < 2147483648"
proof -
  have "0 \<le> (x + 2147483648) mod 4294967296 \<and> (x + 2147483648) mod 4294967296 < 4294967296"
    by simp
  then show ?thesis unfolding to_int32_def by linarith
qed

lemma to_int32_add: "to_int32 (to_int32 x + y) = to_int32 (x + y)"
proof -
  have "(((x + 2147483648) mod 4294967296 - 2147483648 + y) + 2147483648) mod 4294967296
      = ((x + 2147483648) mod 4294967296 + y) mod 4294967296" by (simp add: algebra_simps)
  also have "\<dots> = (x + 2147483648 + y) mod 4294967296" by (simp add: mod_simps)
  also have "\<dots> = (x + y + 2147483648) mod 4294967296" by (simp add: algebra_simps)
  finally show ?thesis by (simp add: to_int32_def)
qed

lemma to_size_t_id: "0 \<le> x \<Longrightarrow> x < 18446744073709551616 \<Longrightarrow> to_size_t x = nat x"
  by (simp add: to_size_t_def)

subsection \<open>Blocks\<close>

text \<open>\<open>memcpy\<close> of the bytes \<open>s\<close> to offset \<open>p\<close> of a block, and a single store.\<close>

definition memcpy :: "block \<Rightarrow> nat \<Rightarrow> string \<Rightarrow> block option" where
  "memcpy m p s = (if p + length s \<le> length m
     then Some (take p m @ s @ drop (p + length s) m) else None)"

definition store :: "block \<Rightarrow> nat \<Rightarrow> char \<Rightarrow> block option" where
  "store m p c = (if p < length m then Some (m[p := c]) else None)"

definition load :: "block \<Rightarrow> nat \<Rightarrow> char option" where
  "load m p = (if p < length m then Some (m ! p) else None)"

lemma memcpy_append [block_simps]:
  "length old = length s \<Longrightarrow> p = length pre \<Longrightarrow>
   memcpy (pre @ old @ post) p s = Some (pre @ s @ post)"
  by (simp add: memcpy_def)

lemma memcpy_length: "memcpy m p s = Some m' \<Longrightarrow> length m' = length m"
  by (auto simp: memcpy_def split: if_splits)

lemma memcpy_eq_None [block_simps]: "memcpy m p s = None \<longleftrightarrow> length m < p + length s"
  by (auto simp: memcpy_def)

lemma store_eq_memcpy: "store m p c = memcpy m p [c]"
  by (auto simp: store_def memcpy_def upd_conv_take_nth_drop)

text \<open>
  A sequence of \<open>memcpy\<close>s that each start where the last one ended writes the
  concatenation: the printing functions are such sequences.
\<close>

lemma memcpy_memcpy:
  assumes "memcpy m p s = Some m1"
  shows "memcpy m1 (p + length s) t = memcpy m p (s @ t)"
proof -
  from assms have le: "p + length s \<le> length m"
    and m1: "m1 = take p m @ s @ drop (p + length s) m"
    by (auto simp: memcpy_def split: if_splits)
  then show ?thesis by (auto simp: memcpy_def add.assoc add.commute add.left_commute)
qed

lemma memcpy_Nil: "p \<le> length m \<Longrightarrow> memcpy m p [] = Some m"
  by (simp add: memcpy_def)

lemma bind_memcpy_memcpy [block_simps]:
  "(memcpy m p s \<bind> (\<lambda>m1. memcpy m1 (p + length s) t)) = memcpy m p (s @ t)"
proof (cases "memcpy m p s")
  case None
  then show ?thesis by (auto simp: memcpy_def split: if_splits)
next
  case (Some m1)
  then show ?thesis by (simp add: memcpy_memcpy)
qed

lemma memcpy_chain:
  "q = p + length s \<Longrightarrow>
   (memcpy m p s \<bind> (\<lambda>m1. memcpy m1 q t \<bind> f)) = (memcpy m p (s @ t) \<bind> f)"
  by (simp flip: bind_memcpy_memcpy)

lemma memcpy_chain_last:
  "q = p + length s \<Longrightarrow> (memcpy m p s \<bind> (\<lambda>m1. memcpy m1 q t)) = memcpy m p (s @ t)"
  by (simp add: bind_memcpy_memcpy)

lemma memcpy_chain_map:
  "q = p + length s \<Longrightarrow>
   (memcpy m p s \<bind> (\<lambda>m1. map_option g (memcpy m1 q t))) = map_option g (memcpy m p (s @ t))"
  by (cases "memcpy m p s") (simp_all flip: bind_memcpy_memcpy)

lemma bind_Some_map [block_simps]: "(x \<bind> (\<lambda>y. Some (f y))) = map_option f x"
  by (cases x) simp_all

subsection \<open>Lists\<close>

lemma takeWhile_dropWhile_split:
  "xs = takeWhile P xs @ dropWhile P xs"
  by simp

lemma dropWhile_hd: "dropWhile P xs = y # ys \<Longrightarrow> \<not> P y"
  by (metis hd_dropWhile list.distinct(1) list.sel(1))

lemma takeWhile_eq_append_notP:
  "\<forall>x\<in>set xs. P x \<Longrightarrow> \<not> P y \<Longrightarrow> takeWhile P (xs @ y # ys) = xs"
  by (induction xs) auto

lemma dropWhile_eq_append_notP:
  "\<forall>x\<in>set xs. P x \<Longrightarrow> \<not> P y \<Longrightarrow> dropWhile P (xs @ y # ys) = y # ys"
  by (induction xs) auto

lemma find_SomeD: "List.find P xs = Some a \<Longrightarrow> a \<in> set xs" "List.find P xs = Some a \<Longrightarrow> P a"
  by (induction xs) (auto split: if_splits)

lemma list_update_mid: "p = length xs \<Longrightarrow> (xs @ y # ys)[p := z] = xs @ z # ys"
  by (simp add: list_update_append)

subsection \<open>Sums over threads\<close>

text \<open>A quantity summed over the threads, when one of them moves.\<close>

lemma sum_fun_upd:
  fixes g :: "'s \<Rightarrow> 'm :: comm_monoid_add" and w n :: nat
  assumes "w < n"
  shows "(\<Sum>v < n. g ((f(w := x)) v)) + g (f w) = (\<Sum>v < n. g (f v)) + g x"
proof -
  have w: "w \<in> {..<n}" using assms by simp
  have "(\<Sum>v \<in> {..<n} - {w}. g ((f(w := x)) v)) = (\<Sum>v \<in> {..<n} - {w}. g (f v))"
    by (intro sum.cong) auto
  then show ?thesis
    using sum.remove [OF finite_lessThan w, of "\<lambda>v. g ((f(w := x)) v)"] sum.remove [OF finite_lessThan w, of "\<lambda>v. g (f v)"]
    by (simp add: add.commute add.left_commute)
qed

lemma sum_change:
  fixes f g :: "nat \<Rightarrow> 'a::comm_monoid_add"
  assumes "w < n" "\<And>v. v \<noteq> w \<Longrightarrow> g v = f v"
  shows "(\<Sum>v < n. g v) + f w = (\<Sum>v < n. f v) + g w"
proof -
  have "(\<Sum>v \<in> {..<n} - {w}. g v) = (\<Sum>v \<in> {..<n} - {w}. f v)" using assms(2) by (intro sum.cong) auto
  then show ?thesis using assms(1) by (simp add: sum.remove [of "{..<n}" w] ac_simps)
qed

subsection \<open>Runs that come to an end\<close>

text \<open>
  Steps from states with an invariant that all bring a bound down: a server that stops. \<open>step ^^ k\<close>
  is a run of k steps.
\<close>

locale bounded_runs =
  fixes step :: "'s \<Rightarrow> 's \<Rightarrow> bool"
    and inv :: "'s \<Rightarrow> bool"
    and left :: "'s \<Rightarrow> nat"
  assumes keeps: "inv s \<Longrightarrow> step s s' \<Longrightarrow> inv s'"
    and comes_down: "inv s \<Longrightarrow> step s s' \<Longrightarrow> left s' < left s"
begin

lemma run_bound:
  assumes "(step ^^ k) s s'" "inv s"
  shows "inv s' \<and> k + left s' \<le> left s"
  using assms(1)
proof (induction k arbitrary: s')
  case 0
  with assms(2) show ?case by simp
next
  case (Suc k)
  then obtain s1 where "(step ^^ k) s s1" "step s1 s'" by auto
  with Suc.IH [of s1] keeps [of s1 s'] comes_down [of s1 s'] show ?case by simp
qed

lemma comes_to_rest: "inv s \<Longrightarrow> \<exists>k s'. (step ^^ k) s s' \<and> (\<forall>s''. \<not> step s' s'')"
proof (induction "left s" arbitrary: s rule: less_induct)
  case less: less
  show ?case
  proof (cases "\<exists>s1. step s s1")
    case True
    then obtain s1 where s1: "step s s1" by blast
    from less.hyps [OF comes_down [OF less.prems s1] keeps [OF less.prems s1]]
    obtain k s' where "(step ^^ k) s1 s'" "\<forall>s''. \<not> step s' s''" by blast
    with relpowp_Suc_I2 [of step s s1 k s'] s1 show ?thesis by blast
  next
    case False
    then show ?thesis by (intro exI [of _ 0] exI [of _ s]) simp
  qed
qed

end

subsection \<open>File descriptors\<close>

text \<open>A new descriptor is the least one that is free.\<close>

definition least_free :: "(nat \<rightharpoonup> 'u) \<Rightarrow> nat \<Rightarrow> bool" where
  "least_free fds fd = (fds fd = None \<and> (\<forall>k < fd. fds k \<noteq> None))"

lemma least_free_exists:
  assumes "fds fd = None"
  shows "\<exists>k. least_free fds k"
  using assms exists_least_iff [of "\<lambda>k. fds k = None"] by (auto simp: least_free_def)

end
