(* ===== verification/CStrings.thy ===== *)
theory CStrings
  imports Prelude
begin

text \<open>
  NUL-terminated strings inside blocks, and the functions of \<open>string.h\<close> the sources call:
  \<open>strlen\<close>, \<open>strstr\<close>, \<open>index\<close>, \<open>strncmp\<close> and \<open>strtok_r\<close>. A pointer into a block is
  an offset. Reading a string whose terminator is not inside the block is undefined.
\<close>

subsection \<open>The string at an offset\<close>

fun cstr :: "block \<Rightarrow> string option" where
  "cstr [] = None"
| "cstr (c # cs) = (if c = NUL then Some [] else map_option (Cons c) (cstr cs))"

definition str_at :: "block \<Rightarrow> nat \<Rightarrow> string option" where
  "str_at m p = cstr (drop p m)"

lemma cstr_Some_iff: "cstr m = Some s \<longleftrightarrow> NUL \<notin> set s \<and> (\<exists>post. m = s @ NUL # post)"
proof (induction m arbitrary: s)
  case Nil
  then show ?case by simp
next
  case (Cons c cs)
  then show ?case by (cases s) auto
qed

lemma cstr_append [block_simps]: "NUL \<notin> set s \<Longrightarrow> cstr (s @ NUL # post) = Some s"
  by (auto simp: cstr_Some_iff)

lemma cstr_is_Some: "NUL \<in> set m \<Longrightarrow> \<exists>s. cstr m = Some s"
  by (induction m) auto

lemma cstr_None_iff: "cstr m = None \<longleftrightarrow> NUL \<notin> set m"
  by (induction m) auto

lemma cstr_takeWhile: "NUL \<in> set m \<Longrightarrow> cstr m = Some (takeWhile (\<lambda>c. c \<noteq> NUL) m)"
  by (induction m) auto

lemma str_at_append [block_simps]:
  "p = length pre \<Longrightarrow> NUL \<notin> set s \<Longrightarrow> str_at (pre @ s @ NUL # post) p = Some s"
  by (simp add: str_at_def cstr_append)

lemma str_at_0 [block_simps]: "NUL \<notin> set s \<Longrightarrow> str_at (s @ NUL # post) 0 = Some s"
  using str_at_append [of 0 "[]"] by simp

lemma str_at_offset [block_simps]:
  "k \<le> length s \<Longrightarrow> NUL \<notin> set s \<Longrightarrow> str_at (s @ NUL # post) k = Some (drop k s)"
  using cstr_append [of "drop k s" post] by (auto simp: str_at_def dest: in_set_dropD)

lemma str_at_bound: "str_at m p = Some s \<Longrightarrow> p + length s < length m"
proof -
  assume "str_at m p = Some s"
  then obtain post where "drop p m = s @ NUL # post" by (auto simp: str_at_def cstr_Some_iff)
  then have "length m - p = length s + 1 + length post" using length_drop [of p m] by simp
  then show ?thesis by linarith
qed

lemma str_at_notin: "str_at m p = Some s \<Longrightarrow> NUL \<notin> set s"
  by (simp add: str_at_def cstr_Some_iff)

lemma str_at_drop: "str_at m p = Some s \<Longrightarrow> k \<le> length s \<Longrightarrow> str_at m (p + k) = Some (drop k s)"
proof -
  assume s: "str_at m p = Some s" and k: "k \<le> length s"
  then obtain post where "drop p m = s @ NUL # post" and n: "NUL \<notin> set s"
    by (auto simp: str_at_def cstr_Some_iff)
  then have "drop (p + k) m = drop k s @ NUL # post"
    using k drop_drop [of k p m] by (simp add: add.commute)
  moreover have "NUL \<notin> set (drop k s)" using n by (auto dest: in_set_dropD)
  ultimately show ?thesis by (simp add: str_at_def cstr_append)
qed

definition strlen :: "block \<Rightarrow> nat \<Rightarrow> nat option" where
  "strlen m p = map_option length (str_at m p)"

subsection \<open>Copying\<close>

text \<open>\<open>strcpy\<close> and \<open>strcat\<close> into a block, with the terminating NUL.\<close>

definition strcpy :: "block \<Rightarrow> string \<Rightarrow> block option" where
  "strcpy m s = memcpy m 0 (s @ [NUL])"

definition strcat :: "block \<Rightarrow> string \<Rightarrow> block option" where
  "strcat m s = do { cur \<leftarrow> str_at m 0; memcpy m (length cur) (s @ [NUL]) }"

lemma strcat_text:
  assumes "NUL \<notin> set t" "length s \<le> length post"
  shows "strcat (t @ NUL # post) s = Some ((t @ s) @ NUL # drop (length s) post)"
proof -
  have "NUL # post = take (length s + 1) (NUL # post) @ drop (length s) post"
    by (simp add: take_Cons')
  then show ?thesis
    using assms str_at_0 [OF assms(1), of post] by (auto simp: strcat_def memcpy_def)
qed

subsection \<open>Searching\<close>

text \<open>\<open>strstr\<close>: the offset of the first occurrence.\<close>

fun strstr :: "string \<Rightarrow> string \<Rightarrow> nat option" where
  "strstr [] n = (if n = [] then Some 0 else None)"
| "strstr (c # cs) n = (if prefix n (c # cs) then Some 0 else map_option Suc (strstr cs n))"

text \<open>\<open>index\<close>: the offset of the first occurrence of a character.\<close>

fun index :: "string \<Rightarrow> char \<Rightarrow> nat option" where
  "index [] x = None"
| "index (c # cs) x = (if c = x then Some 0 else map_option Suc (index cs x))"

definition strncmp_eq :: "string \<Rightarrow> string \<Rightarrow> nat \<Rightarrow> bool" where
  "strncmp_eq s t n = (take n s = take n t)"

lemma strstr_Some: "strstr s n = Some i \<Longrightarrow> \<exists>post. s = take i s @ n @ post \<and> i + length n \<le> length s"
proof (induction s n arbitrary: i rule: strstr.induct)
  case (1 n)
  then show ?case by (auto split: if_splits)
next
  case (2 c cs n)
  show ?case
  proof (cases "prefix n (c # cs)")
    case True
    with "2.prems" obtain post where "c # cs = n @ post" and "i = 0" by (auto elim: prefixE)
    then show ?thesis using prefix_length_le [OF True] by auto
  next
    case False
    with "2.prems" obtain j where j: "strstr cs n = Some j" and i: "i = Suc j" by auto
    from "2.IH" [OF False j] show ?thesis by (auto simp: i)
  qed
qed

lemma strstr_bound: "strstr s n = Some i \<Longrightarrow> i + length n \<le> length s"
  using strstr_Some by blast

lemma strstr_exists: "strstr (a @ n @ b) n \<noteq> None"
proof (induction a)
  case Nil
  show ?case
  proof (cases "n @ b")
    case (Cons c cs)
    then have "prefix n (c # cs)" by (metis prefixI)
    with Cons show ?thesis by simp
  qed simp
next
  case (Cons c cs)
  then show ?case by simp
qed

lemma strstr_None_iff: "strstr s n = None \<longleftrightarrow> \<not> sublist n s"
proof
  assume "strstr s n = None"
  then show "\<not> sublist n s" by (auto simp: sublist_def strstr_exists)
next
  assume "\<not> sublist n s"
  then show "strstr s n = None"
    by (metis not_Some_eq strstr_Some sublist_appendI)
qed

text \<open>A text without a carriage return is skipped by the search for the line end.\<close>

lemma strstr_CRLF [block_simps]: "CR \<notin> set a \<Longrightarrow> strstr (a @ CR # LF # b) CRLF = Some (length a)"
  by (induction a) auto

text \<open>It stops at the first line end; a carriage return that no line feed follows is skipped.\<close>

lemma strstr_first: "\<not> sublist CRLF (a @ [CR]) \<Longrightarrow> strstr (a @ CR # LF # b) CRLF = Some (length a)"
proof (induction a)
  case Nil
  then show ?case by simp
next
  case (Cons c cs)
  have "\<not> sublist CRLF (cs @ [CR])" using Cons.prems by (metis append_Cons sublist_Cons_right)
  note tail = Cons.IH [OF this]
  have "\<not> prefix CRLF (c # cs @ CR # LF # b)"
  proof (cases cs)
    case (Cons d ds)
    have "\<not> prefix CRLF (c # d # ds @ [CR])" using Cons.prems Cons by (metis append_Cons prefix_imp_sublist)
    with Cons show ?thesis by simp
  qed simp
  with tail show ?case by simp
qed

lemma index_Some: "index s x = Some i \<Longrightarrow> i < length s \<and> s ! i = x \<and> x \<notin> set (take i s)"
proof (induction s x arbitrary: i rule: index.induct)
  case (1 x)
  then show ?case by simp
next
  case (2 c cs x)
  then show ?case by (cases "c = x") auto
qed

lemma index_None_iff: "index s x = None \<longleftrightarrow> x \<notin> set s"
  by (induction s) auto

lemma index_append [block_simps]: "x \<notin> set a \<Longrightarrow> index (a @ x # b) x = Some (length a)"
  by (induction a) auto

lemma strncmp_eq_prefix [block_simps]:
  "NUL \<notin> set s \<Longrightarrow> strncmp_eq s t (length t) \<longleftrightarrow> prefix t s"
  by (auto simp: strncmp_eq_def prefix_def) (metis append_take_drop_id)

subsection \<open>strtok\_r\<close>

text \<open>
  \<open>strtok_r(s, delims, &saveptr)\<close> on the block that \<open>s\<close> points into: skip the leading
  delimiters; if nothing is left, return NULL with \<open>saveptr\<close> at the terminator; otherwise
  the token runs to the next delimiter, which is overwritten by NUL, or to the terminator.
  The result is the block after the call, the token's offset, and \<open>saveptr\<close>.
\<close>

definition strtok_r :: "block \<Rightarrow> nat \<Rightarrow> string \<Rightarrow> (block \<times> nat option \<times> nat) option" where
  "strtok_r m s delims = do {
     str \<leftarrow> str_at m s;
     let k = length (takeWhile (\<lambda>c. c \<in> set delims) str);
     let rest = drop k str;
     let n = length (takeWhile (\<lambda>c. c \<notin> set delims) rest);
     if rest = [] then Some (m, None, s + k)
     else if n = length rest then Some (m, Some (s + k), s + k + n)
     else Some (m[s + k + n := NUL], Some (s + k), s + k + n + 1) }"

lemma strtok_r_None [block_simps]:
  assumes "set ds \<subseteq> set delims" "NUL \<notin> set ds" "p = length pre"
  shows "strtok_r (pre @ ds @ NUL # post) p delims
    = Some (pre @ ds @ NUL # post, None, p + length ds)"
proof -
  have tw: "takeWhile (\<lambda>c. c \<in> set delims) ds = ds"
    using assms(1) by (auto simp: takeWhile_eq_all_conv)
  show ?thesis using assms(2,3) by (simp add: strtok_r_def str_at_append tw Let_def)
qed

lemma strtok_r_last [block_simps]:
  assumes "set ds \<subseteq> set delims" "NUL \<notin> set ds" "p = length pre"
    and "tok \<noteq> []" "set tok \<inter> set delims = {}" "NUL \<notin> set tok"
  shows "strtok_r (pre @ ds @ tok @ NUL # post) p delims
    = Some (pre @ ds @ tok @ NUL # post, Some (p + length ds), p + length ds + length tok)"
proof -
  obtain t ts where tok: "tok = t # ts" using assms(4) by (cases tok) auto
  have tw: "takeWhile (\<lambda>c. c \<in> set delims) (ds @ tok) = ds"
    unfolding tok using assms(1,5) tok by (intro takeWhile_eq_append_notP) auto
  have tw2: "takeWhile (\<lambda>c. c \<notin> set delims) tok = tok" using assms(5) by auto
  have "str_at (pre @ (ds @ tok) @ NUL # post) p = Some (ds @ tok)"
    using assms by (intro str_at_append) auto
  then show ?thesis using assms(4) by (simp add: strtok_r_def tw tw2 Let_def)
qed

lemma strtok_r_token [block_simps]:
  assumes "set ds \<subseteq> set delims" "NUL \<notin> set ds" "p = length pre"
    and "tok \<noteq> []" "set tok \<inter> set delims = {}" "NUL \<notin> set tok"
    and "d \<in> set delims" "NUL \<notin> set (d # rest)"
  shows "strtok_r (pre @ ds @ tok @ d # rest @ NUL # post) p delims
    = Some (pre @ ds @ tok @ NUL # rest @ NUL # post, Some (p + length ds),
            p + length ds + length tok + 1)"
proof -
  obtain t ts where tok: "tok = t # ts" using assms(4) by (cases tok) auto
  let ?str = "ds @ tok @ d # rest"
  have tw: "takeWhile (\<lambda>c. c \<in> set delims) ?str = ds"
    unfolding tok append_Cons using assms(1,5) tok by (intro takeWhile_eq_append_notP) auto
  have tw2: "takeWhile (\<lambda>c. c \<notin> set delims) (tok @ d # rest) = tok"
    using assms(5,7) by (intro takeWhile_eq_append_notP) auto
  have str: "str_at (pre @ ?str @ NUL # post) p = Some ?str"
    using assms by (intro str_at_append) auto
  have upd: "((pre @ ds @ tok) @ d # rest @ NUL # post)[p + length ds + length tok := NUL]
      = (pre @ ds @ tok) @ NUL # rest @ NUL # post"
    using assms(3) by (intro list_update_mid) simp
  from str upd assms(4) show ?thesis by (simp add: strtok_r_def tw tw2 Let_def)
qed

text \<open>The three cases as one equation over the string the pointer points to.\<close>

lemma takeWhile_subset: "set (takeWhile P xs) \<subseteq> set xs"
  by (auto dest: set_takeWhileD)

lemma dropWhile_subset: "set (dropWhile P xs) \<subseteq> set xs"
  by (auto dest: set_dropWhileD)

lemma strtok_r_string:
  fixes s delims :: string
  defines "ds \<equiv> takeWhile (\<lambda>c. c \<in> set delims) s"
    and "rest \<equiv> dropWhile (\<lambda>c. c \<in> set delims) s"
  defines "tok \<equiv> takeWhile (\<lambda>c. c \<notin> set delims) rest"
    and "tail \<equiv> dropWhile (\<lambda>c. c \<notin> set delims) rest"
  assumes "NUL \<notin> set s" "p = length pre"
  shows "strtok_r (pre @ s @ NUL # post) p delims =
    (if tok = [] then Some (pre @ s @ NUL # post, None, p + length s)
     else if tail = [] then Some (pre @ s @ NUL # post, Some (p + length ds), p + length s)
     else Some (pre @ ds @ tok @ NUL # drop 1 tail @ NUL # post, Some (p + length ds),
       p + length ds + length tok + 1))"
proof -
  have s: "s = ds @ tok @ tail" by (simp add: ds_def tok_def tail_def rest_def)
  have ds: "set ds \<subseteq> set delims" by (auto simp: ds_def dest: set_takeWhileD)
  have tok: "set tok \<inter> set delims = {}" by (auto simp: tok_def dest: set_takeWhileD)
  have nul: "NUL \<notin> set ds" "NUL \<notin> set tok" "NUL \<notin> set tail" using assms(5) s by auto
  have tail: "hd tail \<in> set delims" if "tail \<noteq> []"
    using that hd_dropWhile [of "\<lambda>c. c \<notin> set delims" rest] by (auto simp: tail_def)
  have rest: "tok = [] \<Longrightarrow> tail = []"
  proof -
    assume "tok = []"
    then have "rest = [] \<or> hd rest \<in> set delims"
      unfolding tok_def by (cases rest) (auto split: if_splits)
    moreover have "rest \<noteq> [] \<Longrightarrow> hd rest \<notin> set delims"
      using hd_dropWhile [of "\<lambda>c. c \<in> set delims" s] by (auto simp: rest_def)
    ultimately have "rest = []" by blast
    then show "tail = []" by (simp add: tail_def)
  qed
  show ?thesis
  proof (cases "tok = []")
    case True
    then show ?thesis using strtok_r_None [OF ds nul(1) assms(6), of post] rest s by simp
  next
    case False
    show ?thesis
    proof (cases tail)
      case Nil
      then show ?thesis
        using strtok_r_last [OF ds nul(1) assms(6) False tok nul(2), of post] s False by simp
    next
      case (Cons d r)
      with tail nul have "d \<in> set delims" "NUL \<notin> set (d # r)" by auto
      from strtok_r_token [OF ds nul(1) assms(6) False tok nul(2) this, of post]
      show ?thesis using s Cons False by simp
    qed
  qed
qed

text \<open>The call never changes the block's length, and its pointers stay inside the string.\<close>

lemma strtok_r_length: "strtok_r m s d = Some (m', t, sv) \<Longrightarrow> length m' = length m"
  by (auto simp: strtok_r_def Let_def split: if_splits bind_splits)

lemmas strtok_r_cases = strtok_r_None strtok_r_last strtok_r_token

end
