(* ===== verification/Header_Table.thy ===== *)
theory Header_Table
  imports CStrings
begin

text \<open>
  The data of \<^verbatim>\<open>proxy_parse.h\<close> and the header table of \<^verbatim>\<open>proxy_parse.c\<close>:
  an array of slots that \<open>realloc\<close> doubles, in which a removed header leaves a hole whose
  key is NULL. \<open>realloc\<close> may fail: its answer for an array of n slots is the parameter
  \<open>realloc_ok n\<close>. The mallocs whose result the code does not test are taken to succeed.
\<close>

subsection \<open>Data\<close>

text \<open>
  A pointer field of the request: NULL, into \<open>pr->buf\<close>, or to a separate NUL-terminated
  block (a malloc'ed path, a string literal).
\<close>

datatype cptr = Null | InBuf nat | Own string

text \<open>
  A header slot. \<open>ph_key = None\<close> is the NULL key of a removed header; \<open>ph_value = None\<close>
  is a value pointer that must not be read (freed, or NULL).
\<close>

record ParsedHeader =
  ph_key :: "string option"
  ph_keylen :: nat
  ph_value :: "string option"
  ph_valuelen :: nat

record ParsedRequest =
  pr_method :: cptr
  pr_protocol :: cptr
  pr_host :: cptr
  pr_port :: cptr
  pr_path :: cptr
  pr_version :: cptr
  pr_buf :: "block option"
  pr_buflen :: nat
  pr_headers :: "ParsedHeader list option"
  pr_headersused :: nat
  pr_headerslen :: nat

definition DEFAULT_NHDRS :: nat where
  "DEFAULT_NHDRS = 8"

text \<open>Reading the string a field points to; undefined for NULL and for a freed buffer.\<close>

fun deref :: "ParsedRequest \<Rightarrow> cptr \<Rightarrow> string option" where
  "deref pr Null = None"
| "deref pr (InBuf p) = (case pr_buf pr of None \<Rightarrow> None | Some m \<Rightarrow> str_at m p)"
| "deref pr (Own s) = Some s"

subsection \<open>Operations\<close>

definition ParsedHeader_create :: "ParsedRequest \<Rightarrow> ParsedRequest" where
  "ParsedHeader_create pr = pr\<lparr>pr_headers := Some [], pr_headerslen := DEFAULT_NHDRS,
     pr_headersused := 0\<rparr>"

text \<open>
  \<open>malloc\<close> leaves the fields with arbitrary content, the argument \<open>junk\<close>; the function
  sets all of them but \<open>port\<close>.
\<close>

definition ParsedRequest_create :: "ParsedRequest \<Rightarrow> ParsedRequest" where
  "ParsedRequest_create junk = (ParsedHeader_create junk)
     \<lparr>pr_buf := None, pr_method := Null, pr_protocol := Null, pr_host := Null,
      pr_path := Null, pr_version := Null, pr_buflen := 0\<rparr>"

text \<open>The slot \<open>pr->headers + i\<close>.\<close>

definition slot :: "ParsedRequest \<Rightarrow> nat \<Rightarrow> ParsedHeader option" where
  "slot pr i = (case pr_headers pr of None \<Rightarrow> None
     | Some hs \<Rightarrow> if i < length hs then Some (hs ! i) else None)"

text \<open>The loop of \<open>ParsedHeader_get\<close>: the result is the index of the slot, or NULL.\<close>

function get_loop :: "ParsedRequest \<Rightarrow> string option \<Rightarrow> nat \<Rightarrow> nat option option" where
  "get_loop pr k i =
     (if i < pr_headersused pr then do {
        tmp \<leftarrow> slot pr i;
        if ph_key tmp \<noteq> None \<and> k \<noteq> None \<and> ph_key tmp = k then Some (Some i)
        else get_loop pr k (Suc i) }
      else Some None)"
  by pat_completeness auto
termination
  by (relation "measure (\<lambda>(pr, k, i). pr_headersused pr - i)") auto

declare get_loop.simps [simp del]

definition ParsedHeader_get :: "ParsedRequest \<Rightarrow> string option \<Rightarrow> nat option option" where
  "ParsedHeader_get pr k = get_loop pr k 0"

definition ParsedHeader_remove :: "ParsedRequest \<Rightarrow> string option \<Rightarrow> (ParsedRequest \<times> int) option"
  where
  "ParsedHeader_remove pr k = do {
     tmp \<leftarrow> ParsedHeader_get pr k;
     case tmp of
       None \<Rightarrow> Some (pr, -1)
     | Some i \<Rightarrow>
         Some (pr\<lparr>pr_headers := map_option
                  (\<lambda>hs. hs[i := (hs ! i)\<lparr>ph_key := None, ph_value := None\<rparr>]) (pr_headers pr)\<rparr>, 0) }"

text \<open>Writing a whole slot at \<open>pr->headers + pr->headersused\<close> and counting it.\<close>

definition put_slot :: "ParsedRequest \<Rightarrow> ParsedHeader \<Rightarrow> ParsedRequest option" where
  "put_slot pr ph = (case pr_headers pr of
       None \<Rightarrow> None
     | Some hs \<Rightarrow>
         if pr_headersused pr = length hs \<and> pr_headersused pr < pr_headerslen pr
         then Some (pr\<lparr>pr_headers := Some (hs @ [ph]), pr_headersused := pr_headersused pr + 1\<rparr>)
         else None)"

definition ParsedHeader_set ::
  "(nat \<Rightarrow> bool) \<Rightarrow> ParsedRequest \<Rightarrow> string \<Rightarrow> string \<Rightarrow> (ParsedRequest \<times> int) option" where
  "ParsedHeader_set realloc_ok pr k v = do {
     (pr, _) \<leftarrow> ParsedHeader_remove pr (Some k);
     let grow = pr_headerslen pr \<le> pr_headersused pr + 1;
     let n = pr_headerslen pr * 2;
     if grow \<and> \<not> realloc_ok n
     then Some (pr\<lparr>pr_headerslen := n, pr_headers := None\<rparr>, -1)
     else do {
       pr \<leftarrow> put_slot (if grow then pr\<lparr>pr_headerslen := n\<rparr> else pr)
         \<lparr>ph_key = Some k, ph_keylen = length k + 1, ph_value = Some v, ph_valuelen = length v + 1\<rparr>;
       Some (pr, 0) } }"

definition ParsedHeader_destroyOne :: "ParsedHeader \<Rightarrow> ParsedHeader" where
  "ParsedHeader_destroyOne ph = (if ph_key ph \<noteq> None
     then ph\<lparr>ph_key := None, ph_value := None, ph_keylen := 0, ph_valuelen := 0\<rparr> else ph)"

text \<open>
  \<open>ParsedHeader_destroy\<close> visits the used slots and frees the array; the freed array is not
  readable any more. It reads the slots, so it is undefined when \<open>headers\<close> is NULL.
\<close>

fun destroy_slots :: "ParsedRequest \<Rightarrow> nat \<Rightarrow> nat \<Rightarrow> ParsedRequest option" where
  "destroy_slots pr i 0 = Some pr"
| "destroy_slots pr i (Suc n) = do {
     ph \<leftarrow> slot pr i;
     destroy_slots (pr\<lparr>pr_headers := map_option
       (\<lambda>hs. hs[i := ParsedHeader_destroyOne ph]) (pr_headers pr)\<rparr>) (Suc i) n }"

definition ParsedHeader_destroy :: "ParsedRequest \<Rightarrow> ParsedRequest option" where
  "ParsedHeader_destroy pr = do {
     pr \<leftarrow> destroy_slots pr 0 (pr_headersused pr);
     Some (pr\<lparr>pr_headersused := 0, pr_headers := None, pr_headerslen := 0\<rparr>) }"

subsection \<open>The table's invariant and its abstraction\<close>

text \<open>
  Every used slot is initialised, one slot is always free, a live slot has a readable value
  and the stored lengths, and no two live slots have the same key.
\<close>

definition slot_ok :: "ParsedHeader \<Rightarrow> bool" where
  "slot_ok h = (case ph_key h of None \<Rightarrow> True
     | Some k \<Rightarrow> (case ph_value h of None \<Rightarrow> False
         | Some v \<Rightarrow> ph_keylen h = length k + 1 \<and> ph_valuelen h = length v + 1))"

fun live :: "ParsedHeader list \<Rightarrow> (string \<times> string) list" where
  "live [] = []"
| "live (h # hs) = (case (ph_key h, ph_value h) of
      (Some k, Some v) \<Rightarrow> (k, v) # live hs
    | _ \<Rightarrow> live hs)"

definition header_wf :: "ParsedRequest \<Rightarrow> bool" where
  "header_wf pr = (case pr_headers pr of None \<Rightarrow> False
     | Some hs \<Rightarrow> length hs = pr_headersused pr \<and> pr_headersused pr < pr_headerslen pr \<and>
         list_all slot_ok hs \<and> distinct (map fst (live hs)))"

text \<open>The table as the list of its (key, value) pairs, in the order they are printed.\<close>

definition header_list :: "ParsedRequest \<Rightarrow> (string \<times> string) list" where
  "header_list pr = (case pr_headers pr of None \<Rightarrow> [] | Some hs \<Rightarrow> live hs)"

lemma header_wfE:
  assumes "header_wf pr"
  obtains hs where "pr_headers pr = Some hs" "length hs = pr_headersused pr"
    "pr_headersused pr < pr_headerslen pr" "list_all slot_ok hs" "distinct (map fst (live hs))"
    "header_list pr = live hs"
  using assms by (auto simp: header_wf_def header_list_def split: option.splits)

lemma live_append [simp]: "live (xs @ ys) = live xs @ live ys"
  by (induction xs) (auto split: option.splits)

lemma in_live_key: "(k, v) \<in> set (live hs) \<Longrightarrow> \<exists>h \<in> set hs. ph_key h = Some k \<and> ph_value h = Some v"
  by (induction hs) (auto split: option.splits)

lemma live_keys:
  "list_all slot_ok hs \<Longrightarrow> k \<in> fst ` set (live hs) \<longleftrightarrow> (\<exists>h \<in> set hs. ph_key h = Some k)"
  by (induction hs) (auto simp: slot_ok_def image_iff split: option.splits)

subsection \<open>Looking a header up\<close>

lemma get_loop_spec:
  assumes "pr_headers pr = Some hs" "length hs = pr_headersused pr" "k \<noteq> None"
  shows "\<exists>r. get_loop pr k i = Some r \<and> (case r of
      Some j \<Rightarrow> i \<le> j \<and> j < length hs \<and> ph_key (hs ! j) = k
    | None \<Rightarrow> (\<forall>j. i \<le> j \<longrightarrow> j < length hs \<longrightarrow> ph_key (hs ! j) \<noteq> k))"
  using assms
proof (induction pr k i rule: get_loop.induct)
  case (1 pr k i)
  show ?case
  proof (cases "i < pr_headersused pr \<and> ph_key (hs ! i) \<noteq> k")
    case True
    with "1.prems" have sl: "slot pr i = Some (hs ! i)" by (simp add: slot_def)
    from "1.IH" [OF _ sl] True "1.prems" obtain r where r: "get_loop pr k (Suc i) = Some r"
      and cs: "case r of Some j \<Rightarrow> Suc i \<le> j \<and> j < length hs \<and> ph_key (hs ! j) = k
        | None \<Rightarrow> (\<forall>j. Suc i \<le> j \<longrightarrow> j < length hs \<longrightarrow> ph_key (hs ! j) \<noteq> k)" by auto
    have "get_loop pr k i = Some r"
      using True sl r by (subst get_loop.simps) auto
    moreover have "\<forall>j. i \<le> j \<longrightarrow> Suc i \<le> j \<or> j = i" by auto
    ultimately show ?thesis using cs True by (auto split: option.splits)
  next
    case False
    then show ?thesis using "1.prems" by (subst get_loop.simps) (auto simp: slot_def)
  qed
qed

lemma live_key_unique:
  assumes "distinct (map fst (live (xs @ h # ys)))" "list_all slot_ok (xs @ h # ys)"
    and "ph_key h = Some k"
  shows "k \<notin> fst ` set (live xs) \<and> k \<notin> fst ` set (live ys)"
  using assms by (auto simp: slot_ok_def split: option.splits)

lemma slot_value:
  "slot_ok h \<Longrightarrow> ph_key h = Some k \<Longrightarrow> \<exists>v. ph_value h = Some v"
  by (auto simp: slot_ok_def split: option.splits)

lemma nth_split: "j < length hs \<Longrightarrow> \<exists>xs ys. hs = xs @ hs ! j # ys \<and> length xs = j"
  using id_take_nth_drop [of j hs] by (metis length_take min.absorb4)

lemma get_None:
  assumes "header_wf pr" "ParsedHeader_get pr (Some k) = Some None"
  shows "k \<notin> fst ` set (header_list pr)"
proof -
  from assms(1) obtain hs where hs: "pr_headers pr = Some hs" "length hs = pr_headersused pr"
    "list_all slot_ok hs" "header_list pr = live hs" by (rule header_wfE)
  from get_loop_spec [OF hs(1,2), of "Some k" 0] assms(2)
  have "\<forall>j < length hs. ph_key (hs ! j) \<noteq> Some k" by (simp add: ParsedHeader_get_def)
  then have "\<forall>h \<in> set hs. ph_key h \<noteq> Some k" by (auto simp: in_set_conv_nth)
  then show ?thesis using hs(3,4) by (simp add: live_keys)
qed

text \<open>A hit splits the slot array at the unique live slot of the key.\<close>

lemma get_Some:
  assumes "header_wf pr" "ParsedHeader_get pr (Some k) = Some (Some i)"
  obtains xs h ys v where "pr_headers pr = Some (xs @ h # ys)" "length xs = i"
    "ph_key h = Some k" "ph_value h = Some v"
    "k \<notin> fst ` set (live xs)" "k \<notin> fst ` set (live ys)"
proof -
  from assms(1) obtain hs where hs: "pr_headers pr = Some hs" "length hs = pr_headersused pr"
    "list_all slot_ok hs" "distinct (map fst (live hs))" by (rule header_wfE)
  from get_loop_spec [OF hs(1,2), of "Some k" 0] assms(2)
  have i: "i < length hs" "ph_key (hs ! i) = Some k" by (simp_all add: ParsedHeader_get_def)
  from nth_split [OF i(1)] obtain xs ys where sp: "hs = xs @ hs ! i # ys" "length xs = i" by blast
  from i hs(3) have "slot_ok (hs ! i)" by (simp add: list_all_length)
  then obtain v where v: "ph_value (hs ! i) = Some v" using slot_value i(2) by blast
  from hs(3,4) sp(1) have "distinct (map fst (live (xs @ hs ! i # ys)))"
    "list_all slot_ok (xs @ hs ! i # ys)" by metis+
  from live_key_unique [OF this i(2)] show ?thesis
    using that hs(1) sp i(2) v by metis
qed

lemma get_total:
  assumes "header_wf pr"
  shows "\<exists>r. ParsedHeader_get pr (Some k) = Some r"
  using assms by (rule header_wfE) (use get_loop_spec in \<open>fastforce simp: ParsedHeader_get_def\<close>)

lemma filter_key_absent: "k \<notin> fst ` set al \<Longrightarrow> filter (\<lambda>(k', v). k' \<noteq> k) al = al"
  by (induction al) auto

lemma map_of_absent: "k \<notin> fst ` set al \<Longrightarrow> map_of al k = None"
  by (simp add: map_of_eq_None_iff)

subsection \<open>What the operations do to the abstract table\<close>

lemma remove_spec:
  assumes wf: "header_wf pr"
  shows "\<exists>pr'. ParsedHeader_remove pr (Some k)
      = Some (pr', if k \<in> fst ` set (header_list pr) then 0 else -1) \<and> header_wf pr' \<and>
     header_list pr' = filter (\<lambda>(k', v). k' \<noteq> k) (header_list pr) \<and>
     pr_headersused pr' = pr_headersused pr \<and> pr_headerslen pr' = pr_headerslen pr \<and>
     (\<exists>hs'. pr' = pr\<lparr>pr_headers := Some hs'\<rparr>)"
proof -
  from get_total [OF wf] obtain r where r: "ParsedHeader_get pr (Some k) = Some r" by blast
  show ?thesis
  proof (cases r)
    case None
    with r get_None [OF wf] have nk: "k \<notin> fst ` set (header_list pr)" by simp
    have "\<exists>hs'. pr = pr\<lparr>pr_headers := Some hs'\<rparr>"
      using wf by (rule header_wfE) (metis ParsedRequest.surjective ParsedRequest.update_convs(9))
    with nk r None wf show ?thesis
      by (simp add: ParsedHeader_remove_def filter_key_absent)
  next
    case (Some i)
    with r get_Some [OF wf] obtain xs h ys v where
      s: "pr_headers pr = Some (xs @ h # ys)" "length xs = i" "ph_key h = Some k"
        "ph_value h = Some v" "k \<notin> fst ` set (live xs)" "k \<notin> fst ` set (live ys)" by metis
    let ?h = "h\<lparr>ph_key := None, ph_value := None\<rparr>"
    have upd: "(xs @ h # ys)[i := ((xs @ h # ys) ! i)\<lparr>ph_key := None, ph_value := None\<rparr>]
        = xs @ ?h # ys" using s(2) by (auto simp: nth_append list_update_append)
    have hl: "header_list pr = live xs @ (k, v) # live ys"
      using s by (simp add: header_list_def)
    have kin: "k \<in> fst ` set (header_list pr)" by (simp add: hl)
    have rm: "ParsedHeader_remove pr (Some k) = Some (pr\<lparr>pr_headers := Some (xs @ ?h # ys)\<rparr>, 0)"
      using r Some s(1) upd by (simp add: ParsedHeader_remove_def)
    have "slot_ok ?h" by (simp add: slot_ok_def)
    then have "header_wf (pr\<lparr>pr_headers := Some (xs @ ?h # ys)\<rparr>)"
      using wf s by (auto simp: header_wf_def)
    moreover have "header_list (pr\<lparr>pr_headers := Some (xs @ ?h # ys)\<rparr>)
        = filter (\<lambda>(k', v). k' \<noteq> k) (header_list pr)"
      using s filter_key_absent [OF s(5)] filter_key_absent [OF s(6)]
      by (simp add: hl) (simp add: header_list_def)
    ultimately show ?thesis using rm kin by auto
  qed
qed

lemma put_slot_spec:
  assumes "header_wf pr" "pr_headersused pr + 1 < n" "ph_key h = Some k" "ph_value h = Some v"
    "slot_ok h" "k \<notin> fst ` set (header_list pr)"
  shows "\<exists>hs. put_slot (pr\<lparr>pr_headerslen := n\<rparr>) h = Some (pr\<lparr>pr_headerslen := n,
       pr_headers := Some hs, pr_headersused := pr_headersused pr + 1\<rparr>) \<and>
     header_wf (pr\<lparr>pr_headerslen := n, pr_headers := Some hs,
       pr_headersused := pr_headersused pr + 1\<rparr>) \<and>
     live hs = header_list pr @ [(k, v)]"
proof -
  from assms(1) obtain hs where hs: "pr_headers pr = Some hs" "length hs = pr_headersused pr"
    "list_all slot_ok hs" "distinct (map fst (live hs))" "header_list pr = live hs"
    by (rule header_wfE)
  with assms show ?thesis
    by (intro exI [of _ "hs @ [h]"]) (auto simp: put_slot_def header_wf_def)
qed

text \<open>
  \<open>ParsedHeader_set\<close> where \<open>realloc\<close> succeeds: the old entry of the key is gone, the new
  one is last, the result is 0 and the request differs in its header fields only.
\<close>

lemma set_spec:
  assumes wf: "header_wf pr" and ok: "\<forall>n. realloc_ok n"
  shows "\<exists>pr' hs n. ParsedHeader_set realloc_ok pr k v = Some (pr', 0) \<and> header_wf pr' \<and>
     header_list pr' = filter (\<lambda>(k', v). k' \<noteq> k) (header_list pr) @ [(k, v)] \<and>
     pr' = pr\<lparr>pr_headers := Some hs, pr_headerslen := n,
       pr_headersused := pr_headersused pr + 1\<rparr>"
proof -
  from remove_spec [OF wf, of k] obtain pr1 rc hs1 where
    rm: "ParsedHeader_remove pr (Some k) = Some (pr1, rc)" and wf1: "header_wf pr1"
    and hl1: "header_list pr1 = filter (\<lambda>(k', v). k' \<noteq> k) (header_list pr)"
    and pr1: "pr1 = pr\<lparr>pr_headers := Some hs1\<rparr>" by blast
  let ?h = "\<lparr>ph_key = Some k, ph_keylen = length k + 1, ph_value = Some v,
    ph_valuelen = length v + 1\<rparr> :: ParsedHeader"
  define grow where "grow = (pr_headerslen pr1 \<le> pr_headersused pr1 + 1)"
  define n where "n = (if grow then pr_headerslen pr1 * 2 else pr_headerslen pr1)"
  have "pr_headersused pr1 < pr_headerslen pr1" using wf1 by (rule header_wfE)
  then have n: "pr_headersused pr1 + 1 < n" by (auto simp: n_def grow_def)
  have nk: "k \<notin> fst ` set (header_list pr1)" by (auto simp: hl1)
  have eq: "(if grow then pr1\<lparr>pr_headerslen := pr_headerslen pr1 * 2\<rparr> else pr1)
      = pr1\<lparr>pr_headerslen := n\<rparr>" by (simp add: n_def)
  have "slot_ok ?h" by (simp add: slot_ok_def)
  with put_slot_spec [OF wf1 n, of ?h k v] nk obtain hs where
    put: "put_slot (pr1\<lparr>pr_headerslen := n\<rparr>) ?h = Some (pr1\<lparr>pr_headerslen := n,
      pr_headers := Some hs, pr_headersused := pr_headersused pr1 + 1\<rparr>)"
    and wf2: "header_wf (pr1\<lparr>pr_headerslen := n, pr_headers := Some hs,
      pr_headersused := pr_headersused pr1 + 1\<rparr>)"
    and hs: "live hs = header_list pr1 @ [(k, v)]" by auto
  let ?pr' = "pr\<lparr>pr_headers := Some hs, pr_headerslen := n,
    pr_headersused := pr_headersused pr + 1\<rparr>"
  have "ParsedHeader_set realloc_ok pr k v = put_slot
      (if grow then pr1\<lparr>pr_headerslen := pr_headerslen pr1 * 2\<rparr> else pr1) ?h \<bind> (\<lambda>p. Some (p, 0))"
    using rm ok by (simp add: ParsedHeader_set_def Let_def grow_def)
  then have "ParsedHeader_set realloc_ok pr k v = Some (?pr', 0)"
    unfolding eq put by (simp add: pr1)
  moreover have "header_wf ?pr'" using wf2 by (simp add: pr1 header_wf_def)
  moreover have "header_list ?pr' = filter (\<lambda>(k', v). k' \<noteq> k) (header_list pr) @ [(k, v)]"
    using hs hl1 by (simp add: header_list_def)
  ultimately show ?thesis by blast
qed

text \<open>When \<open>realloc\<close> fails the function returns -1 and leaves \<open>headers\<close> NULL.\<close>

lemma set_realloc_fails:
  assumes wf: "header_wf pr" and full: "pr_headerslen pr = pr_headersused pr + 1"
    and fail: "\<not> realloc_ok (pr_headerslen pr * 2)"
  shows "\<exists>pr'. ParsedHeader_set realloc_ok pr k v = Some (pr', -1) \<and> pr_headers pr' = None \<and>
     pr_headersused pr' = pr_headersused pr"
proof -
  from remove_spec [OF wf, of k] obtain pr1 rc where
    "ParsedHeader_remove pr (Some k) = Some (pr1, rc)"
    "pr_headersused pr1 = pr_headersused pr" "pr_headerslen pr1 = pr_headerslen pr" by blast
  with full fail show ?thesis by (simp add: ParsedHeader_set_def Let_def)
qed

lemma get_spec:
  assumes wf: "header_wf pr"
  shows "\<exists>r. ParsedHeader_get pr (Some k) = Some r \<and>
     (case r of None \<Rightarrow> map_of (header_list pr) k = None
      | Some i \<Rightarrow> \<exists>h v. slot pr i = Some h \<and> ph_key h = Some k \<and> ph_value h = Some v \<and>
          map_of (header_list pr) k = Some v)"
proof -
  from get_total [OF wf] obtain r where r: "ParsedHeader_get pr (Some k) = Some r" by blast
  show ?thesis
  proof (cases r)
    case None
    with r get_None [OF wf] show ?thesis by (simp add: map_of_absent)
  next
    case (Some i)
    with r get_Some [OF wf] obtain xs h ys v where
      s: "pr_headers pr = Some (xs @ h # ys)" "length xs = i" "ph_key h = Some k"
        "ph_value h = Some v" "k \<notin> fst ` set (live xs)" by metis
    then have "map_of (header_list pr) k = Some v"
      using map_of_absent [of k "live xs"] by (simp add: header_list_def map_add_def)
    with s r Some show ?thesis by (auto simp: slot_def nth_append)
  qed
qed

lemma create_wf [wf_intros]: "header_wf (ParsedRequest_create junk)"
  by (simp add: ParsedRequest_create_def ParsedHeader_create_def header_wf_def DEFAULT_NHDRS_def)

lemma create_empty: "header_list (ParsedRequest_create junk) = []"
  by (simp add: ParsedRequest_create_def ParsedHeader_create_def header_list_def)

text \<open>Destroying a well-formed table reads initialised slots only.\<close>

lemma destroy_slots_total:
  "pr_headers pr = Some hs \<Longrightarrow> i + n \<le> length hs \<Longrightarrow>
   \<exists>hs'. destroy_slots pr i n = Some (pr\<lparr>pr_headers := Some hs'\<rparr>) \<and> length hs' = length hs"
proof (induction n arbitrary: i pr hs)
  case 0
  then have "pr = pr\<lparr>pr_headers := Some hs\<rparr>" by (metis ParsedRequest.surjective ParsedRequest.update_convs(9))
  then show ?case by auto
next
  case (Suc n)
  let ?hs = "hs[i := ParsedHeader_destroyOne (hs ! i)]"
  from Suc.prems have "slot pr i = Some (hs ! i)" by (simp add: slot_def)
  moreover from Suc.IH [of "pr\<lparr>pr_headers := Some ?hs\<rparr>" ?hs "Suc i"] Suc.prems
  obtain hs' where "destroy_slots (pr\<lparr>pr_headers := Some ?hs\<rparr>) (Suc i) n
      = Some (pr\<lparr>pr_headers := Some hs'\<rparr>)" "length hs' = length hs" by auto
  ultimately show ?case using Suc.prems by auto
qed

lemma destroy_total:
  assumes "header_wf pr"
  shows "ParsedHeader_destroy pr
    = Some (pr\<lparr>pr_headersused := 0, pr_headers := None, pr_headerslen := 0\<rparr>)"
proof -
  from assms obtain hs where "pr_headers pr = Some hs" "length hs = pr_headersused pr"
    by (rule header_wfE)
  with destroy_slots_total [of pr hs 0 "pr_headersused pr"] show ?thesis
    by (auto simp: ParsedHeader_destroy_def)
qed

subsection \<open>The header table as an interface\<close>

text \<open>
  What the callers of the table rely on: an invariant, the list of entries, and what setting
  and looking up a header do to them.
\<close>

locale header_table =
  fixes set_header :: "'t \<Rightarrow> string \<Rightarrow> string \<Rightarrow> ('t \<times> int) option"
    and has_header :: "'t \<Rightarrow> string \<Rightarrow> bool option"
    and entries :: "'t \<Rightarrow> (string \<times> string) list"
    and inv :: "'t \<Rightarrow> bool"
  assumes set_law: "inv t \<Longrightarrow> \<exists>t'. set_header t k v = Some (t', 0) \<and> inv t' \<and>
      entries t' = filter (\<lambda>(k', v). k' \<noteq> k) (entries t) @ [(k, v)]"
    and has_law: "inv t \<Longrightarrow> has_header t k = Some (k \<in> fst ` set (entries t))"
begin

lemma set_then_has:
  assumes "inv t"
  shows "\<exists>t'. set_header t k v = Some (t', 0) \<and> inv t' \<and> has_header t' k = Some True"
  using set_law [OF assms] has_law by fastforce

lemma set_lookup:
  assumes "inv t"
  shows "\<exists>t'. set_header t k v = Some (t', 0) \<and> inv t' \<and>
    map_of (entries t') = (map_of (entries t))(k \<mapsto> v)"
proof -
  from set_law [OF assms] obtain t' where t': "set_header t k v = Some (t', 0)" "inv t'"
    "entries t' = filter (\<lambda>(k', v). k' \<noteq> k) (entries t) @ [(k, v)]" by blast
  have "map_of (filter (\<lambda>(k', v). k' \<noteq> k) al @ [(k, v)]) = (map_of al)(k \<mapsto> v)" for al
    by (induction al) (auto simp: fun_eq_iff map_add_def)
  with t' show ?thesis by auto
qed

text \<open>Two settings of different headers, as every request rewriting does.\<close>

lemma set_set:
  assumes "inv t" "k1 \<noteq> k2"
  shows "\<exists>t1 t2. set_header t k1 v1 = Some (t1, 0) \<and> set_header t1 k2 v2 = Some (t2, 0) \<and> inv t2 \<and>
    entries t2 = filter (\<lambda>(k', v). k' \<noteq> k1 \<and> k' \<noteq> k2) (entries t) @ [(k1, v1), (k2, v2)]"
proof -
  from set_law [OF assms(1)] obtain t1 where t1: "set_header t k1 v1 = Some (t1, 0)" "inv t1"
    "entries t1 = filter (\<lambda>(k', v). k' \<noteq> k1) (entries t) @ [(k1, v1)]" by blast
  from set_law [OF t1(2)] obtain t2 where t2: "set_header t1 k2 v2 = Some (t2, 0)" "inv t2"
    "entries t2 = filter (\<lambda>(k', v). k' \<noteq> k2) (entries t1) @ [(k2, v2)]" by blast
  have "entries t2 = filter (\<lambda>(k', v). k' \<noteq> k1 \<and> k' \<noteq> k2) (entries t) @ [(k1, v1), (k2, v2)]"
    using t1(3) t2(3) assms(2) by (auto simp: case_prod_unfold intro!: filter_cong)
  with t1 t2 show ?thesis by blast
qed

end

definition has_header :: "ParsedRequest \<Rightarrow> string \<Rightarrow> bool option" where
  "has_header pr k = map_option (\<lambda>r. r \<noteq> None) (ParsedHeader_get pr (Some k))"

interpretation ht: header_table "ParsedHeader_set (\<lambda>_. True)" has_header header_list header_wf
proof unfold_locales
  fix t :: ParsedRequest and k v :: string
  assume wf: "header_wf t"
  from set_spec [OF wf, of "\<lambda>_. True" k v]
  show "\<exists>t'. ParsedHeader_set (\<lambda>_. True) t k v = Some (t', 0) \<and> header_wf t' \<and>
      header_list t' = filter (\<lambda>(k', v). k' \<noteq> k) (header_list t) @ [(k, v)]" by auto
  from get_spec [OF wf, of k] obtain r where r: "ParsedHeader_get t (Some k) = Some r"
    and cs: "case r of None \<Rightarrow> map_of (header_list t) k = None
      | Some i \<Rightarrow> \<exists>h v. slot t i = Some h \<and> ph_key h = Some k \<and> ph_value h = Some v \<and>
          map_of (header_list t) k = Some v" by blast
  from cs have "r \<noteq> None \<longleftrightarrow> map_of (header_list t) k \<noteq> None" by (cases r) auto
  then show "has_header t k = Some (k \<in> fst ` set (header_list t))"
    by (simp add: has_header_def r map_of_eq_None_iff)
qed

end
