(* ===== verification/Request_Print.thy ===== *)
theory Request_Print
  imports Header_Table
begin

text \<open>
  Unparsing (\<^verbatim>\<open>proxy_parse.c\<close>): the length functions and the functions that print
  the request line and the headers into the caller's buffer. The buffer is a block and an
  offset; every \<open>memcpy\<close> is checked against the block, so a result that is \<open>Some\<close>
  shows that nothing was written outside it.
\<close>

subsection \<open>Operations\<close>

definition ParsedHeader_lineLen :: "ParsedHeader \<Rightarrow> nat option" where
  "ParsedHeader_lineLen ph = (case ph_key ph of
       None \<Rightarrow> Some 0
     | Some k \<Rightarrow> do { v \<leftarrow> ph_value ph; Some (length k + length v + 4) })"

text \<open>\<open>int len\<close> accumulates \<open>size_t\<close> summands: each addition is converted back to \<open>int\<close>.\<close>

fun headersLen_loop :: "ParsedRequest \<Rightarrow> nat \<Rightarrow> nat \<Rightarrow> int \<Rightarrow> int option" where
  "headersLen_loop pr i 0 len = Some len"
| "headersLen_loop pr i (Suc n) len = do {
     ph \<leftarrow> slot pr i;
     l \<leftarrow> ParsedHeader_lineLen ph;
     headersLen_loop pr (Suc i) n (to_int32 (len + int l)) }"

definition ParsedHeader_headersLen :: "ParsedRequest \<Rightarrow> nat option" where
  "ParsedHeader_headersLen pr = (if pr_buf pr = None then Some 0 else do {
     len \<leftarrow> headersLen_loop pr 0 (pr_headersused pr) 0;
     Some (to_size_t (to_int32 (len + 2))) })"

fun printHeaders_loop :: "ParsedRequest \<Rightarrow> nat \<Rightarrow> nat \<Rightarrow> block \<Rightarrow> nat \<Rightarrow> (block \<times> nat) option" where
  "printHeaders_loop pr i 0 m cur = Some (m, cur)"
| "printHeaders_loop pr i (Suc n) m cur = do {
     ph \<leftarrow> slot pr i;
     case ph_key ph of
       None \<Rightarrow> printHeaders_loop pr (Suc i) n m cur
     | Some k \<Rightarrow> do {
         v \<leftarrow> ph_value ph;
         m \<leftarrow> memcpy m cur k;
         m \<leftarrow> memcpy m (cur + length k) '': '';
         m \<leftarrow> memcpy m (cur + length k + 2) v;
         m \<leftarrow> memcpy m (cur + length k + 2 + length v) CRLF;
         printHeaders_loop pr (Suc i) n m (cur + length k + length v + 4) } }"

definition ParsedHeader_printHeaders ::
  "ParsedRequest \<Rightarrow> block \<Rightarrow> nat \<Rightarrow> nat \<Rightarrow> (block \<times> int) option" where
  "ParsedHeader_printHeaders pr m off len = do {
     need \<leftarrow> ParsedHeader_headersLen pr;
     if len < need then Some (m, -1)
     else do {
       (m, cur) \<leftarrow> printHeaders_loop pr 0 (pr_headersused pr) m off;
       m \<leftarrow> memcpy m cur CRLF;
       Some (m, 0) } }"

definition ParsedRequest_requestLineLen :: "ParsedRequest \<Rightarrow> nat option" where
  "ParsedRequest_requestLineLen pr = (if pr_buf pr = None then Some 0 else do {
     me \<leftarrow> deref pr (pr_method pr);
     pc \<leftarrow> deref pr (pr_protocol pr);
     ho \<leftarrow> deref pr (pr_host pr);
     ve \<leftarrow> deref pr (pr_version pr);
     po \<leftarrow> (if pr_port pr \<noteq> Null then map_option (\<lambda>s. length s + 1) (deref pr (pr_port pr))
            else Some 0);
     pa \<leftarrow> deref pr (pr_path pr);
     Some (length me + 1 + length pc + 3 + length ho + 1 + length ve + 2 + po + length pa) })"

definition ParsedRequest_printRequestLine ::
  "ParsedRequest \<Rightarrow> block \<Rightarrow> nat \<Rightarrow> (block \<times> int \<times> nat) option" where
  "ParsedRequest_printRequestLine pr m len = do {
     need \<leftarrow> ParsedRequest_requestLineLen pr;
     if len < need then Some (m, -1, 0)
     else do {
       me \<leftarrow> deref pr (pr_method pr);
       m \<leftarrow> memcpy m 0 me;
       let cur = length me;
       m \<leftarrow> memcpy m cur '' '';
       let cur = cur + 1;
       pc \<leftarrow> deref pr (pr_protocol pr);
       m \<leftarrow> memcpy m cur pc;
       let cur = cur + length pc;
       m \<leftarrow> memcpy m cur ''://'';
       let cur = cur + 3;
       ho \<leftarrow> deref pr (pr_host pr);
       m \<leftarrow> memcpy m cur ho;
       let cur = cur + length ho;
       (m, cur) \<leftarrow> (if pr_port pr \<noteq> Null then do {
           m \<leftarrow> memcpy m cur '':'';
           po \<leftarrow> deref pr (pr_port pr);
           m \<leftarrow> memcpy m (cur + 1) po;
           Some (m, cur + 1 + length po) } else Some (m, cur));
       pa \<leftarrow> deref pr (pr_path pr);
       m \<leftarrow> memcpy m cur pa;
       let cur = cur + length pa;
       m \<leftarrow> memcpy m cur '' '';
       let cur = cur + 1;
       ve \<leftarrow> deref pr (pr_version pr);
       m \<leftarrow> memcpy m cur ve;
       let cur = cur + length ve;
       m \<leftarrow> memcpy m cur CRLF;
       Some (m, 0, cur + 2) } }"

text \<open>
  \<open>unparse\<close> and \<open>unparse_headers\<close> print into a buffer that the caller says has \<open>len\<close>
  bytes, at the start of the block \<open>m\<close>. The result is the block and the return code.
\<close>

definition ParsedRequest_unparse :: "ParsedRequest \<Rightarrow> block \<Rightarrow> nat \<Rightarrow> (block \<times> int) option" where
  "ParsedRequest_unparse pr m len = (if pr_buf pr = None then Some (m, -1) else do {
     (m, r, tmp) \<leftarrow> ParsedRequest_printRequestLine pr m len;
     if r < 0 then Some (m, -1)
     else do {
       (m, r) \<leftarrow> ParsedHeader_printHeaders pr m tmp (len - tmp);
       if r < 0 then Some (m, -1) else Some (m, 0) } })"

definition ParsedRequest_unparse_headers ::
  "ParsedRequest \<Rightarrow> block \<Rightarrow> nat \<Rightarrow> nat \<Rightarrow> (block \<times> int) option" where
  "ParsedRequest_unparse_headers pr m off len = (if pr_buf pr = None then Some (m, -1) else do {
     (m, r) \<leftarrow> ParsedHeader_printHeaders pr m off len;
     if r < 0 then Some (m, -1) else Some (m, 0) })"

definition ParsedRequest_totalLen :: "ParsedRequest \<Rightarrow> nat option" where
  "ParsedRequest_totalLen pr = (if pr_buf pr = None then Some 0 else do {
     a \<leftarrow> ParsedRequest_requestLineLen pr;
     b \<leftarrow> ParsedHeader_headersLen pr;
     Some (a + b) })"

subsection \<open>The texts they print\<close>

fun render_header :: "string \<times> string \<Rightarrow> string" where
  "render_header (k, v) = k @ '': '' @ v @ CRLF"

definition render_headers :: "(string \<times> string) list \<Rightarrow> string" where
  "render_headers hl = concat (map render_header hl) @ CRLF"

text \<open>A request as its strings.\<close>

record request =
  rq_method :: string
  rq_protocol :: string
  rq_host :: string
  rq_port :: "string option"
  rq_path :: string
  rq_version :: string
  rq_headers :: "(string \<times> string) list"

definition render_addr :: "request \<Rightarrow> string" where
  "render_addr r = rq_protocol r @ ''://'' @ rq_host r @
     (case rq_port r of None \<Rightarrow> '''' | Some p \<Rightarrow> '':'' @ p) @ rq_path r"

definition render_line :: "request \<Rightarrow> string" where
  "render_line r = rq_method r @ '' '' @ render_addr r @ '' '' @ rq_version r"

definition render :: "request \<Rightarrow> string" where
  "render r = render_line r @ CRLF @ render_headers (rq_headers r)"

text \<open>The request a \<open>ParsedRequest\<close> stands for: every field read through its pointer.\<close>

definition request_of :: "ParsedRequest \<Rightarrow> request option" where
  "request_of pr = do {
     me \<leftarrow> deref pr (pr_method pr);
     pc \<leftarrow> deref pr (pr_protocol pr);
     ho \<leftarrow> deref pr (pr_host pr);
     po \<leftarrow> (if pr_port pr = Null then Some None else map_option Some (deref pr (pr_port pr)));
     pa \<leftarrow> deref pr (pr_path pr);
     ve \<leftarrow> deref pr (pr_version pr);
     Some \<lparr>rq_method = me, rq_protocol = pc, rq_host = ho, rq_port = po, rq_path = pa,
       rq_version = ve, rq_headers = header_list pr\<rparr> }"

lemma request_ofD:
  assumes "request_of pr = Some r"
  shows "deref pr (pr_method pr) = Some (rq_method r)"
    and "deref pr (pr_protocol pr) = Some (rq_protocol r)"
    and "deref pr (pr_host pr) = Some (rq_host r)"
    and "deref pr (pr_path pr) = Some (rq_path r)"
    and "deref pr (pr_version pr) = Some (rq_version r)"
    and "pr_port pr \<noteq> Null \<Longrightarrow> \<exists>p. deref pr (pr_port pr) = Some p \<and> rq_port r = Some p"
    and "pr_port pr = Null \<Longrightarrow> rq_port r = None"
    and "rq_headers r = header_list pr"
  using assms by (cases "pr_port pr = Null"; auto simp: request_of_def split: bind_splits)+

subsection \<open>Lengths\<close>

lemma lineLen_live:
  "slot_ok h \<Longrightarrow> ParsedHeader_lineLen h = Some (length (concat (map render_header (live [h]))))"
  by (auto simp: ParsedHeader_lineLen_def slot_ok_def split: option.splits)

lemma headersLen_loop_spec:
  assumes "pr_headers pr = Some hs" "list_all slot_ok hs" "i + n \<le> length hs"
  shows "headersLen_loop pr i n (to_int32 len) = Some (to_int32 (len +
    int (length (concat (map render_header (live (take n (drop i hs))))))))"
  using assms
proof (induction n arbitrary: i len)
  case 0
  then show ?case by simp
next
  case (Suc n)
  let ?h = "hs ! i"
  from Suc.prems have sl: "slot pr i = Some ?h" by (simp add: slot_def)
  from Suc.prems have "slot_ok ?h" by (simp add: list_all_length)
  note ll = lineLen_live [OF this]
  have tk: "take (Suc n) (drop i hs) = [?h] @ take n (drop (Suc i) hs)"
    using Suc.prems by (simp add: Cons_nth_drop_Suc [symmetric])
  have lv: "live (take (Suc n) (drop i hs)) = live [?h] @ live (take n (drop (Suc i) hs))"
    unfolding tk live_append ..
  from Suc.IH [of "Suc i"] Suc.prems
  have "headersLen_loop pr (Suc i) n (to_int32 (len + int l)) = Some (to_int32 (len + int l +
    int (length (concat (map render_header (live (take n (drop (Suc i) hs))))))))" for l by simp
  with sl ll show ?case unfolding lv by (simp add: to_int32_add add.assoc del: live.simps)
qed

lemma headersLen_spec:
  assumes "header_wf pr" "pr_buf pr \<noteq> None"
  shows "ParsedHeader_headersLen pr =
    Some (to_size_t (to_int32 (int (length (render_headers (header_list pr))))))"
proof -
  from assms(1) obtain hs where hs: "pr_headers pr = Some hs" "length hs = pr_headersused pr"
    "list_all slot_ok hs" "header_list pr = live hs" by (rule header_wfE)
  have z: "to_int32 0 = 0" by (simp add: to_int32_id)
  have c: "to_int32 (2 + to_int32 x) = to_int32 (x + 2)" for x
    using to_int32_add [of x 2] by (simp add: add.commute)
  from z headersLen_loop_spec [OF hs(1,3), of 0 "length hs" 0] hs assms(2) show ?thesis
    by (auto simp: ParsedHeader_headersLen_def c render_headers_def add.commute)
qed

text \<open>Below two gigabytes no conversion changes the length.\<close>

abbreviation headers_fit :: "ParsedRequest \<Rightarrow> bool" where
  "headers_fit pr \<equiv> length (render_headers (header_list pr)) < 2147483648"

lemma headersLen_exact:
  assumes "header_wf pr" "pr_buf pr \<noteq> None" "headers_fit pr"
  shows "ParsedHeader_headersLen pr = Some (length (render_headers (header_list pr)))"
  using assms by (simp add: headersLen_spec to_int32_id to_size_t_id)

lemma requestLineLen_exact:
  assumes "request_of pr = Some r" "pr_buf pr \<noteq> None"
  shows "ParsedRequest_requestLineLen pr = Some (length (render_line r) + 2)"
  using request_ofD [OF assms(1)] assms(2)
  by (cases "pr_port pr = Null")
    (auto simp: ParsedRequest_requestLineLen_def render_line_def render_addr_def)

subsection \<open>What is printed\<close>

text \<open>Four \<open>memcpy\<close>s in a row per header are one \<open>memcpy\<close> of the rendered header.\<close>

lemma printHeaders_loop_spec:
  assumes "pr_headers pr = Some hs" "list_all slot_ok hs" "i + n \<le> length hs" "cur \<le> length m"
  shows "printHeaders_loop pr i n m cur =
    map_option (\<lambda>m'. (m', cur + length (concat (map render_header (live (take n (drop i hs)))))))
      (memcpy m cur (concat (map render_header (live (take n (drop i hs))))))"
  using assms
proof (induction n arbitrary: i m cur)
  case 0
  then show ?case by (simp add: memcpy_Nil)
next
  case (Suc n)
  let ?h = "hs ! i" and ?rest = "concat (map render_header (live (take n (drop (Suc i) hs))))"
  from Suc.prems have sl: "slot pr i = Some ?h" by (simp add: slot_def)
  from Suc.prems have ok: "slot_ok ?h" by (simp add: list_all_length)
  have tk: "take (Suc n) (drop i hs) = ?h # take n (drop (Suc i) hs)"
    using Suc.prems by (simp add: Cons_nth_drop_Suc [symmetric])
  show ?case
  proof (cases "ph_key ?h")
    case None
    then show ?thesis using Suc.IH [of "Suc i" cur m] Suc.prems sl by (simp add: tk)
  next
    case (Some k)
    with ok obtain v where v: "ph_value ?h = Some v" using slot_value by blast
    let ?line = "k @ '': '' @ v @ CRLF"
    have "printHeaders_loop pr i (Suc n) m cur = memcpy m cur ?line \<bind>
        (\<lambda>m1. printHeaders_loop pr (Suc i) n m1 (cur + length ?line))"
      using sl Some v by (simp add: memcpy_chain eval_nat_numeral add.assoc)
    also have "\<dots> = memcpy m cur ?line \<bind>
        (\<lambda>m1. map_option (\<lambda>m'. (m', cur + length ?line + length ?rest))
          (memcpy m1 (cur + length ?line) ?rest))"
    proof (rule Option.bind_cong [OF refl])
      fix m1 assume "memcpy m cur ?line = Some m1"
      then have "cur + length ?line \<le> length m1"
        by (auto simp: memcpy_def split: if_splits)
      then show "printHeaders_loop pr (Suc i) n m1 (cur + length ?line) =
        map_option (\<lambda>m'. (m', cur + length ?line + length ?rest))
          (memcpy m1 (cur + length ?line) ?rest)"
        using Suc.IH [of "Suc i" "cur + length ?line" m1] Suc.prems by simp
    qed
    also have "\<dots> = map_option (\<lambda>m'. (m', cur + length ?line + length ?rest))
        (memcpy m cur (?line @ ?rest))"
      by (rule memcpy_chain_map [OF refl])
    finally show ?thesis using Some v by (simp add: tk add.assoc)
  qed
qed

lemma printHeaders_spec:
  assumes "header_wf pr" "pr_buf pr \<noteq> None" "headers_fit pr" "off + len \<le> length m"
  shows "ParsedHeader_printHeaders pr m off len =
    (if len < length (render_headers (header_list pr)) then Some (m, -1)
     else map_option (\<lambda>m'. (m', 0)) (memcpy m off (render_headers (header_list pr))))"
proof -
  from assms(1) obtain hs where hs: "pr_headers pr = Some hs" "length hs = pr_headersused pr"
    "list_all slot_ok hs" "header_list pr = live hs" by (rule header_wfE)
  have off: "off \<le> length m" using assms(4) by simp
  let ?all = "concat (map render_header (live hs))"
  from printHeaders_loop_spec [OF hs(1,3), of 0 "length hs" off m] hs off
  have loop: "printHeaders_loop pr 0 (pr_headersused pr) m off =
    map_option (\<lambda>m'. (m', off + length ?all)) (memcpy m off ?all)" by simp
  show ?thesis
  proof (cases "memcpy m off ?all")
    case None
    then show ?thesis using headersLen_exact [OF assms(1-3)] loop hs(4) assms(4)
      by (auto simp: ParsedHeader_printHeaders_def memcpy_eq_None render_headers_def)
  next
    case (Some m1)
    then show ?thesis using headersLen_exact [OF assms(1-3)] loop hs(4) memcpy_memcpy [OF Some, of CRLF]
      by (auto simp: ParsedHeader_printHeaders_def render_headers_def bind_Some_map)
  qed
qed

lemma printRequestLine_spec:
  assumes "request_of pr = Some r" "pr_buf pr \<noteq> None"
  shows "ParsedRequest_printRequestLine pr m len =
    (if len < length (render_line r) + 2 then Some (m, -1, 0)
     else map_option (\<lambda>m'. (m', 0, length (render_line r) + 2)) (memcpy m 0 (render_line r @ CRLF)))"
proof -
  note d = request_ofD [OF assms(1)]
  show ?thesis
  proof (cases "pr_port pr = Null")
    case True
    then show ?thesis
      using d assms requestLineLen_exact [OF assms]
      by (simp add: ParsedRequest_printRequestLine_def memcpy_chain Let_def render_line_def
          render_addr_def memcpy_chain_map bind_Some_map eval_nat_numeral add.assoc)
  next
    case False
    with d(6) obtain p where "deref pr (pr_port pr) = Some p" "rq_port r = Some p" by blast
    with False show ?thesis
      using d(1-5) assms requestLineLen_exact [OF assms]
      by (simp add: ParsedRequest_printRequestLine_def memcpy_chain Let_def render_line_def
          render_addr_def eval_nat_numeral add.assoc; simp add: bind_Some_map)
  qed
qed

lemma unparse_headers_spec:
  assumes "header_wf pr" "pr_buf pr \<noteq> None" "headers_fit pr" "off + len \<le> length m"
  shows "ParsedRequest_unparse_headers pr m off len =
    (if len < length (render_headers (header_list pr)) then Some (m, -1)
     else Some (take off m @ render_headers (header_list pr) @
       drop (off + length (render_headers (header_list pr))) m, 0))"
  using assms printHeaders_spec [OF assms]
  by (auto simp: ParsedRequest_unparse_headers_def memcpy_def)

lemma totalLen_exact:
  assumes "request_of pr = Some r" "header_wf pr" "pr_buf pr \<noteq> None" "headers_fit pr"
  shows "ParsedRequest_totalLen pr = Some (length (render r))"
  using assms requestLineLen_exact [OF assms(1,3)] headersLen_exact [OF assms(2-4)]
    request_ofD(8) [OF assms(1)]
  by (auto simp: ParsedRequest_totalLen_def render_def)

lemma unparse_spec:
  assumes r: "request_of pr = Some r" and wf: "header_wf pr" and b: "pr_buf pr \<noteq> None"
    and fit: "headers_fit pr" and len: "length (render r) \<le> len" "len \<le> length m"
  shows "ParsedRequest_unparse pr m len = Some (render r @ drop (length (render r)) m, 0)"
proof -
  let ?l = "render_line r @ CRLF" and ?h = "render_headers (header_list pr)"
  have hl: "rq_headers r = header_list pr" using request_ofD(8) [OF r] .
  have rr: "render r = ?l @ ?h" by (simp add: render_def hl)
  have ll: "length ?l = length (render_line r) + 2" by simp
  from rr len have le: "length ?l + length ?h \<le> len" by simp
  then have "length ?l \<le> length m" using len by simp
  then have mc: "memcpy m 0 ?l = Some (?l @ drop (length ?l) m)" by (simp add: memcpy_def)
  let ?m1 = "?l @ drop (length ?l) m"
  have off: "length ?l + (len - length ?l) \<le> length ?m1" using le len by simp
  have nlt: "\<not> len - length ?l < length ?h" using le by linarith
  from printHeaders_spec [OF wf b fit off] nlt
  have "ParsedHeader_printHeaders pr ?m1 (length ?l) (len - length ?l)
      = map_option (\<lambda>m'. (m', 0)) (memcpy ?m1 (length ?l) ?h)" by (simp only: if_False)
  moreover have "memcpy ?m1 (length ?l) ?h = Some (render r @ drop (length (render r)) m)"
    using le len by (simp add: memcpy_def rr add.commute add.left_commute)
  ultimately show ?thesis
    using printRequestLine_spec [OF r b, of m len] mc le b
    by (simp add: ParsedRequest_unparse_def ll)
qed

end
