(* ===== verification/Request_Parse.thy ===== *)
theory Request_Parse
  imports Request_Print
begin

text \<open>
  \<open>ParsedRequest_parse\<close> of \<^verbatim>\<open>proxy_parse.c\<close> at the level of the code: the temporary
  copy of the request, the copy of the request line that \<open>strtok_r\<close> cuts up in place, and
  the pointers into both. Below it stand the string-level description of the request line
  that the pointer code is shown to implement, and the description of the header lines.

  \<open>errno\<close> after the call of \<open>strtol\<close> is not determined by the code (it never resets it):
  \<open>einval\<close> says whether it is EINVAL.
\<close>

subsection \<open>Operations\<close>

definition MIN_REQ_LEN :: int where
  "MIN_REQ_LEN = 4"

definition MAX_REQ_LEN :: int where
  "MAX_REQ_LEN = 65535"

fun ptr :: "nat option \<Rightarrow> cptr" where
  "ptr None = Null"
| "ptr (Some p) = InBuf p"

text \<open>\<open>strtol(s, NULL, 10)\<close>: white space, a sign, digits; saturating at the range of \<open>long\<close>.\<close>

definition isspace :: "char \<Rightarrow> bool" where
  "isspace c = (c = CHR '' '' \<or> (9 \<le> (of_char c :: nat) \<and> (of_char c :: nat) \<le> 13))"

definition isdigit :: "char \<Rightarrow> bool" where
  "isdigit c = (48 \<le> (of_char c :: nat) \<and> (of_char c :: nat) \<le> 57)"

definition strtol10 :: "string \<Rightarrow> int" where
  "strtol10 s =
     (let t = dropWhile isspace s;
          neg = (take 1 t = ''-'');
          u = (if take 1 t = ''-'' \<or> take 1 t = ''+'' then drop 1 t else t);
          n = foldl (\<lambda>a c. 10 * a + (of_char c - 48)) (0 :: int) (takeWhile isdigit u)
      in max (-9223372036854775808) (min 9223372036854775807 (if neg then - n else n)))"

text \<open>The early returns: free the copy of the request line (and the path), return -1.\<close>

definition parse_fail :: "ParsedRequest \<Rightarrow> ParsedRequest \<times> int" where
  "parse_fail pr = (pr\<lparr>pr_buf := None\<rparr>, -1)"

definition parse_fail_path :: "ParsedRequest \<Rightarrow> ParsedRequest \<times> int" where
  "parse_fail_path pr = (pr\<lparr>pr_buf := None, pr_path := Null\<rparr>, -1)"

text \<open>The last part: the host string is split at the colon, and the port is checked.\<close>

definition parse_host_port :: "bool \<Rightarrow> ParsedRequest \<Rightarrow> nat \<Rightarrow> (ParsedRequest \<times> int) option" where
  "parse_host_port einval pr hop = do {
     m \<leftarrow> pr_buf pr;
     (m, ho, sv) \<leftarrow> strtok_r m hop '':'';
     (m, po, sv) \<leftarrow> strtok_r m sv ''/'';
     let pr = pr\<lparr>pr_buf := Some m, pr_host := ptr ho, pr_port := ptr po\<rparr>;
     if ho = None then Some (parse_fail_path pr) else do {
     pos \<leftarrow> (case po of None \<Rightarrow> Some '''' | Some pop \<Rightarrow> str_at m pop);
     if po \<noteq> None \<and> to_int32 (strtol10 pos) = 0 \<and> einval then Some (parse_fail_path pr)
     else Some (pr, 0) } }"

text \<open>
  From the protocol to the port, on the address at \<open>full_addr\<close>.
\<close>

definition parse_uri :: "bool \<Rightarrow> ParsedRequest \<Rightarrow> nat \<Rightarrow> (ParsedRequest \<times> int) option" where
  "parse_uri einval pr full_addr = do {
     m \<leftarrow> pr_buf pr;
     (m, pc, sv) \<leftarrow> strtok_r m full_addr ''://'';
     let pr = pr\<lparr>pr_buf := Some m, pr_protocol := ptr pc\<rparr>;
     case pc of None \<Rightarrow> Some (parse_fail pr) | Some pcp \<Rightarrow> do {
     pcl \<leftarrow> strlen m pcp;
     let rem = full_addr + pcl + 3;
     abs_uri_len \<leftarrow> strlen m rem;
     (m, ho, sv) \<leftarrow> strtok_r m sv ''/'';
     let pr = pr\<lparr>pr_buf := Some m, pr_host := ptr ho\<rparr>;
     case ho of None \<Rightarrow> Some (parse_fail pr) | Some hop \<Rightarrow> do {
     hol \<leftarrow> strlen m hop;
     if hol = abs_uri_len then Some (parse_fail pr) else do {
     (m, pa, sv) \<leftarrow> strtok_r m sv '' '';
     pas \<leftarrow> (case pa of None \<Rightarrow> Some '''' | Some pap \<Rightarrow> str_at m pap);
     let pr = pr\<lparr>pr_buf := Some m, pr_path := ptr pa\<rparr>;
     if pa \<noteq> None \<and> strncmp_eq pas ''/'' 1 then Some (parse_fail_path pr) else
     parse_host_port einval (pr\<lparr>pr_path := Own (''/'' @ pas)\<rparr>) hop } } } }"

definition parse_request_line :: "bool \<Rightarrow> ParsedRequest \<Rightarrow> (ParsedRequest \<times> int) option" where
  "parse_request_line einval pr = do {
     m \<leftarrow> pr_buf pr;
     (m, me, sv) \<leftarrow> strtok_r m 0 '' '';
     let pr = pr\<lparr>pr_buf := Some m, pr_method := ptr me\<rparr>;
     case me of None \<Rightarrow> Some (parse_fail pr) | Some mep \<Rightarrow> do {
     mes \<leftarrow> str_at m mep;
     if mes \<noteq> ''GET'' then Some (parse_fail pr) else do {
     (m, fa, sv) \<leftarrow> strtok_r m sv '' '';
     let pr = pr\<lparr>pr_buf := Some m\<rparr>;
     case fa of None \<Rightarrow> Some (parse_fail pr) | Some full_addr \<Rightarrow> do {
     fal \<leftarrow> strlen m full_addr;
     let version = full_addr + fal + 1;
     let pr = pr\<lparr>pr_version := InBuf version\<rparr>;
     ves \<leftarrow> str_at m version;
     if \<not> strncmp_eq ves ''HTTP/'' 5 then Some (parse_fail pr)
     else parse_uri einval pr full_addr } } } }"

text \<open>
  One header line at offset \<open>line\<close> of the temporary copy. When no line end follows the
  value, \<open>index2\<close> is NULL and the size computed from it is meaningless.
\<close>

definition ParsedHeader_parse ::
  "(nat \<Rightarrow> bool) \<Rightarrow> ParsedRequest \<Rightarrow> block \<Rightarrow> nat \<Rightarrow> (ParsedRequest \<times> int) option" where
  "ParsedHeader_parse realloc_ok pr tmp line = do {
     s \<leftarrow> str_at tmp line;
     case index s (CHR '':'') of
       None \<Rightarrow> Some (pr, -1)
     | Some i \<Rightarrow> do {
         s2 \<leftarrow> str_at tmp (line + i + 2);
         j \<leftarrow> strstr s2 CRLF;
         (pr, _) \<leftarrow> ParsedHeader_set realloc_ok pr (take i s) (take j s2);
         Some (pr, 0) } }"

function parse_headers ::
  "(nat \<Rightarrow> bool) \<Rightarrow> ParsedRequest \<Rightarrow> block \<Rightarrow> nat \<Rightarrow> (ParsedRequest \<times> int) option" where
  "parse_headers realloc_ok pr tmp cur = do {
     s \<leftarrow> str_at tmp cur;
     if s = [] \<or> take 2 s = CRLF then Some (pr, 0)
     else do {
       (pr, r) \<leftarrow> ParsedHeader_parse realloc_ok pr tmp cur;
       if r \<noteq> 0 then Some (pr, -1)
       else case strstr s CRLF of
         None \<Rightarrow> Some (pr, 0)
       | Some j \<Rightarrow> if length (drop j s) < 2 then Some (pr, 0)
           else parse_headers realloc_ok pr tmp (cur + j + 2) } }"
  by pat_completeness auto
termination
  by (relation "measure (\<lambda>(_, _, tmp, cur). length tmp - cur)") (auto dest: str_at_bound)

declare parse_headers.simps [simp del]

definition ParsedRequest_parse ::
  "bool \<Rightarrow> (nat \<Rightarrow> bool) \<Rightarrow> ParsedRequest \<Rightarrow> block \<Rightarrow> int \<Rightarrow> (ParsedRequest \<times> int) option" where
  "ParsedRequest_parse einval realloc_ok pr b buflen =
    (if pr_buf pr \<noteq> None then Some (pr, -1)
     else if buflen < MIN_REQ_LEN \<or> buflen > MAX_REQ_LEN then Some (pr, -1)
     else if length b < nat buflen then None
     else do {
       let tmp = take (nat buflen) b @ [NUL];
       s \<leftarrow> str_at tmp 0;
       if strstr s (CRLF @ CRLF) = None then Some (pr, -1)
       else do {
         i \<leftarrow> strstr s CRLF;
         (pr, r) \<leftarrow> parse_request_line einval
           (pr\<lparr>pr_buf := Some (take i tmp @ [NUL]), pr_buflen := i + 1\<rparr>);
         if r < 0 then Some (pr, -1)
         else parse_headers realloc_ok pr tmp (i + 2) } })"

text \<open>
  The path is freed too: it must be NULL or a block of its own, \<open>free\<close> of a pointer into
  the request line being undefined.
\<close>

definition ParsedRequest_destroy :: "ParsedRequest \<Rightarrow> ParsedRequest option" where
  "ParsedRequest_destroy pr = (case pr_path pr of InBuf _ \<Rightarrow> None
     | _ \<Rightarrow> (let pr = pr\<lparr>pr_buf := None, pr_path := Null\<rparr>
            in if pr_headerslen pr > 0 then ParsedHeader_destroy pr else Some pr))"

subsection \<open>The request line as a grammar on strings\<close>

text \<open>
  \<open>None\<close>: the parser reads outside its buffer. \<open>Some None\<close>: it rejects the line.
  \<open>Some (Some r)\<close>: it accepts the line as \<open>r\<close> (with no headers yet).
\<close>

definition skip :: "string \<Rightarrow> string \<Rightarrow> string" where
  "skip ds s = dropWhile (\<lambda>c. c \<in> set ds) s"

definition token :: "string \<Rightarrow> string \<Rightarrow> string" where
  "token ds s = takeWhile (\<lambda>c. c \<notin> set ds) (skip ds s)"

definition remainder :: "string \<Rightarrow> string \<Rightarrow> string" where
  "remainder ds s = dropWhile (\<lambda>c. c \<notin> set ds) (skip ds s)"

definition after :: "string \<Rightarrow> string \<Rightarrow> string" where
  "after ds s = drop 1 (remainder ds s)"

text \<open>
  \<open>leading\<close> are the delimiters that are skipped; \<open>chopped\<close> is what a call of \<open>strtok_r\<close> has
  behind it: the delimiters, the token, and the NUL it wrote over the next delimiter, if any.
\<close>

definition leading :: "string \<Rightarrow> string \<Rightarrow> string" where
  "leading ds s = takeWhile (\<lambda>c. c \<in> set ds) s"

definition chopped :: "string \<Rightarrow> string \<Rightarrow> string" where
  "chopped ds s = leading ds s @ token ds s @ (if remainder ds s = [] then [] else [NUL])"

text \<open>
  The length that the code compares with the host's: it is measured three characters and
  the protocol's length after the start of the address, whatever stands there once the
  first delimiter has been overwritten.
\<close>

definition rem_len :: "string \<Rightarrow> string \<Rightarrow> nat" where
  "rem_len fa version = length (takeWhile (\<lambda>c. c \<noteq> NUL)
     (drop (length (token ''://'' fa) + 3) (chopped ''://'' fa @ after ''://'' fa @ NUL # version @ [NUL])))"

definition spec_uri :: "bool \<Rightarrow> string \<Rightarrow> string \<Rightarrow> request option" where
  "spec_uri einval fa version =
     (let pc = token ''://'' fa; f2 = after ''://'' fa;
          hp = token ''/'' f2; rest = after ''/'' f2;
          ho = token '':'' hp; po = after '':'' hp
      in if pc = [] then None
         else if hp = [] then None
         else if length hp = rem_len fa version then None
         else if take 1 rest = ''/'' then None
         else if ho = [] then None
         else if po \<noteq> [] \<and> to_int32 (strtol10 po) = 0 \<and> einval then None
         else Some \<lparr>rq_method = ''GET'', rq_protocol = pc, rq_host = ho,
           rq_port = (if po = [] then None else Some po), rq_path = ''/'' @ rest,
           rq_version = version, rq_headers = []\<rparr>)"

definition spec_line :: "bool \<Rightarrow> string \<Rightarrow> request option option" where
  "spec_line einval l =
     (let l2 = after '' '' l; fa = token '' '' l2
      in if token '' '' l \<noteq> ''GET'' then Some None
         else if fa = [] then Some None
         else if remainder '' '' l2 = [] then None
         else if \<not> prefix ''HTTP/'' (after '' '' l2) then Some None
         else Some (spec_uri einval fa (after '' '' l2)))"

subsection \<open>The pointer code implements the grammar\<close>

lemma strlen_append: "p = length pre \<Longrightarrow> NUL \<notin> set s \<Longrightarrow> strlen (pre @ s @ NUL # post) p = Some (length s)"
  by (simp add: strlen_def str_at_append)

lemma strlen_suffix:
  assumes "j < length y" "last y = NUL"
  shows "strlen (pre @ y) (length pre + j) = Some (length (takeWhile (\<lambda>c. c \<noteq> NUL) (drop j y)))"
proof -
  from assms have "last (drop j y) = NUL" "drop j y \<noteq> []" by (auto simp: last_drop)
  then have "NUL \<in> set (drop j y)" using last_in_set by metis
  then show ?thesis by (simp add: strlen_def str_at_def cstr_takeWhile)
qed

lemma token_split: "leading ds s @ token ds s @ remainder ds s = s"
  by (simp add: leading_def token_def remainder_def skip_def)

lemma token_Nil_remainder: "token ds s = [] \<Longrightarrow> remainder ds s = []"
proof -
  assume a: "token ds s = []"
  have "skip ds s = []"
  proof (rule ccontr)
    assume ne: "skip ds s \<noteq> []"
    then have "hd (skip ds s) \<notin> set ds" unfolding skip_def by (rule hd_dropWhile)
    with a ne show False by (cases "skip ds s") (auto simp: token_def)
  qed
  then show ?thesis by (simp add: remainder_def)
qed

lemma set_after: "set (after ds s) \<subseteq> set s"
  unfolding after_def remainder_def skip_def by (meson dropWhile_subset order.trans set_drop_subset)

lemma set_token: "set (token ds s) \<subseteq> set s"
  unfolding token_def skip_def by (meson dropWhile_subset takeWhile_subset order.trans)

lemma token_delims: "set (token ds s) \<inter> set ds = {}"
  unfolding token_def by (auto dest: set_takeWhileD)

lemma nul_token: "NUL \<notin> set s \<Longrightarrow> NUL \<notin> set (token ds s)"
  using set_token by blast

lemma nul_after: "NUL \<notin> set s \<Longrightarrow> NUL \<notin> set (after ds s)"
  using set_after by blast

lemma after_Nil: "remainder ds s = [] \<Longrightarrow> after ds s = []"
  by (simp add: after_def)

lemma length_chopped: "length (chopped ds s) + length (after ds s) = length s"
proof -
  have "length s = length (leading ds s) + length (token ds s) + length (remainder ds s)"
    by (metis token_split length_append add.assoc)
  then show ?thesis by (cases "remainder ds s") (simp_all add: chopped_def after_def)
qed

lemma strtok_found:
  assumes "NUL \<notin> set s" "p = length pre" "token ds s \<noteq> []"
  shows "strtok_r (pre @ s @ NUL # post) p ds =
    Some (pre @ chopped ds s @ after ds s @ NUL # post, Some (p + length (leading ds s)),
      length (pre @ chopped ds s))"
proof -
  note eq = strtok_r_string [OF assms(1,2), of post ds, folded skip_def, folded token_def
      remainder_def leading_def]
  show ?thesis
  proof (cases "remainder ds s")
    case Nil
    then have "leading ds s @ token ds s = s" using token_split [of ds s] by simp
    with Nil have "chopped ds s = s" "after ds s = []" by (simp_all add: chopped_def after_def)
    with Nil assms(2,3) show ?thesis unfolding eq by simp
  next
    case (Cons d r)
    with assms(2,3) show ?thesis unfolding eq by (simp add: chopped_def after_def)
  qed
qed

lemma strtok_missing:
  assumes "NUL \<notin> set s" "p = length pre" "token ds s = []"
  shows "strtok_r (pre @ s @ NUL # post) p ds = Some (pre @ s @ NUL # post, None, p + length s)"
  using strtok_r_string [OF assms(1,2), of post ds, folded skip_def, folded token_def
      remainder_def leading_def] assms(3) by simp

text \<open>After the token stands a NUL, and the block still ends as it did.\<close>

lemma chopped_block:
  "\<exists>u. chopped ds s @ after ds s @ NUL # post = leading ds s @ token ds s @ u @ NUL # post \<and>
     (u = [] \<or> u = NUL # after ds s)"
proof (cases "remainder ds s = []")
  case True
  then show ?thesis by (intro exI [of _ "[]"]) (simp add: chopped_def after_def)
next
  case False
  then show ?thesis by (intro exI [of _ "NUL # after ds s"]) (simp add: chopped_def)
qed

text \<open>What the token pointer reads, in the block the call leaves.\<close>

lemma str_at_token:
  assumes "NUL \<notin> set s" "p = length pre + length (leading ds s)"
  shows "str_at (pre @ chopped ds s @ after ds s @ NUL # post) p = Some (token ds s)"
proof -
  from chopped_block obtain u where u: "chopped ds s @ after ds s @ NUL # post
      = leading ds s @ token ds s @ u @ NUL # post" and "u = [] \<or> u = NUL # after ds s"
    by metis
  then obtain w where "u @ NUL # post = NUL # w" by auto
  with u have "pre @ chopped ds s @ after ds s @ NUL # post
      = (pre @ leading ds s) @ token ds s @ NUL # w" by simp
  then show ?thesis
    using assms str_at_append [of p "pre @ leading ds s"] nul_token by simp
qed

text \<open>A string without delimiters is its own token, and nothing follows it.\<close>

lemma token_none:
  assumes "set s \<inter> set ds = {}"
  shows "token ds s = s" "leading ds s = []" "remainder ds s = []" "after ds s = []"
proof -
  have l: "leading ds s = []" using assms by (cases s) (auto simp: leading_def)
  moreover have sk: "skip ds s = s" using assms by (cases s) (auto simp: skip_def)
  moreover have r: "remainder ds s = []" using assms by (auto simp: remainder_def sk)
  ultimately show "token ds s = s" "leading ds s = []" "remainder ds s = []" "after ds s = []"
    using token_split [of ds s] by (simp_all add: after_def)
qed

lemma strtok_whole:
  assumes "NUL \<notin> set s" "p = length pre" "set s \<inter> set ds = {}"
  shows "strtok_r (pre @ s @ NUL # post) p ds =
    Some (pre @ s @ NUL # post, if s = [] then None else Some p, p + length s)"
  using token_none [OF assms(3)] strtok_found [OF assms(1,2), of ds post]
    strtok_missing [OF assms(1,2), of ds post] assms(2) by (simp add: chopped_def)

text \<open>
  The address: on the block \<open>pre @ fa @ NUL # ver @ [NUL]\<close> with \<open>fa\<close> the address and
  \<open>ver\<close> the version, the code follows \<open>spec_uri\<close>, and a successful run leaves \<open>pre\<close> and
  the version in place.
\<close>

definition uri_result ::
  "ParsedRequest \<Rightarrow> string \<Rightarrow> string \<Rightarrow> string \<Rightarrow> request option \<Rightarrow> (ParsedRequest \<times> int) option \<Rightarrow> bool" where
  "uri_result pr pre fa ver spec res = (case spec of
      None \<Rightarrow> (\<exists>pr'. res = Some (pr', -1) \<and> pr_buf pr' = None)
    | Some r \<Rightarrow> (\<exists>x pcp hop po. let pr' = pr\<lparr>pr_buf := Some (pre @ x @ NUL # ver @ [NUL]),
            pr_protocol := InBuf pcp, pr_host := InBuf hop, pr_path := Own (rq_path r),
            pr_port := po\<rparr>
        in res = Some (pr', 0) \<and> length x = length fa \<and>
           deref pr' (InBuf pcp) = Some (rq_protocol r) \<and>
           deref pr' (InBuf hop) = Some (rq_host r) \<and>
           (case rq_port r of None \<Rightarrow> po = Null
            | Some p \<Rightarrow> po \<noteq> Null \<and> deref pr' po = Some p)))"

lemma parse_uri_no_protocol:
  assumes "pr_buf pr = Some (pre @ fa @ NUL # post)" "NUL \<notin> set fa" "token ''://'' fa = []"
  shows "\<exists>pr'. parse_uri einval pr (length pre) = Some (pr', -1) \<and> pr_buf pr' = None"
  using assms strtok_missing [OF assms(2) refl assms(3)] by (simp add: parse_uri_def parse_fail_def)

lemma rem_len_read:
  assumes "NUL \<notin> set fa" "5 \<le> length ver"
  shows "strlen (pre @ chopped ''://'' fa @ after ''://'' fa @ NUL # ver @ [NUL])
      (length pre + length (token ''://'' fa) + 3) = Some (rem_len fa ver)"
proof -
  let ?y = "chopped ''://'' fa @ after ''://'' fa @ NUL # ver @ [NUL]"
  have "length (token ''://'' fa) \<le> length fa"
    using arg_cong [OF token_split [of "''://''" fa], of length] by simp
  then have "length (token ''://'' fa) + 3 < length ?y"
    using length_chopped [of "''://''" fa] assms(2) by simp
  moreover have "last ?y = NUL" by simp
  ultimately show ?thesis
    using strlen_suffix [of "length (token ''://'' fa) + 3" ?y pre]
    by (simp add: rem_len_def add.assoc)
qed

lemma parse_host_port_spec:
  assumes buf: "pr_buf pr = Some (pre @ hp @ NUL # post)" and nul: "NUL \<notin> set hp"
    and sl: "CHR ''/'' \<notin> set hp"
  shows "parse_host_port einval pr (length pre) =
    (let ho = token '':'' hp; po = after '':'' hp;
         m = pre @ chopped '':'' hp @ po @ NUL # post;
         hop = InBuf (length pre + length (leading '':'' hp));
         pop = (if po = [] then Null else InBuf (length pre + length (chopped '':'' hp)))
     in if ho = [] then Some (parse_fail_path
          (pr\<lparr>pr_buf := Some (pre @ hp @ NUL # post), pr_host := Null, pr_port := Null\<rparr>))
        else if po \<noteq> [] \<and> to_int32 (strtol10 po) = 0 \<and> einval
        then Some (parse_fail_path (pr\<lparr>pr_buf := Some m, pr_host := hop, pr_port := pop\<rparr>))
        else Some (pr\<lparr>pr_buf := Some m, pr_host := hop, pr_port := pop\<rparr>, 0))"
proof (cases "token '':'' hp = []")
  case True
  have "strtok_r ((pre @ hp) @ [] @ NUL # post) (length pre + length hp) ''/''
    = Some ((pre @ hp) @ [] @ NUL # post, None, length pre + length hp)"
    by (subst strtok_r_None) simp_all
  with True buf strtok_missing [OF nul refl True, of pre post] show ?thesis
    by (simp add: parse_host_port_def)
next
  case False
  let ?po = "after '':'' hp" and ?pre = "pre @ chopped '':'' hp"
  have np: "NUL \<notin> set ?po" by (rule nul_after [OF nul])
  have "set ?po \<inter> set ''/'' = {}" using set_after [of "'':''" hp] sl by auto
  from strtok_whole [OF np, of "length ?pre" ?pre "''/''" post, OF refl this]
  have s2: "strtok_r (pre @ chopped '':'' hp @ ?po @ NUL # post)
      (length pre + length (chopped '':'' hp)) ''/'' =
    Some (pre @ chopped '':'' hp @ ?po @ NUL # post,
      if ?po = [] then None else Some (length pre + length (chopped '':'' hp)),
      length pre + length (chopped '':'' hp) + length ?po)" by simp
  have rd: "str_at (pre @ chopped '':'' hp @ ?po @ NUL # post)
      (length pre + length (chopped '':'' hp)) = Some ?po"
    using str_at_append [of "length ?pre" ?pre ?po post] np by simp
  show ?thesis
    using buf False strtok_found [OF nul refl False, of pre post] s2 rd
    by (simp add: parse_host_port_def Let_def)
qed

text \<open>
  The whole address. The blocks of the successive calls: \<open>b1\<close> after the protocol was cut
  off, \<open>b2\<close> after the host was.
\<close>

lemma parse_uri_no_host:
  assumes buf: "pr_buf pr = Some (pre @ fa @ NUL # ver @ [NUL])" and nul: "NUL \<notin> set fa" and ver: "5 \<le> length ver"
    and pc: "token ''://'' fa \<noteq> []" and hp: "token ''/'' (after ''://'' fa) = []"
  shows "\<exists>pr'. parse_uri einval pr (length pre) = Some (pr', -1) \<and> pr_buf pr' = None"
proof -
  let ?f2 = "after ''://'' fa" and ?post = "ver @ [NUL]" and ?pre1 = "pre @ chopped ''://'' fa"
  have n2: "NUL \<notin> set ?f2" by (rule nul_after [OF nul])
  have "strtok_r (pre @ chopped ''://'' fa @ ?f2 @ NUL # ?post)
      (length pre + length (chopped ''://'' fa)) ''/''
    = Some (pre @ chopped ''://'' fa @ ?f2 @ NUL # ?post, None,
        length pre + length (chopped ''://'' fa) + length ?f2)"
    using strtok_missing [OF n2 _ hp, of "length ?pre1" ?pre1 ?post] by simp
  moreover have "strlen (pre @ chopped ''://'' fa @ ?f2 @ NUL # ?post)
      (length pre + length (leading ''://'' fa)) = Some (length (token ''://'' fa))"
    using str_at_token [OF nul refl, of pre "''://''" ?post] by (simp add: strlen_def)
  ultimately show ?thesis
    using strtok_found [OF nul refl pc, of pre ?post] rem_len_read [OF nul ver, of pre] buf
    by (simp add: parse_uri_def parse_fail_def)
qed

text \<open>The request when the address has been cut into protocol, host with port, and path.\<close>

definition cut_uri :: "ParsedRequest \<Rightarrow> string \<Rightarrow> string \<Rightarrow> string \<Rightarrow> ParsedRequest" where
  "cut_uri pr pre fa ver = (let f2 = after ''://'' fa in
     pr\<lparr>pr_protocol := InBuf (length pre + length (leading ''://'' fa)),
        pr_host := InBuf (length (pre @ chopped ''://'' fa @ leading ''/'' f2)),
        pr_buf := Some (pre @ chopped ''://'' fa @ chopped ''/'' f2 @ after ''/'' f2 @ NUL # ver @ [NUL])\<rparr>)"

lemma parse_uri_cut:
  assumes buf: "pr_buf pr = Some (pre @ fa @ NUL # ver @ [NUL])"
    and nul: "NUL \<notin> set fa" and sp: "CHR '' '' \<notin> set fa" and ver: "5 \<le> length ver"
    and pc: "token ''://'' fa \<noteq> []" and hp: "token ''/'' (after ''://'' fa) \<noteq> []"
  defines "rest \<equiv> after ''/'' (after ''://'' fa)"
  shows "parse_uri einval pr (length pre) =
    (if length (token ''/'' (after ''://'' fa)) = rem_len fa ver then Some (parse_fail (cut_uri pr pre fa ver))
     else let pr3 = (cut_uri pr pre fa ver)\<lparr>pr_path := Own (''/'' @ rest)\<rparr> in
       if take 1 rest = ''/'' then Some (parse_fail_path pr3)
       else parse_host_port einval pr3 (length (pre @ chopped ''://'' fa @ leading ''/'' (after ''://'' fa))))"
proof -
  let ?f2 = "after ''://'' fa" and ?pre1 = "pre @ chopped ''://'' fa" and ?post = "ver @ [NUL]"
  let ?hp = "token ''/'' ?f2" and ?rest = "after ''/'' ?f2" and ?pre2 = "?pre1 @ chopped ''/'' ?f2"
  note s1 = strtok_found [OF nul refl pc, of pre ?post]
  have pcl: "strlen (pre @ chopped ''://'' fa @ ?f2 @ NUL # ?post)
      (length pre + length (leading ''://'' fa)) = Some (length (token ''://'' fa))"
    using str_at_token [OF nul refl, of pre "''://''" ?post] by (simp add: strlen_def)
  have n2: "NUL \<notin> set ?f2" by (rule nul_after [OF nul])
  have s2: "strtok_r (pre @ chopped ''://'' fa @ ?f2 @ NUL # ?post)
      (length pre + length (chopped ''://'' fa)) ''/'' =
    Some (?pre2 @ ?rest @ NUL # ?post, Some (length ?pre1 + length (leading ''/'' ?f2)), length ?pre2)"
    using strtok_found [OF n2, of "length ?pre1" ?pre1 "''/''" ?post] hp by simp
  have hol: "strlen (?pre2 @ ?rest @ NUL # ?post) (length ?pre1 + length (leading ''/'' ?f2)) = Some (length ?hp)"
    using str_at_token [OF n2 refl, of ?pre1 "''/''" ?post] by (simp add: strlen_def)
  have n3: "NUL \<notin> set ?rest" by (rule nul_after [OF n2])
  have "CHR '' '' \<notin> set ?rest" using set_after [of "''/''" ?f2] set_after [of "''://''" fa] sp by blast
  then have "set ?rest \<inter> set '' '' = {}" by auto
  note s3 = strtok_whole [OF n3 refl this, of ?pre2 ?post]
  have rd: "str_at (?pre2 @ ?rest @ NUL # ?post) (length ?pre2) = Some ?rest"
    using str_at_append [OF refl n3] by blast
  have slash: "(?rest \<noteq> [] \<and> strncmp_eq ?rest ''/'' 1) \<longleftrightarrow> take 1 ?rest = ''/''"
    by (cases ?rest) (auto simp: strncmp_eq_def)
  show ?thesis
    using buf s1 pcl rem_len_read [OF nul ver, of pre] s2 hol s3 rd slash pc hp unfolding rest_def cut_uri_def Let_def
    by (cases "?rest = []") (simp_all add: parse_uri_def parse_fail_def parse_fail_path_def Let_def add.assoc)
qed

text \<open>The block after the host was split at the colon, with what the pointers into it read.\<close>

lemma host_block:
  fixes pre ver :: string
  assumes nul: "NUL \<notin> set fa" and hp: "token ''/'' (after ''://'' fa) \<noteq> []"
  defines "f2 \<equiv> after ''://'' fa"
  defines "h \<equiv> token ''/'' f2" and "pre3 \<equiv> pre @ chopped ''://'' fa @ leading ''/'' f2"
  shows "\<exists>w x. pr_buf (cut_uri pr pre fa ver) = Some (pre3 @ h @ NUL # w) \<and>
    pre3 @ chopped '':'' h @ after '':'' h @ NUL # w = pre @ x @ NUL # ver @ [NUL] \<and> length x = length fa \<and>
    str_at (pre @ x @ NUL # ver @ [NUL]) (length pre + length (leading ''://'' fa)) = Some (token ''://'' fa) \<and>
    str_at (pre @ x @ NUL # ver @ [NUL]) (length pre3 + length (leading '':'' h)) = Some (token '':'' h) \<and>
    str_at (pre @ x @ NUL # ver @ [NUL]) (length pre3 + length (chopped '':'' h)) = Some (after '':'' h)"
proof -
  let ?post = "ver @ [NUL]"
  have nh: "NUL \<notin> set h" unfolding h_def f2_def by (intro nul_token nul_after nul)
  obtain u where cb: "chopped ''/'' f2 @ after ''/'' f2 @ NUL # ?post = leading ''/'' f2 @ h @ u @ NUL # ?post"
    and u: "u = [] \<or> u = NUL # after ''/'' f2" using chopped_block unfolding h_def by blast
  then obtain w where w: "u @ NUL # ?post = NUL # w" by auto
  let ?x = "chopped ''://'' fa @ leading ''/'' f2 @ chopped '':'' h @ after '':'' h @ u"
  have m: "pre3 @ chopped '':'' h @ after '':'' h @ NUL # w = pre @ ?x @ NUL # ?post" using w by (simp add: pre3_def)
  have "length ?x = length fa"
    using length_chopped [of "''://''" fa] length_chopped [of "'':''" h]
      length_chopped [of "''/''" f2] arg_cong [OF cb, of length] by (simp add: f2_def)
  moreover have "pr_buf (cut_uri pr pre fa ver) = Some (pre3 @ h @ NUL # w)"
    using cb w by (simp add: cut_uri_def Let_def f2_def pre3_def)
  moreover have "remainder ''://'' fa \<noteq> []" using hp after_Nil [of "''://''" fa] by (auto simp: token_def skip_def)
  then have "str_at (pre @ ?x @ NUL # ?post) (length pre + length (leading ''://'' fa)) = Some (token ''://'' fa)"
    using str_at_append [of _ "pre @ leading ''://'' fa" "token ''://'' fa"] nul_token [OF nul]
    by (simp add: chopped_def)
  moreover have "str_at (pre @ ?x @ NUL # ?post) (length pre3 + length (leading '':'' h)) = Some (token '':'' h)"
    using str_at_token [OF nh refl, of pre3 "'':''" w] by (simp only: m)
  moreover have "str_at (pre @ ?x @ NUL # ?post) (length pre3 + length (chopped '':'' h)) = Some (after '':'' h)"
    using str_at_append [of "length pre3 + length (chopped '':'' h)" "pre3 @ chopped '':'' h" "after '':'' h" w]
      nul_after [OF nh] m by simp
  ultimately show ?thesis using m by blast
qed

lemma parse_uri_spec:
  assumes buf: "pr_buf pr = Some (pre @ fa @ NUL # ver @ [NUL])"
    and nul: "NUL \<notin> set fa" and sp: "CHR '' '' \<notin> set fa" and ver: "5 \<le> length ver"
  shows "uri_result pr pre fa ver (spec_uri einval fa ver) (parse_uri einval pr (length pre))"
proof (cases "token ''://'' fa = [] \<or> token ''/'' (after ''://'' fa) = []")
  case True
  then have "spec_uri einval fa ver = None" by (auto simp: spec_uri_def Let_def)
  moreover have "\<exists>pr'. parse_uri einval pr (length pre) = Some (pr', -1) \<and> pr_buf pr' = None"
    using parse_uri_no_protocol [OF buf nul] parse_uri_no_host [OF buf nul ver] True by blast
  ultimately show ?thesis by (simp add: uri_result_def)
next
  case False
  then have pc: "token ''://'' fa \<noteq> []" and hp: "token ''/'' (after ''://'' fa) \<noteq> []" by simp_all
  let ?f2 = "after ''://'' fa"
  let ?h = "token ''/'' ?f2" and ?rest = "after ''/'' ?f2" and ?hop = "length (pre @ chopped ''://'' fa @ leading ''/'' ?f2)"
  let ?ho = "token '':'' ?h" and ?po = "after '':'' ?h"
  note code = parse_uri_cut [OF buf nul sp ver pc hp, unfolded Let_def, of einval]
  from host_block [OF nul hp, of pr pre ver] obtain w x where
    buf3: "pr_buf (cut_uri pr pre fa ver) = Some ((pre @ chopped ''://'' fa @ leading ''/'' ?f2) @ ?h @ NUL # w)" and
    m: "(pre @ chopped ''://'' fa @ leading ''/'' ?f2) @ chopped '':'' ?h @ ?po @ NUL # w = pre @ x @ NUL # ver @ [NUL]" and
    len: "length x = length fa" and
    d: "str_at (pre @ x @ NUL # ver @ [NUL]) (length pre + length (leading ''://'' fa)) = Some (token ''://'' fa)"
      "str_at (pre @ x @ NUL # ver @ [NUL]) (?hop + length (leading '':'' ?h)) = Some ?ho"
      "str_at (pre @ x @ NUL # ver @ [NUL]) (?hop + length (chopped '':'' ?h)) = Some ?po" by blast
  have nh: "NUL \<notin> set ?h" by (intro nul_token nul_after nul)
  have sl: "CHR ''/'' \<notin> set ?h" using token_delims [of "''/''" ?f2] by auto
  have "pr_buf ((cut_uri pr pre fa ver)\<lparr>pr_path := Own (''/'' @ ?rest)\<rparr>) =
    Some ((pre @ chopped ''://'' fa @ leading ''/'' ?f2) @ ?h @ NUL # w)" using buf3 by simp
  note hps = parse_host_port_spec [OF this nh sl, of einval, unfolded Let_def, unfolded m]
  show ?thesis
  proof (cases "spec_uri einval fa ver")
    case None
    then show ?thesis using pc hp unfolding uri_result_def code hps Let_def
      by (auto simp: spec_uri_def Let_def parse_fail_def parse_fail_path_def split: if_splits)
  next
    case (Some r)
    then have ok: "length ?h \<noteq> rem_len fa ver" "take 1 ?rest \<noteq> ''/''" "?ho \<noteq> []"
      "\<not> (?po \<noteq> [] \<and> to_int32 (strtol10 ?po) = 0 \<and> einval)"
      and r: "rq_protocol r = token ''://'' fa" "rq_host r = ?ho" "rq_path r = ''/'' @ ?rest"
        "rq_port r = (if ?po = [] then None else Some ?po)"
      using pc hp by (auto simp: spec_uri_def Let_def split: if_splits)
    let ?pop = "if ?po = [] then Null else InBuf (?hop + length (chopped '':'' ?h))"
    let ?pr' = "pr\<lparr>pr_buf := Some (pre @ x @ NUL # ver @ [NUL]),
      pr_protocol := InBuf (length pre + length (leading ''://'' fa)),
      pr_host := InBuf (?hop + length (leading '':'' ?h)), pr_path := Own (rq_path r), pr_port := ?pop\<rparr>"
    have "parse_uri einval pr (length pre) = Some (?pr', 0)"
      using ok by (simp only: code hps Let_def if_False) (simp add: cut_uri_def Let_def r)
    moreover have "case rq_port r of None \<Rightarrow> ?pop = Null | Some p \<Rightarrow> ?pop \<noteq> Null \<and> deref ?pr' ?pop = Some p"
      using d(3) r by simp
    moreover have "deref ?pr' (InBuf (length pre + length (leading ''://'' fa))) = Some (rq_protocol r)"
      "deref ?pr' (InBuf (?hop + length (leading '':'' ?h))) = Some (rq_host r)" using d(1,2) r by simp_all
    ultimately show ?thesis unfolding uri_result_def Some Let_def option.case using len by blast
  qed
qed

lemma prefix_length5: "prefix ''HTTP/'' v \<Longrightarrow> 5 \<le> length v"
  using prefix_length_le by fastforce

lemma strncmp_HTTP: "strncmp_eq v ''HTTP/'' 5 \<longleftrightarrow> prefix ''HTTP/'' v"
proof
  assume "strncmp_eq v ''HTTP/'' 5"
  then have "take 5 v = ''HTTP/''" by (simp add: strncmp_eq_def)
  then show "prefix ''HTTP/'' v" by (metis take_is_prefix)
next
  assume "prefix ''HTTP/'' v"
  then show "strncmp_eq v ''HTTP/'' 5" by (auto simp: strncmp_eq_def prefix_def)
qed

text \<open>The whole request line, on a fresh copy \<open>l\<close> of it.\<close>

definition line_result ::
  "ParsedRequest \<Rightarrow> request option option \<Rightarrow> (ParsedRequest \<times> int) option \<Rightarrow> bool" where
  "line_result pr spec res = (case spec of
      None \<Rightarrow> res = None
    | Some None \<Rightarrow> (\<exists>pr'. res = Some (pr', -1) \<and> pr_buf pr' = None)
    | Some (Some r) \<Rightarrow> (\<exists>pr'. res = Some (pr', 0) \<and> pr_buf pr' \<noteq> None \<and>
        request_of pr' = Some (r\<lparr>rq_headers := header_list pr\<rparr>) \<and>
        pr_headers pr' = pr_headers pr \<and> pr_headersused pr' = pr_headersused pr \<and>
        pr_headerslen pr' = pr_headerslen pr))"

lemma uri_to_line:
  assumes res: "uri_result pr pre fa ver (Some r) res"
    and pre: "pre = a @ ''GET'' @ NUL # b" "pr_method pr = InBuf (length a)"
    and ver: "pr_version pr = InBuf (length pre + length fa + 1)" "NUL \<notin> set ver"
    and r: "rq_method r = ''GET''" "rq_version r = ver"
  shows "\<exists>pr'. res = Some (pr', 0) \<and> pr_buf pr' \<noteq> None \<and>
        request_of pr' = Some (r\<lparr>rq_headers := header_list pr\<rparr>) \<and>
        pr_headers pr' = pr_headers pr \<and> pr_headersused pr' = pr_headersused pr \<and>
        pr_headerslen pr' = pr_headerslen pr"
proof -
  from res obtain x pcp hop po where
    d: "(let pr' = pr\<lparr>pr_buf := Some (pre @ x @ NUL # ver @ [NUL]),
            pr_protocol := InBuf pcp, pr_host := InBuf hop, pr_path := Own (rq_path r),
            pr_port := po\<rparr>
        in res = Some (pr', 0) \<and> length x = length fa \<and>
           deref pr' (InBuf pcp) = Some (rq_protocol r) \<and>
           deref pr' (InBuf hop) = Some (rq_host r) \<and>
           (case rq_port r of None \<Rightarrow> po = Null
            | Some p \<Rightarrow> po \<noteq> Null \<and> deref pr' po = Some p))"
    unfolding uri_result_def option.case by (elim exE) (rule that)
  let ?pr' = "pr\<lparr>pr_buf := Some (pre @ x @ NUL # ver @ [NUL]), pr_protocol := InBuf pcp,
      pr_host := InBuf hop, pr_path := Own (rq_path r), pr_port := po\<rparr>"
  from d have d1: "res = Some (?pr', 0)" and x: "length x = length fa"
    and d2: "deref ?pr' (InBuf pcp) = Some (rq_protocol r)"
    and d3: "deref ?pr' (InBuf hop) = Some (rq_host r)"
    and d4: "case rq_port r of None \<Rightarrow> po = Null
            | Some p \<Rightarrow> po \<noteq> Null \<and> deref ?pr' po = Some p"
    by (simp_all only: Let_def)
  have me: "str_at (pre @ x @ NUL # ver @ [NUL]) (length a) = Some ''GET''"
    using str_at_append [of "length a" a "''GET''" "b @ x @ NUL # ver @ [NUL]"] by (simp add: pre)
  have ve: "str_at (pre @ x @ NUL # ver @ [NUL]) (length pre + length fa + 1) = Some ver"
    using str_at_append [of "length pre + length fa + 1" "pre @ x @ [NUL]" ver "[]"] x ver by simp
  have hl: "header_list ?pr' = header_list pr" by (simp add: header_list_def)
  have "request_of ?pr' = Some \<lparr>rq_method = ''GET'', rq_protocol = rq_protocol r,
      rq_host = rq_host r, rq_port = rq_port r, rq_path = rq_path r, rq_version = ver,
      rq_headers = header_list pr\<rparr>"
    unfolding request_of_def hl using d2 d3 d4 me ve pre(2) ver(1)
    by (cases "rq_port r") simp_all
  also have "\<dots> = Some (r\<lparr>rq_headers := header_list pr\<rparr>)" using r by (cases r) simp
  finally show ?thesis by (intro exI [of _ ?pr'] conjI) (simp_all add: d1)
qed

lemma spec_uri_fields:
  "spec_uri einval fa ver = Some r \<Longrightarrow> rq_method r = ''GET'' \<and> rq_version r = ver \<and> rq_headers r = []"
  by (auto simp: spec_uri_def Let_def split: if_splits)

lemma line_tokens:
  assumes buf: "pr_buf pr = Some (l @ [NUL])" and nul: "NUL \<notin> set l" and me: "token '' '' l \<noteq> []"
  shows "strtok_r (l @ [NUL]) 0 '' '' = Some (chopped '' '' l @ after '' '' l @ [NUL],
      Some (length (leading '' '' l)), length (chopped '' '' l))"
    "str_at (chopped '' '' l @ after '' '' l @ [NUL]) (length (leading '' '' l)) = Some (token '' '' l)"
  using strtok_found [OF nul, of 0 "[]" "'' ''" "[]"] str_at_token [OF nul, of _ "[]" "'' ''" "[]"] me by simp_all

lemma parse_line_rejects:
  assumes buf: "pr_buf pr = Some (l @ [NUL])" and nul: "NUL \<notin> set l"
    and bad: "token '' '' l \<noteq> ''GET'' \<or> token '' '' (after '' '' l) = []"
  shows "\<exists>pr'. parse_request_line einval pr = Some (pr', -1) \<and> pr_buf pr' = None"
proof (cases "token '' '' l = []")
  case True
  with buf strtok_missing [OF nul, of 0 "[]" "'' ''" "[]"] show ?thesis
    by (simp add: parse_request_line_def parse_fail_def)
next
  case me: False
  note t = line_tokens [OF buf nul me]
  show ?thesis
  proof (cases "token '' '' l = ''GET''")
    case False
    with t buf show ?thesis by (simp add: parse_request_line_def parse_fail_def)
  next
    case True
    with bad have "token '' '' (after '' '' l) = []" by blast
    from strtok_missing [OF nul_after [OF nul] refl this, of "chopped '' '' l" "[]"] t buf True show ?thesis
      by (simp add: parse_request_line_def parse_fail_def)
  qed
qed

text \<open>The request when the line has been cut into method, address and version.\<close>

definition cut_line :: "ParsedRequest \<Rightarrow> string \<Rightarrow> ParsedRequest" where
  "cut_line pr l = (let l2 = after '' '' l in pr\<lparr>pr_method := InBuf (length (leading '' '' l)),
     pr_buf := Some (chopped '' '' l @ chopped '' '' l2 @ after '' '' l2 @ [NUL]),
     pr_version := InBuf (Suc (length (chopped '' '' l @ leading '' '' l2) + length (token '' '' l2)))\<rparr>)"

lemma parse_line_cut:
  assumes buf: "pr_buf pr = Some (l @ [NUL])" and nul: "NUL \<notin> set l"
    and get: "token '' '' l = ''GET''" and fa: "token '' '' (after '' '' l) \<noteq> []"
  defines "l2 \<equiv> after '' '' l"
  defines "fp \<equiv> length (chopped '' '' l @ leading '' '' l2)"
  shows "parse_request_line einval pr = do {
      ves \<leftarrow> str_at (chopped '' '' l @ chopped '' '' l2 @ after '' '' l2 @ [NUL]) (Suc (fp + length (token '' '' l2)));
      if \<not> strncmp_eq ves ''HTTP/'' 5 then Some (parse_fail (cut_line pr l))
      else parse_uri einval (cut_line pr l) fp }"
proof -
  have n2: "NUL \<notin> set l2" unfolding l2_def by (rule nul_after [OF nul])
  have "strtok_r (chopped '' '' l @ l2 @ [NUL]) (length (chopped '' '' l)) '' '' =
      Some (chopped '' '' l @ chopped '' '' l2 @ after '' '' l2 @ [NUL], Some fp,
        length (chopped '' '' l) + length (chopped '' '' l2))"
    using strtok_found [OF n2 refl, of "'' ''" "chopped '' '' l" "[]"] fa by (simp add: fp_def l2_def)
  moreover have "strlen (chopped '' '' l @ chopped '' '' l2 @ after '' '' l2 @ [NUL]) fp = Some (length (token '' '' l2))"
    using str_at_token [OF n2 refl, of "chopped '' '' l" "'' ''" "[]"] by (simp add: strlen_def fp_def)
  ultimately show ?thesis using line_tokens [OF buf nul] buf get unfolding cut_line_def Let_def fp_def l2_def
    by (simp add: parse_request_line_def Let_def cong: if_cong)
qed

text \<open>A GET line whose third token begins with \<^verbatim>\<open>HTTP/\<close>: the URI decides.\<close>

lemma parse_line_http:
  assumes buf: "pr_buf pr = Some (l @ [NUL])" and nul: "NUL \<notin> set l"
    and get: "token '' '' l = ''GET''" and fa: "token '' '' (after '' '' l) \<noteq> []"
    and rem: "remainder '' '' (after '' '' l) \<noteq> []" and http: "prefix ''HTTP/'' (after '' '' (after '' '' l))"
    and pe: "parse_request_line einval pr =
      parse_uri einval (cut_line pr l) (length (chopped '' '' l @ leading '' '' (after '' '' l)))"
  shows "line_result pr (spec_line einval l) (parse_request_line einval pr)"
proof -
  let ?l2 = "after '' '' l"
  let ?fa = "token '' '' ?l2" and ?ver = "after '' '' ?l2" and ?pre = "chopped '' '' l @ leading '' '' ?l2"
  have n2: "NUL \<notin> set ?l2" and nv: "NUL \<notin> set ?ver" by (intro nul_after nul)+
  have buf2: "pr_buf (cut_line pr l) = Some (?pre @ ?fa @ NUL # ?ver @ [NUL])"
    using rem by (simp add: cut_line_def chopped_def Let_def)
  have sf: "CHR '' '' \<notin> set ?fa" using token_delims [of "'' ''" ?l2] by auto
  note us = parse_uri_spec [OF buf2 nul_token [OF n2] sf prefix_length5 [OF http], of einval]
  have sp: "spec_line einval l = Some (spec_uri einval ?fa ?ver)"
    using get fa rem http by (simp add: spec_line_def Let_def)
  show ?thesis
  proof (cases "spec_uri einval ?fa ?ver")
    case None
    then show ?thesis using us unfolding line_result_def sp pe by (simp add: uri_result_def)
  next
    case (Some r)
    have "remainder '' '' l \<noteq> []" using fa after_Nil [of "'' ''" l] by (auto simp: token_def skip_def)
    then have p: "?pre = leading '' '' l @ ''GET'' @ NUL # leading '' '' ?l2" by (simp add: chopped_def get)
    from uri_to_line [OF us [unfolded Some] p] nv spec_uri_fields [OF Some]
    show ?thesis unfolding line_result_def sp pe Some by (simp add: cut_line_def Let_def header_list_def)
  qed
qed

lemma parse_request_line_spec:
  assumes buf: "pr_buf pr = Some (l @ [NUL])" and nul: "NUL \<notin> set l"
  shows "line_result pr (spec_line einval l) (parse_request_line einval pr)"
proof (cases "token '' '' l \<noteq> ''GET'' \<or> token '' '' (after '' '' l) = []")
  case True
  then have "spec_line einval l = Some None" by (auto simp: spec_line_def Let_def)
  with parse_line_rejects [OF buf nul True, of einval] show ?thesis by (simp add: line_result_def)
next
  case False
  let ?l2 = "after '' '' l"
  let ?fa = "token '' '' ?l2" and ?ver = "after '' '' ?l2" and ?pre = "chopped '' '' l @ leading '' '' ?l2"
  let ?m = "chopped '' '' l @ chopped '' '' ?l2 @ ?ver @ [NUL]" and ?v = "Suc (length ?pre + length ?fa)"
  from False have get: "token '' '' l = ''GET''" and fa: "?fa \<noteq> []" by simp_all
  note code = parse_line_cut [OF buf nul get fa, of einval]
  have n2: "NUL \<notin> set ?l2" by (rule nul_after [OF nul])
  show ?thesis
  proof (cases "remainder '' '' ?l2 = []")
    case True
    then have "?m = ?pre @ ?fa @ [NUL]" by (simp add: chopped_def after_Nil)
    then have "length ?m = length (?pre @ ?fa @ [NUL])" by (rule arg_cong)
    then have "length ?m \<le> ?v" by simp
    then have "str_at ?m ?v = None" by (simp only: str_at_def drop_all cstr.simps)
    then show ?thesis using get fa True unfolding code by (simp add: line_result_def spec_line_def)
  next
    case rem: False
    then have m: "?m = ?pre @ ?fa @ NUL # ?ver @ [NUL]" by (simp add: chopped_def)
    have nv: "NUL \<notin> set ?ver" by (rule nul_after [OF n2])
    have ves: "str_at ?m ?v = Some ?ver"
      using str_at_append [of ?v "?pre @ ?fa @ [NUL]" ?ver "[]"] nv m by simp
    show ?thesis
    proof (cases "prefix ''HTTP/'' ?ver")
      case False
      then show ?thesis using get fa rem unfolding code ves
        by (simp add: line_result_def spec_line_def strncmp_HTTP parse_fail_def)
    next
      case http: True
      then have "parse_request_line einval pr = parse_uri einval (cut_line pr l) (length ?pre)"
        unfolding code ves by (simp add: strncmp_HTTP)
      then show ?thesis by (rule parse_line_http [OF buf nul get fa rem http])
    qed
  qed
qed

subsection \<open>Header lines\<close>

definition put_header :: "(string \<times> string) list \<Rightarrow> string \<times> string \<Rightarrow> (string \<times> string) list" where
  "put_header hl kv = filter (\<lambda>(k', v). k' \<noteq> fst kv) hl @ [kv]"

definition header_ok :: "string \<times> string \<Rightarrow> bool" where
  "header_ok kv = (NUL \<notin> set (fst kv) \<and> CR \<notin> set (fst kv) \<and> CHR '':'' \<notin> set (fst kv) \<and>
     NUL \<notin> set (snd kv) \<and> CR \<notin> set (snd kv))"

lemma render_header_ok:
  "header_ok kv \<Longrightarrow> NUL \<notin> set (render_header kv)"
  by (cases kv) (auto simp: header_ok_def)

text \<open>One well-formed line \<open>key: value\<close> is set in the table.\<close>

lemma ParsedHeader_parse_spec:
  assumes wf: "header_wf pr" and ok: "\<forall>n. realloc_ok n" and kv: "header_ok (k, v)"
    and tmp: "str_at tmp cur = Some (render_header (k, v) @ suf)"
  shows "\<exists>pr' hs n u. ParsedHeader_parse realloc_ok pr tmp cur = Some (pr', 0) \<and> header_wf pr' \<and>
    header_list pr' = put_header (header_list pr) (k, v) \<and>
    pr' = pr\<lparr>pr_headers := hs, pr_headerslen := n, pr_headersused := u\<rparr>"
proof -
  let ?s = "k @ '': '' @ v @ CRLF @ suf"
  have i: "index (render_header (k, v) @ suf) (CHR '':'') = Some (length k)"
    using kv index_append [of "CHR '':''" k "CHR '' '' # v @ CRLF @ suf"]
    by (simp add: header_ok_def)
  have "str_at tmp (cur + (length k + 2)) = Some (drop (length k + 2) ?s)"
    using str_at_drop [OF tmp, of "length k + 2"] by simp
  then have s2: "str_at tmp (cur + length k + 2) = Some (v @ CRLF @ suf)"
    by (simp add: add.assoc)
  have j: "strstr (v @ CRLF @ suf) CRLF = Some (length v)"
    using kv strstr_CRLF [of v suf] by (simp add: header_ok_def)
  from set_spec [OF wf ok, of k v] obtain pr' hs n where
    "ParsedHeader_set realloc_ok pr k v = Some (pr', 0)" "header_wf pr'"
    "header_list pr' = filter (\<lambda>(k', v). k' \<noteq> k) (header_list pr) @ [(k, v)]"
    "pr' = pr\<lparr>pr_headers := Some hs, pr_headerslen := n, pr_headersused := pr_headersused pr + 1\<rparr>"
    by blast
  then show ?thesis using tmp i s2 j
    by (auto simp: ParsedHeader_parse_def put_header_def)
qed

lemma parse_headers_spec:
  assumes "header_wf pr" "\<forall>n. realloc_ok n" "list_all header_ok hl"
    and "NUL \<notin> set rest" "cur = length pre"
  shows "\<exists>pr' hs n u. parse_headers realloc_ok pr
      (pre @ concat (map render_header hl) @ CRLF @ rest @ NUL # post) cur = Some (pr', 0) \<and>
    header_wf pr' \<and> header_list pr' = foldl put_header (header_list pr) hl \<and>
    pr' = pr\<lparr>pr_headers := hs, pr_headerslen := n, pr_headersused := u\<rparr>"
  using assms
proof (induction hl arbitrary: pr pre cur)
  case Nil
  have "str_at (pre @ (CRLF @ rest) @ NUL # post) cur = Some (CRLF @ rest)"
    using Nil.prems by (intro str_at_append) auto
  then have "parse_headers realloc_ok pr (pre @ CRLF @ rest @ NUL # post) cur = Some (pr, 0)"
    by (subst parse_headers.simps) simp
  moreover have "pr = pr\<lparr>pr_headers := pr_headers pr, pr_headerslen := pr_headerslen pr,
      pr_headersused := pr_headersused pr\<rparr>" by simp
  ultimately show ?case using Nil.prems(1) by (metis append_Nil concat.simps(1) foldl_Nil list.map(1))
next
  case (Cons kv hl)
  obtain k v where kv: "kv = (k, v)" by (cases kv)
  let ?suf = "concat (map render_header hl) @ CRLF @ rest"
  let ?tmp = "pre @ concat (map render_header (kv # hl)) @ CRLF @ rest @ NUL # post"
  have "NUL \<notin> set (concat (map render_header hl))"
    using Cons.prems(3) render_header_ok by (auto simp: list_all_iff)
  then have "NUL \<notin> set (render_header kv @ ?suf)"
    using Cons.prems(3,4) render_header_ok by auto
  with Cons.prems(5) have s: "str_at ?tmp cur = Some (render_header (k, v) @ ?suf)"
    using str_at_append [of cur pre "render_header kv @ ?suf" post] by (simp add: kv)
  have ok: "header_ok (k, v)" using Cons.prems(3) by (simp add: kv)
  from ParsedHeader_parse_spec [OF Cons.prems(1,2) ok s] obtain pr1 hs n u where
    p1: "ParsedHeader_parse realloc_ok pr ?tmp cur = Some (pr1, 0)" "header_wf pr1"
      "header_list pr1 = put_header (header_list pr) (k, v)"
    and pr1: "pr1 = pr\<lparr>pr_headers := hs, pr_headerslen := n, pr_headersused := u\<rparr>" by blast
  let ?line = "k @ '': '' @ v"
  have j: "strstr (render_header (k, v) @ ?suf) CRLF = Some (length ?line)"
    using strstr_CRLF [of ?line ?suf] ok by (simp add: header_ok_def)
  have ne: "take 2 (render_header (k, v) @ ?suf) \<noteq> CRLF"
    using ok by (cases k) (auto simp: header_ok_def eval_nat_numeral)
  have "parse_headers realloc_ok pr ?tmp cur
      = parse_headers realloc_ok pr1 ?tmp (cur + length ?line + 2)"
    using s p1(1) j ne by (subst parse_headers.simps) simp
  also have "\<dots> = parse_headers realloc_ok pr1 ((pre @ render_header kv) @
      concat (map render_header hl) @ CRLF @ rest @ NUL # post) (length (pre @ render_header kv))"
    using Cons.prems(5) by (simp add: kv add.assoc)
  finally have step: "parse_headers realloc_ok pr ?tmp cur = \<dots>" .
  from Cons.IH [OF p1(2) Cons.prems(2) _ Cons.prems(4) refl, of "pre @ render_header kv"] Cons.prems(3)
  show ?case unfolding step using p1(3) by (auto simp: pr1 kv)
qed

lemma foldl_put_header_distinct:
  "distinct (map fst (al @ hl)) \<Longrightarrow> foldl put_header al hl = al @ hl"
proof (induction hl arbitrary: al)
  case Nil
  then show ?case by simp
next
  case (Cons kv hl)
  then have "fst kv \<notin> fst ` set al" by auto
  then have "put_header al kv = al @ [kv]" by (simp add: put_header_def filter_key_absent)
  with Cons.IH [of "al @ [kv]"] Cons.prems show ?case by simp
qed

subsection \<open>Well-formed requests\<close>

lemma token_app:
  assumes "set ld \<subseteq> set ds" "tok \<noteq> []" "set tok \<inter> set ds = {}" "d \<in> set ds"
  shows "token ds (ld @ tok @ d # r) = tok" "after ds (ld @ tok @ d # r) = r"
    "remainder ds (ld @ tok @ d # r) \<noteq> []" "chopped ds (ld @ tok @ d # r) = ld @ tok @ [NUL]"
proof -
  obtain t ts where t: "tok = t # ts" using assms(2) by (cases tok) auto
  with assms(1,3) have sk: "skip ds (ld @ tok @ d # r) = tok @ d # r"
    and ld: "leading ds (ld @ tok @ d # r) = ld"
    unfolding skip_def leading_def t append_Cons
    by (auto intro!: dropWhile_eq_append_notP takeWhile_eq_append_notP)
  have "takeWhile (\<lambda>c. c \<notin> set ds) (tok @ d # r) = tok"
    using assms(3,4) by (intro takeWhile_eq_append_notP) auto
  moreover have "dropWhile (\<lambda>c. c \<notin> set ds) (tok @ d # r) = d # r"
    using assms(3,4) by (intro dropWhile_eq_append_notP) auto
  ultimately show "token ds (ld @ tok @ d # r) = tok" "after ds (ld @ tok @ d # r) = r"
    "remainder ds (ld @ tok @ d # r) \<noteq> []" "chopped ds (ld @ tok @ d # r) = ld @ tok @ [NUL]"
    by (simp_all add: token_def after_def remainder_def chopped_def sk ld)
qed

text \<open>The requests that survive printing and parsing.\<close>

definition request_ok :: "request \<Rightarrow> bool" where
  "request_ok r =
    (rq_method r = ''GET'' \<and>
     rq_protocol r \<noteq> [] \<and> set (rq_protocol r) \<inter> set (NUL # CR # '':/ '') = {} \<and>
     rq_host r \<noteq> [] \<and> set (rq_host r) \<inter> set (NUL # CR # '':/ '') = {} \<and>
     (case rq_port r of None \<Rightarrow> True
      | Some p \<Rightarrow> p \<noteq> [] \<and> set p \<inter> set (NUL # CR # ''/ '') = {}) \<and>
     take 1 (rq_path r) = ''/'' \<and> take 2 (rq_path r) \<noteq> ''//'' \<and>
     set (rq_path r) \<inter> set (NUL # CR # '' '') = {} \<and>
     prefix ''HTTP/'' (rq_version r) \<and> NUL \<notin> set (rq_version r) \<and> CR \<notin> set (rq_version r) \<and>
     list_all header_ok (rq_headers r) \<and> distinct (map fst (rq_headers r)))"

definition port_ok :: "bool \<Rightarrow> request \<Rightarrow> bool" where
  "port_ok einval r = (case rq_port r of None \<Rightarrow> True
     | Some p \<Rightarrow> \<not> (to_int32 (strtol10 p) = 0 \<and> einval))"

lemma spec_uri_render:
  assumes ok: "request_ok r" and port: "port_ok einval r"
  shows "spec_uri einval (render_addr r) (rq_version r) = Some (r\<lparr>rq_headers := []\<rparr>)"
proof -
  obtain rest where path: "rq_path r = CHR ''/'' # rest" and rest: "take 1 rest \<noteq> ''/''"
    using ok by (cases "rq_path r") (auto simp: request_ok_def eval_nat_numeral)
  let ?hp = "rq_host r @ (case rq_port r of None \<Rightarrow> '''' | Some p \<Rightarrow> '':'' @ p)"
  have fa: "render_addr r = [] @ rq_protocol r @ CHR '':'' # ''//'' @ ?hp @ CHR ''/'' # rest"
    by (simp add: render_addr_def path)
  have pd: "set (rq_protocol r) \<inter> set ''://'' = {}" and pn: "rq_protocol r \<noteq> []"
    using ok by (auto simp: request_ok_def)
  have tp: "token ''://'' (render_addr r) = rq_protocol r"
    "after ''://'' (render_addr r) = ''//'' @ ?hp @ CHR ''/'' # rest"
    "chopped ''://'' (render_addr r) = rq_protocol r @ [NUL]"
    unfolding fa using token_app [of "[]" "''://''", OF _ pn pd] by simp_all
  have hd: "set ?hp \<inter> set ''/'' = {}" and hn: "?hp \<noteq> []" and nn: "NUL \<notin> set ?hp" "NUL \<notin> set rest"
    using ok path by (auto simp: request_ok_def split: option.splits)
  have th: "token ''/'' (''//'' @ ?hp @ CHR ''/'' # rest) = ?hp"
    "after ''/'' (''//'' @ ?hp @ CHR ''/'' # rest) = rest"
    by (rule token_app; use hd hn in simp)+
  have "takeWhile (\<lambda>c. c \<noteq> NUL) (?hp @ CHR ''/'' # rest @ NUL # rq_version r @ [NUL])
      = ?hp @ CHR ''/'' # rest"
    using takeWhile_eq_append_notP [of "?hp @ CHR ''/'' # rest" "\<lambda>c. c \<noteq> NUL" NUL] nn
    by (auto simp del: takeWhile_append takeWhile_append1 takeWhile_append2)
  then have rl: "rem_len (render_addr r) (rq_version r) = length (?hp @ CHR ''/'' # rest)"
    by (simp add: rem_len_def tp)
  have tport: "token '':'' ?hp = rq_host r \<and> after '':'' ?hp = (case rq_port r of None \<Rightarrow> [] | Some p \<Rightarrow> p)"
  proof (cases "rq_port r")
    case None
    have "set (rq_host r) \<inter> set '':'' = {}" using ok by (auto simp: request_ok_def)
    from token_none [OF this] None show ?thesis by simp
  next
    case (Some p)
    have "set (rq_host r) \<inter> set '':'' = {}" "rq_host r \<noteq> []" using ok by (auto simp: request_ok_def)
    with token_app [of "[]" "'':''" "rq_host r" "CHR '':''" p] Some show ?thesis by simp
  qed
  have hne: "rq_host r \<noteq> []" and me: "rq_method r = ''GET''" using ok by (auto simp: request_ok_def)
  have pne: "rq_port r \<noteq> Some []" using ok by (auto simp: request_ok_def)
  show ?thesis
    unfolding spec_uri_def Let_def tp th rl
    using tport pn hn hne me rest port pne path
    by (cases r; cases "rq_port r") (auto simp: port_ok_def)
qed

lemma spec_line_render:
  assumes ok: "request_ok r" and port: "port_ok einval r"
  shows "spec_line einval (render_line r) = Some (Some (r\<lparr>rq_headers := []\<rparr>))"
proof -
  have a: "set (render_addr r) \<inter> set '' '' = {}" "render_addr r \<noteq> []"
    using ok by (auto simp: request_ok_def render_addr_def split: option.splits)
  have l: "render_line r = [] @ ''GET'' @ CHR '' '' # (render_addr r @ '' '' @ rq_version r)"
    using ok by (simp add: render_line_def request_ok_def)
  have t1: "token '' '' (render_line r) = ''GET''"
    "after '' '' (render_line r) = render_addr r @ '' '' @ rq_version r"
    unfolding l by (rule token_app; simp)+
  have t2: "token '' '' (render_addr r @ '' '' @ rq_version r) = render_addr r"
    "after '' '' (render_addr r @ '' '' @ rq_version r) = rq_version r"
    "remainder '' '' (render_addr r @ '' '' @ rq_version r) \<noteq> []"
    using token_app [of "[]" "'' ''" "render_addr r" "CHR '' ''" "rq_version r"] a by simp_all
  have v: "prefix ''HTTP/'' (rq_version r)" using ok by (simp add: request_ok_def)
  show ?thesis unfolding spec_line_def Let_def t1 t2(1,2) spec_uri_render [OF ok port]
    using a(2) t2(3) v by simp
qed

text \<open>What the parser does with a whole buffer, up to the header lines.\<close>

lemma parse_first_line:
  assumes new: "pr_buf pr = None" and len: "MIN_REQ_LEN \<le> int (length b)" "int (length b) \<le> MAX_REQ_LEN"
    and b: "b @ [NUL] = l @ CRLF @ more_text @ NUL # post"
    and l: "NUL \<notin> set l" "\<not> sublist CRLF (l @ [CR])" "NUL \<notin> set more_text"
    and eoh: "sublist (CRLF @ CRLF) (l @ CRLF @ more_text)"
  shows "ParsedRequest_parse einval realloc_ok pr b (int (length b)) =
    do { (pr, r) \<leftarrow> parse_request_line einval
           (pr\<lparr>pr_buf := Some (l @ [NUL]), pr_buflen := length l + 1\<rparr>);
         if r < 0 then Some (pr, -1)
         else parse_headers realloc_ok pr (l @ CRLF @ more_text @ NUL # post) (length l + 2) }"
proof -
  have "NUL \<notin> set (l @ CRLF @ more_text)" using l by auto
  then have s: "str_at (l @ CRLF @ more_text @ NUL # post) 0 = Some (l @ CRLF @ more_text)"
    using str_at_0 [of "l @ CRLF @ more_text" post] by simp
  have i: "strstr (l @ CRLF @ more_text) CRLF = Some (length l)"
    using strstr_first [OF l(2)] by simp
  from eoh have "strstr (l @ CRLF @ more_text) (CRLF @ CRLF) \<noteq> None"
    by (simp only: strstr_None_iff simp_thms)
  then obtain e where e: "strstr (l @ CRLF @ more_text) (CRLF @ CRLF) = Some e" by blast
  show ?thesis
    unfolding ParsedRequest_parse_def
    using new len s i e by (simp add: b not_less Let_def cong: if_cong)
qed

lemma no_line_end: "CR \<notin> set l \<Longrightarrow> \<not> sublist CRLF (l @ [CR])"
  by (auto simp: sublist_def append_eq_append_conv2 append_eq_Cons_conv Cons_eq_append_conv)

lemma parse_line_stage:
  assumes new: "pr_buf pr = None" and len: "MIN_REQ_LEN \<le> int (length b)" "int (length b) \<le> MAX_REQ_LEN"
    and b: "b @ [NUL] = l @ CRLF @ more_text @ NUL # post"
    and l: "NUL \<notin> set l" "CR \<notin> set l" "NUL \<notin> set more_text"
    and eoh: "sublist (CRLF @ CRLF) (l @ CRLF @ more_text)"
  shows "ParsedRequest_parse einval realloc_ok pr b (int (length b)) =
    do { (pr, r) \<leftarrow> parse_request_line einval
           (pr\<lparr>pr_buf := Some (l @ [NUL]), pr_buflen := length l + 1\<rparr>);
         if r < 0 then Some (pr, -1)
         else parse_headers realloc_ok pr (l @ CRLF @ more_text @ NUL # post) (length l + 2) }"
  by (rule parse_first_line [OF new len b l(1) no_line_end [OF l(2)] l(3) eoh])

lemma parse_line_undefined:
  assumes new: "pr_buf pr = None" and len: "MIN_REQ_LEN \<le> int (length b)" "int (length b) \<le> MAX_REQ_LEN"
    and b: "b @ [NUL] = l @ CRLF @ more_text @ NUL # post"
    and l: "NUL \<notin> set l" "CR \<notin> set l" "NUL \<notin> set more_text"
    and eoh: "sublist (CRLF @ CRLF) (l @ CRLF @ more_text)"
    and spec: "spec_line einval l = None"
  shows "ParsedRequest_parse einval realloc_ok pr b (int (length b)) = None"
proof -
  have "line_result (pr\<lparr>pr_buf := Some (l @ [NUL]), pr_buflen := length l + 1\<rparr>) (spec_line einval l)
    (parse_request_line einval (pr\<lparr>pr_buf := Some (l @ [NUL]), pr_buflen := length l + 1\<rparr>))"
    by (rule parse_request_line_spec) (simp_all add: l)
  then show ?thesis unfolding parse_line_stage [OF new len b l eoh] by (simp add: spec line_result_def)
qed

lemma render_eoh: "sublist (CRLF @ CRLF) (render_line r @ CRLF @ render_headers hl @ rest)"
proof (cases hl rule: rev_cases)
  case Nil
  then show ?thesis by (auto simp: render_headers_def sublist_def)
next
  case (snoc ys kv)
  obtain k v where "kv = (k, v)" by (cases kv)
  with snoc have "render_line r @ CRLF @ render_headers hl @ rest =
      (render_line r @ CRLF @ concat (map render_header ys) @ k @ '': '' @ v) @ (CRLF @ CRLF) @ rest"
    by (simp add: render_headers_def)
  then show ?thesis by (metis sublist_appendI)
qed

lemma render_line_clean:
  assumes "request_ok r"
  shows "NUL \<notin> set (render_line r)" "CR \<notin> set (render_line r)"
  using assms by (auto simp: request_ok_def render_line_def render_addr_def split: option.splits)

text \<open>The header fields do not bear on what the other fields point to.\<close>

lemma deref_headers:
  "deref (pr\<lparr>pr_headers := hs, pr_headerslen := n, pr_headersused := u\<rparr>) p = deref pr p"
  by (cases p) simp_all

lemma request_of_headers:
  assumes "request_of pr = Some r"
  shows "request_of (pr\<lparr>pr_headers := hs, pr_headerslen := n, pr_headersused := u\<rparr>) =
    Some (r\<lparr>rq_headers := header_list (pr\<lparr>pr_headers := hs, pr_headerslen := n,
      pr_headersused := u\<rparr>)\<rparr>)"
proof -
  note d = request_ofD [OF assms]
  show ?thesis
  proof (cases "pr_port pr = Null")
    case True
    with d show ?thesis by (cases r) (simp add: request_of_def deref_headers)
  next
    case False
    with d(6) obtain p where "deref pr (pr_port pr) = Some p" "rq_port r = Some p" by blast
    with False d(1-5) show ?thesis by (cases r) (simp add: request_of_def deref_headers)
  qed
qed

text \<open>
  Parsing a printed request, whatever text follows it, gives the request back in a
  well-formed object.
\<close>

lemma parse_render:
  assumes new: "pr_buf pr = None" "header_wf pr" "header_list pr = []"
    and ok: "request_ok r" and port: "port_ok einval r" and re: "\<forall>n. realloc_ok n"
    and len: "int (length (render r @ body)) \<le> MAX_REQ_LEN"
  shows "\<exists>pr'. ParsedRequest_parse einval realloc_ok pr (render r @ body) (int (length (render r @ body)))
      = Some (pr', 0) \<and> request_of pr' = Some r \<and> header_wf pr' \<and> pr_buf pr' \<noteq> None"
proof -
  obtain bd post where bd: "body @ [NUL] = bd @ NUL # post" "NUL \<notin> set bd"
    using cstr_is_Some [of "body @ [NUL]"] by (auto simp: cstr_Some_iff)
  have hok: "list_all header_ok (rq_headers r)" and dist: "distinct (map fst (rq_headers r))"
    using ok by (auto simp: request_ok_def)
  have nh: "NUL \<notin> set (concat (map render_header (rq_headers r)))"
    using hok render_header_ok by (auto simp: list_all_iff)
  let ?l = "render_line r" and ?more = "render_headers (rq_headers r) @ bd"
  have b: "(render r @ body) @ [NUL] = ?l @ CRLF @ ?more @ NUL # post"
    by (simp add: render_def bd(1))
  have m: "NUL \<notin> set ?more" using nh bd(2) by (auto simp: render_headers_def)
  have "3 < length ?l" using ok by (simp add: render_line_def request_ok_def)
  then have min: "MIN_REQ_LEN \<le> int (length (render r @ body))"
    by (simp add: MIN_REQ_LEN_def render_def)
  let ?pr1 = "pr\<lparr>pr_buf := Some (?l @ [NUL]), pr_buflen := length ?l + 1\<rparr>"
  have "line_result ?pr1 (spec_line einval ?l) (parse_request_line einval ?pr1)"
    by (rule parse_request_line_spec) (simp_all add: render_line_clean [OF ok])
  then obtain pr2 where p2: "parse_request_line einval ?pr1 = Some (pr2, 0)" "pr_buf pr2 \<noteq> None"
    and rq: "request_of pr2 = Some (r\<lparr>rq_headers := []\<rparr>)"
    and hd: "pr_headers pr2 = pr_headers pr" "pr_headersused pr2 = pr_headersused pr"
      "pr_headerslen pr2 = pr_headerslen pr"
    using new(3) by (auto simp: line_result_def spec_line_render [OF ok port] header_list_def)
  have wf2: "header_wf pr2" "header_list pr2 = []" using new(2,3) hd
    by (auto simp: header_wf_def header_list_def split: option.splits)
  from parse_headers_spec [OF wf2(1) re hok bd(2), of "length ?l + 2" "?l @ CRLF" post] wf2(2)
  obtain pr3 hs n u where p3: "parse_headers realloc_ok pr2 (?l @ CRLF @ ?more @ NUL # post)
        (length ?l + 2) = Some (pr3, 0)" "header_wf pr3"
      "header_list pr3 = foldl put_header [] (rq_headers r)"
    and pr3: "pr3 = pr2\<lparr>pr_headers := hs, pr_headerslen := n, pr_headersused := u\<rparr>"
    by (auto simp: render_headers_def)
  have hl3: "header_list pr3 = rq_headers r"
    using p3(3) foldl_put_header_distinct [of "[]" "rq_headers r"] dist by simp
  have "request_of pr3 = Some (r\<lparr>rq_headers := header_list pr3\<rparr>)"
    using request_of_headers [OF rq] by (simp add: pr3)
  then show ?thesis
    unfolding parse_line_stage [OF new(1) min len b render_line_clean [OF ok] m render_eoh]
    using p2 p3 hl3 by (simp add: pr3)
qed

end
