(* ===== verification/Proxy_Utils.thy ===== *)
theory Proxy_Utils
  imports Request_Parse
begin

text \<open>
  \<^verbatim>\<open>ProxyUtils.cpp\<close>: the text of the request to the origin server, and the socket
  loops. What the kernel does is an argument: a number k for each call of \<open>send\<close>, negative
  for an error, otherwise the space of the socket buffer, so that the call takes
  \<open>min k n\<close> of the n bytes it is offered; and one event for each call of \<open>recv\<close>.
\<close>

subsection \<open>The request to the origin server\<close>

text \<open>
  A header length that is negative as an \<open>int\<close> makes \<open>malloc\<close> fail; the caller takes the
  length of the NULL that is returned, so this is \<open>None\<close> too; and so is a \<open>requestSize\<close>
  for which \<open>requestSize + 1\<close> is not an \<open>int\<close>.
\<close>

text \<open>\<open>snprintf(dst, n, ...)\<close> of the text \<open>s\<close> into a block of n bytes: cut to n - 1, and a NUL.\<close>

definition snprintf :: "nat \<Rightarrow> string \<Rightarrow> block" where
  "snprintf n s = take (n - 1) s @ [NUL]"

definition convertRequestToString ::
  "(nat \<Rightarrow> bool) \<Rightarrow> ParsedRequest \<Rightarrow> (ParsedRequest \<times> string) option" where
  "convertRequestToString realloc_ok req = do {
     ho \<leftarrow> deref req (pr_host req);
     (req, _) \<leftarrow> ParsedHeader_set realloc_ok req ''Host'' ho;
     (req, _) \<leftarrow> ParsedHeader_set realloc_ok req ''Connection'' ''close'';
     len \<leftarrow> ParsedHeader_headersLen req;
     if to_int32 (int len) < 0 then None else do {
     let headersLen = nat (to_int32 (int len));
     let headersBuf = replicate (headersLen + 1) (CHR ''?'');
     (headersBuf, _) \<leftarrow> ParsedRequest_unparse_headers req headersBuf 0 headersLen;
     headersBuf \<leftarrow> store headersBuf headersLen NUL;
     me \<leftarrow> deref req (pr_method req);
     pa \<leftarrow> deref req (pr_path req);
     ve \<leftarrow> deref req (pr_version req);
     hs \<leftarrow> str_at headersBuf 0;
     let requestSize = length me + length pa + length ve + headersLen + 4;
     if 2147483647 \<le> requestSize then None else do {
     s \<leftarrow> str_at (snprintf (requestSize + 1) (me @ '' '' @ pa @ '' '' @ ve @ CRLF @ hs)) 0;
     Some (req, s) } } }"

subsection \<open>Writing to a socket\<close>

datatype send_end = Sent | SendFailed | SendBlocked

text \<open>
  The result is the bytes the kernel took, how the loop ended, and the calls not yet used up;
  when there are none the next call of \<open>send\<close> does not return.
\<close>

fun writeToSocket ::
  "block \<Rightarrow> int \<Rightarrow> int \<Rightarrow> int list \<Rightarrow> (block \<times> send_end \<times> int list) option" where
  "writeToSocket buff len totalSent ks =
    (if totalSent < len then
       (if int (length buff) < len \<or> totalSent < 0 then None else case ks of
          [] \<Rightarrow> Some ([], SendBlocked, [])
        | k # ks \<Rightarrow>
            if k < 0 then Some ([], SendFailed, ks) else do {
              let sent = min k (len - totalSent);
              (out, e, ks) \<leftarrow> writeToSocket buff len (totalSent + sent) ks;
              Some (take (nat sent) (drop (nat totalSent) buff) @ out, e, ks) })
     else Some ([], Sent, ks))"

declare writeToSocket.simps [simp del]

definition writeToServerSocket :: "block \<Rightarrow> int \<Rightarrow> int list \<Rightarrow> (block \<times> send_end \<times> int list) option" where
  "writeToServerSocket buff len ks = writeToSocket buff len 0 ks"

definition writeToClientSocket :: "block \<Rightarrow> int \<Rightarrow> int list \<Rightarrow> (block \<times> send_end \<times> int list) option" where
  "writeToClientSocket buff len ks = writeToSocket buff len 0 ks"

subsection \<open>Relaying the response\<close>

text \<open>
  What the peer does: it sends bytes, closes, or the connection breaks. A call of \<open>recv\<close> for
  at most n bytes takes what is there, up to n; it gives \<open>None\<close> when it would wait forever.
\<close>

datatype recv_event = Data block | Closed | RecvError

fun recv :: "nat \<Rightarrow> recv_event list \<Rightarrow> (recv_event \<times> recv_event list) option" where
  "recv n [] = None"
| "recv n (Closed # es) = Some (Closed, es)"
| "recv n (RecvError # es) = Some (RecvError, es)"
| "recv n (Data d # es) = (if d = [] then recv n es
     else Some (Data (take n d), if length d \<le> n then es else Data (drop n d) # es))"

text \<open>The bytes before the end or the error, and what a finite script amounts to.\<close>

fun stream :: "recv_event list \<Rightarrow> block" where
  "stream (Data d # es) = d @ stream es"
| "stream _ = []"

fun weight :: "recv_event list \<Rightarrow> nat" where
  "weight [] = 0"
| "weight (Data d # es) = Suc (length d + weight es)"
| "weight (_ # es) = Suc (weight es)"

lemma recv_weight: "recv n es = Some (Data d, es') \<Longrightarrow> 0 < n \<Longrightarrow> weight es' < weight es"
  by (induction n es arbitrary: es' rule: recv.induct) (auto split: if_splits)

datatype relay_end = Clean | Broken | Pending

text \<open>
  The loop of \<open>writeToClient\<close>: the response so far, what went to the client, how the
  stream ended.
\<close>

function relay ::
  "recv_event list \<Rightarrow> string \<Rightarrow> block \<Rightarrow> int list \<Rightarrow> (string \<times> block \<times> relay_end \<times> int list) option" where
  "relay es response out ks = (case recv 4096 es of
       None \<Rightarrow> Some (response, out, Pending, ks)
     | Some (Closed, es) \<Rightarrow> Some (response, out, Clean, ks)
     | Some (RecvError, es) \<Rightarrow> Some (response, out, Broken, ks)
     | Some (Data d, es) \<Rightarrow> do {
         (o1, _, ks) \<leftarrow> writeToClientSocket d (int (length d)) ks;
         relay es (response @ d) (out @ o1) ks })"
  by pat_completeness auto
termination
  by (relation "measure (\<lambda>(es, _). weight es)") (auto dest: recv_weight)

declare relay.simps [simp del]

text \<open>\<open>writeToClient\<close>: what the client got, and what is added to the cache, if anything.\<close>

definition writeToClient ::
  "recv_event list \<Rightarrow> int list \<Rightarrow> (block \<times> block option \<times> relay_end \<times> int list) option" where
  "writeToClient es ks = do {
     (response, out, e, ks) \<leftarrow> relay es [] [] ks;
     Some (out, if e = Clean then Some response else None, e, ks) }"


subsection \<open>The request text\<close>

definition nul_free_headers :: "(string \<times> string) list \<Rightarrow> bool" where
  "nul_free_headers hl = list_all (\<lambda>(k, v). NUL \<notin> set k \<and> NUL \<notin> set v) hl"

lemma render_headers_nul: "nul_free_headers hl \<Longrightarrow> NUL \<notin> set (render_headers hl)"
  by (auto simp: nul_free_headers_def list_all_iff render_headers_def)

text \<open>The headers the proxy sends on.\<close>

definition forward_headers :: "string \<Rightarrow> (string \<times> string) list \<Rightarrow> (string \<times> string) list" where
  "forward_headers ho hl = filter (\<lambda>(k, v). k \<noteq> ''Host'' \<and> k \<noteq> ''Connection'') hl
     @ [(''Host'', ho), (''Connection'', ''close'')]"

definition forward_text :: "request \<Rightarrow> string" where
  "forward_text r = rq_method r @ '' '' @ rq_path r @ '' '' @ rq_version r @ CRLF @
     render_headers (forward_headers (rq_host r) (rq_headers r))"

lemma set_two_headers:
  assumes "header_wf pr" "\<forall>n. realloc_ok n"
  shows "\<exists>pr1 pr2 hs n u. ParsedHeader_set realloc_ok pr ''Host'' ho = Some (pr1, 0) \<and>
    ParsedHeader_set realloc_ok pr1 ''Connection'' ''close'' = Some (pr2, 0) \<and> header_wf pr2 \<and>
    header_list pr2 = forward_headers ho (header_list pr) \<and>
    pr2 = pr\<lparr>pr_headers := hs, pr_headerslen := n, pr_headersused := u\<rparr>"
proof -
  from set_spec [OF assms, of "''Host''" ho] obtain pr1 hs n where
    p1: "ParsedHeader_set realloc_ok pr ''Host'' ho = Some (pr1, 0)" "header_wf pr1"
    "header_list pr1 = filter (\<lambda>(k', v). k' \<noteq> ''Host'') (header_list pr) @ [(''Host'', ho)]"
    "pr1 = pr\<lparr>pr_headers := Some hs, pr_headerslen := n, pr_headersused := pr_headersused pr + 1\<rparr>"
    by blast
  from set_spec [OF p1(2) assms(2), of "''Connection''" "''close''"] obtain pr2 hs2 n2 where
    p2: "ParsedHeader_set realloc_ok pr1 ''Connection'' ''close'' = Some (pr2, 0)" "header_wf pr2"
    "header_list pr2 = filter (\<lambda>(k', v). k' \<noteq> ''Connection'') (header_list pr1) @ [(''Connection'', ''close'')]"
    "pr2 = pr1\<lparr>pr_headers := Some hs2, pr_headerslen := n2, pr_headersused := pr_headersused pr1 + 1\<rparr>"
    by blast
  have "header_list pr2 = forward_headers ho (header_list pr)"
    unfolding p2(3) p1(3) forward_headers_def
    by (simp add: filter_filter) (rule filter_cong, auto)
  then show ?thesis
    using p1(1) p2(1,2) by (intro exI [of _ pr1] exI [of _ pr2] exI [of _ "Some hs2"] exI [of _ n2]
        exI [of _ "pr_headersused pr1 + 1"]) (simp add: p2(4) p1(4))
qed

lemma convert_spec:
  assumes rq: "request_of pr = Some r" and wf: "header_wf pr" and buf: "pr_buf pr \<noteq> None"
    and ok: "\<forall>n. realloc_ok n"
    and nul: "NUL \<notin> set (rq_method r)" "NUL \<notin> set (rq_path r)" "NUL \<notin> set (rq_version r)"
      "NUL \<notin> set (rq_host r)" "nul_free_headers (rq_headers r)"
    and fit: "length (forward_text r) < 2147483647"
  shows "\<exists>pr' hs n u. convertRequestToString realloc_ok pr = Some (pr', forward_text r) \<and> header_wf pr' \<and>
    header_list pr' = forward_headers (rq_host r) (rq_headers r) \<and>
    pr' = pr\<lparr>pr_headers := hs, pr_headerslen := n, pr_headersused := u\<rparr>"
proof -
  note d = request_ofD [OF rq]
  let ?hl = "forward_headers (rq_host r) (rq_headers r)"
  from set_two_headers [OF wf ok, of "rq_host r"] d(8) obtain pr1 pr2 hs n u where
    p: "ParsedHeader_set realloc_ok pr ''Host'' (rq_host r) = Some (pr1, 0)"
      "ParsedHeader_set realloc_ok pr1 ''Connection'' ''close'' = Some (pr2, 0)" "header_wf pr2"
      "header_list pr2 = ?hl"
    and pr2: "pr2 = pr\<lparr>pr_headers := hs, pr_headerslen := n, pr_headersused := u\<rparr>" by metis
  let ?h = "render_headers ?hl" and ?l = "length (render_headers ?hl)"
  have l: "?l < 2147483648" using fit by (simp add: forward_text_def)
  have buf2: "pr_buf pr2 \<noteq> None" using buf by (simp add: pr2)
  have len: "ParsedHeader_headersLen pr2 = Some ?l"
    using headersLen_exact [OF p(3) buf2] l by (simp add: p(4))
  have i: "to_int32 (int ?l) = int ?l" using l by (simp add: to_int32_id)
  have nh: "NUL \<notin> set ?h"
    using nul(4,5) by (intro render_headers_nul) (auto simp: nul_free_headers_def forward_headers_def list_all_iff)
  have dr1: "drop ?l (replicate (Suc ?l) (CHR ''?'')) = ''?''" by (subst drop_replicate) simp
  have un: "ParsedRequest_unparse_headers pr2 (replicate (?l + 1) (CHR ''?'')) 0 ?l = Some (?h @ ''?'', 0)"
    using unparse_headers_spec [OF p(3) buf2, of 0 ?l "replicate (?l + 1) (CHR ''?'')"] l dr1
    by (simp add: p(4) del: replicate_Suc)
  have st: "store (?h @ ''?'') ?l NUL = Some (?h @ [NUL])" by (simp add: store_def list_update_append)
  have rd: "str_at (?h @ [NUL]) 0 = Some ?h" using str_at_append [of 0 "[]" ?h "[]"] nh by simp
  let ?t = "rq_method r @ '' '' @ rq_path r @ '' '' @ rq_version r @ CRLF @ ?h"
  have sz: "length (rq_method r) + length (rq_path r) + length (rq_version r) + ?l + 4 = length ?t" by simp
  have t: "str_at (snprintf (length ?t + 1) ?t) 0 = Some ?t"
    using str_at_append [of 0 "[]" ?t "[]"] nh nul(1-3) by (simp add: snprintf_def)
  have dr: "deref pr2 (pr_method pr2) = Some (rq_method r)" "deref pr2 (pr_path pr2) = Some (rq_path r)"
    "deref pr2 (pr_version pr2) = Some (rq_version r)"
    using d(1,4,5) by (simp_all add: pr2 deref_headers)
  have "convertRequestToString realloc_ok pr = Some (pr2, ?t)"
    unfolding convertRequestToString_def d(3) Option.bind_lunit p(1,2) len prod.case Let_def i nat_int
      un st dr rd sz t using fit by (simp add: forward_text_def)
  then show ?thesis using p(3,4) pr2 by (auto simp: forward_text_def)
qed


subsection \<open>The socket loops\<close>

text \<open>Whatever the kernel does, what is sent is a prefix, and all of it when the loop says so.\<close>

lemma writeToSocket_prefix:
  assumes "0 \<le> tot" "tot \<le> len" "len \<le> int (length buff)"
  shows "\<exists>out e ks'. writeToSocket buff len tot ks = Some (out, e, ks') \<and>
    prefix out (take (nat (len - tot)) (drop (nat tot) buff)) \<and>
    (e = Sent \<longleftrightarrow> int (length out) = len - tot) \<and> suffix ks' ks"
  using assms
proof (induction buff len tot ks rule: writeToSocket.induct)
  case (1 buff len tot ks)
  show ?case
  proof (cases "tot < len")
    case False
    with "1.prems" show ?thesis by (subst writeToSocket.simps) auto
  next
    case lt: True
    show ?thesis
    proof (cases ks)
      case Nil
      with lt "1.prems" show ?thesis by (subst writeToSocket.simps) auto
    next
      case (Cons k ks1)
      show ?thesis
      proof (cases "k < 0")
        case True
        with Cons lt "1.prems" show ?thesis
          by (subst writeToSocket.simps) (auto simp: suffix_Cons)
      next
        case False
        define sent where "sent = min k (len - tot)"
        have s: "0 \<le> sent" "sent \<le> len - tot" using False lt by (auto simp: sent_def)
        have nb: "\<not> (int (length buff) < len \<or> tot < 0)" using "1.prems" by auto
        from "1.IH" [OF lt nb Cons False sent_def] s "1.prems" obtain out e ks' where
          r: "writeToSocket buff len (tot + sent) ks1 = Some (out, e, ks')"
          "prefix out (take (nat (len - (tot + sent))) (drop (nat (tot + sent)) buff))"
          "e = Sent \<longleftrightarrow> int (length out) = len - (tot + sent)" "suffix ks' ks1" by auto
        have w: "writeToSocket buff len tot ks =
            Some (take (nat sent) (drop (nat tot) buff) @ out, e, ks')"
          using lt nb Cons False r(1) by (subst writeToSocket.simps) (simp add: sent_def Let_def)
        have n: "nat (len - tot) = nat sent + nat (len - (tot + sent))"
          "nat (tot + sent) = nat tot + nat sent" using s "1.prems" by auto
        have "take (nat (len - tot)) (drop (nat tot) buff) = take (nat sent) (drop (nat tot) buff)
            @ take (nat (len - (tot + sent))) (drop (nat (tot + sent)) buff)"
          unfolding n take_add by (simp add: add.commute)
        moreover have "int (length (take (nat sent) (drop (nat tot) buff))) = sent"
          using s "1.prems" by auto
        ultimately show ?thesis using w r(2-4) Cons by (auto simp: suffix_Cons)
      qed
    qed
  qed
qed

text \<open>A kernel that takes at least one byte in each call, for long enough.\<close>

definition generous :: "int list \<Rightarrow> nat \<Rightarrow> bool" where
  "generous ks n = ((\<forall>k \<in> set ks. 1 \<le> k) \<and> n \<le> length ks)"

lemma writeToSocket_complete:
  assumes "0 \<le> tot" "tot \<le> len" "len \<le> int (length buff)"
    and "generous ks (nat (len - tot) + m)"
  shows "\<exists>ks'. writeToSocket buff len tot ks =
      Some (take (nat (len - tot)) (drop (nat tot) buff), Sent, ks') \<and> generous ks' m"
  using assms
proof (induction buff len tot ks rule: writeToSocket.induct)
  case (1 buff len tot ks)
  show ?case
  proof (cases "tot < len")
    case False
    with "1.prems" show ?thesis by (subst writeToSocket.simps) (auto simp: generous_def)
  next
    case lt: True
    then have "0 < nat (len - tot)" by simp
    then obtain k ks1 where ks: "ks = k # ks1" and k: "1 \<le> k"
      using "1.prems"(4) by (cases ks) (auto simp: generous_def)
    define sent where "sent = min k (len - tot)"
    have s: "1 \<le> sent" "sent \<le> len - tot" using k lt by (auto simp: sent_def)
    have nb: "\<not> (int (length buff) < len \<or> tot < 0)" using "1.prems" by auto
    have "nat (len - tot) \<ge> Suc (nat (len - (tot + sent)))" using s by linarith
    then have g: "generous ks1 (nat (len - (tot + sent)) + m)"
      using "1.prems"(4) ks by (auto simp: generous_def)
    have k0: "\<not> k < 0" using k by simp
    from "1.IH" [OF lt nb ks k0 sent_def] s "1.prems" g obtain ks' where
      r: "writeToSocket buff len (tot + sent) ks1 =
        Some (take (nat (len - (tot + sent))) (drop (nat (tot + sent)) buff), Sent, ks')"
      "generous ks' m" by auto
    have w: "writeToSocket buff len tot ks = Some (take (nat sent) (drop (nat tot) buff) @
        take (nat (len - (tot + sent))) (drop (nat (tot + sent)) buff), Sent, ks')"
      using lt nb ks k0 r(1) by (subst writeToSocket.simps) (simp add: sent_def Let_def)
    have n: "nat (len - tot) = nat sent + nat (len - (tot + sent))"
      "nat (tot + sent) = nat tot + nat sent" using s "1.prems" by auto
    have "take (nat (len - tot)) (drop (nat tot) buff) = take (nat sent) (drop (nat tot) buff)
        @ take (nat (len - (tot + sent))) (drop (nat (tot + sent)) buff)"
      unfolding n take_add by (simp add: add.commute)
    with w r(2) show ?thesis by auto
  qed
qed

lemma writeToClientSocket_complete:
  assumes "generous ks (length d + m)"
  shows "\<exists>ks'. writeToClientSocket d (int (length d)) ks = Some (d, Sent, ks') \<and> generous ks' m"
  using writeToSocket_complete [of 0 "int (length d)" d ks m] assms
  by (simp add: writeToClientSocket_def)

lemma writeToClientSocket_prefix:
  "\<exists>out e ks'. writeToClientSocket d (int (length d)) ks = Some (out, e, ks') \<and> prefix out d"
  using writeToSocket_prefix [of 0 "int (length d)" d ks] by (auto simp: writeToClientSocket_def)

text \<open>How a stream ends.\<close>

fun stream_end :: "recv_event list \<Rightarrow> relay_end" where
  "stream_end [] = Pending"
| "stream_end (Closed # es) = Clean"
| "stream_end (RecvError # es) = Broken"
| "stream_end (Data d # es) = stream_end es"

lemma recv_stream:
  assumes "0 < n"
  shows "case recv n es of
      None \<Rightarrow> stream es = [] \<and> stream_end es = Pending
    | Some (Closed, es') \<Rightarrow> stream es = [] \<and> stream_end es = Clean
    | Some (RecvError, es') \<Rightarrow> stream es = [] \<and> stream_end es = Broken
    | Some (Data d, es') \<Rightarrow> stream es = d @ stream es' \<and> stream_end es' = stream_end es \<and>
        d \<noteq> [] \<and> length d \<le> n"
  using assms by (induction n es rule: recv.induct) (auto split: option.splits recv_event.splits)

lemma relay_spec:
  "\<exists>out' ks'. relay es response out ks = Some (response @ stream es, out', stream_end es, ks') \<and>
     (generous ks (length (stream es) + m) \<longrightarrow> out' = out @ stream es \<and> generous ks' m)"
proof (induction es response out ks rule: relay.induct)
  case (1 es response out ks)
  note rs = recv_stream [of 4096 es]
  show ?case
  proof (cases "recv 4096 es")
    case None
    with rs show ?thesis by (subst relay.simps) simp
  next
    case (Some p)
    obtain ev es1 where p: "p = (ev, es1)" by (cases p)
    show ?thesis
    proof (cases ev)
      case (Data d)
      with rs Some p have s: "stream es = d @ stream es1" "stream_end es1 = stream_end es" by simp_all
      from writeToClientSocket_prefix [of d ks] obtain o1 e1 ks1 where
        w: "writeToClientSocket d (int (length d)) ks = Some (o1, e1, ks1)" by blast
      from "1.IH" [OF Some p [symmetric] Data w refl refl] obtain out' ks' where
        r: "relay es1 (response @ d) (out @ o1) ks1
          = Some ((response @ d) @ stream es1, out', stream_end es1, ks')"
        "generous ks1 (length (stream es1) + m) \<longrightarrow> out' = (out @ o1) @ stream es1 \<and> generous ks' m"
        by blast
      have "generous ks (length (stream es) + m) \<longrightarrow> out' = out @ stream es \<and> generous ks' m"
      proof
        assume "generous ks (length (stream es) + m)"
        then have "generous ks (length d + (length (stream es1) + m))" by (simp add: s add.assoc)
        from writeToClientSocket_complete [OF this] w r(2) show "out' = out @ stream es \<and> generous ks' m"
          by (auto simp: s)
      qed
      moreover have "relay es response out ks = Some (response @ stream es, out', stream_end es, ks')"
        using Some p Data w r(1) s by (subst relay.simps) simp
      ultimately show ?thesis by blast
    qed (use rs Some p in \<open>subst relay.simps, simp\<close>)+
  qed
qed


subsection \<open>Properties\<close>

text \<open>The request sent to the origin server: for every request with NUL-free parts the text
  that \<open>convertRequestToString\<close> builds in its two exactly sized buffers is complete (no
  \<open>snprintf\<close> truncation, no write outside a block): request line with the path only, the
  headers of the client without its Host and Connection, then \<open>Host\<close> set to the host of the
  address (the port is not part of it) and \<open>Connection: close\<close>, and the empty line.\<close>

theorem convert_request_exact:
  assumes "request_of pr = Some r" "header_wf pr" "pr_buf pr \<noteq> None" "\<forall>n. realloc_ok n"
    and "NUL \<notin> set (rq_method r @ rq_path r @ rq_version r @ rq_host r)"
    and "nul_free_headers (rq_headers r)"
    and "length (forward_text r) < 2147483647"
  shows "\<exists>pr'. convertRequestToString realloc_ok pr = Some (pr', rq_method r @ '' '' @ rq_path r @
      '' '' @ rq_version r @ CRLF @ render_headers (forward_headers (rq_host r) (rq_headers r))) \<and>
    header_wf pr' \<and> header_list pr' = forward_headers (rq_host r) (rq_headers r)"
proof -
  have nul: "NUL \<notin> set (rq_method r)" "NUL \<notin> set (rq_path r)" "NUL \<notin> set (rq_version r)"
    "NUL \<notin> set (rq_host r)" using assms(5) by auto
  from convert_spec [OF assms(1-4) nul assms(6,7)] obtain pr' where
    "convertRequestToString realloc_ok pr = Some (pr', forward_text r)" "header_wf pr'"
    "header_list pr' = forward_headers (rq_host r) (rq_headers r)" by blast
  then show ?thesis unfolding forward_text_def by blast
qed

theorem convert_request_exact_witness:
  "\<exists>pr pr'. convertRequestToString (\<lambda>_. True) pr = Some (pr',
      ''GET /x HTTP/1.0'' @ CRLF @ ''Host: a'' @ CRLF @ ''Connection: close'' @ CRLF @ CRLF)"
proof -
  let ?pr = "(ParsedRequest_create \<lparr>pr_method = Null, pr_protocol = Null, pr_host = Null, pr_port = Null,
    pr_path = Null, pr_version = Null, pr_buf = None, pr_buflen = 0, pr_headers = None,
    pr_headersused = 0, pr_headerslen = 0\<rparr>)\<lparr>pr_method := Own ''GET'', pr_protocol := Own ''http'',
    pr_host := Own ''a'', pr_port := Own ''81'', pr_path := Own ''/x'', pr_version := Own ''HTTP/1.0'', pr_buf := Some [NUL]\<rparr>"
  let ?r = "\<lparr>rq_method = ''GET'', rq_protocol = ''http'', rq_host = ''a'', rq_port = Some ''81'',
    rq_path = ''/x'', rq_version = ''HTTP/1.0'', rq_headers = []\<rparr>"
  have "request_of ?pr = Some ?r"
    by (simp add: request_of_def ParsedRequest_create_def ParsedHeader_create_def header_list_def)
  moreover have "header_wf ?pr"
    by (simp add: header_wf_def ParsedRequest_create_def ParsedHeader_create_def DEFAULT_NHDRS_def)
  ultimately show ?thesis
    using convert_request_exact [of ?pr ?r "\<lambda>_. True"]
    by (fastforce simp: nul_free_headers_def forward_text_def forward_headers_def render_headers_def)
qed

text \<open>\<open>writeToSocket\<close> sends, for every behaviour of the kernel, a prefix of the buffer, in
  order and without repeating or skipping a byte after short sends; it ends normally exactly
  when the whole buffer has been sent, and a kernel that takes at least one byte per call
  gets the whole buffer.\<close>

theorem writeToSocket_sends_prefix:
  assumes "0 \<le> len" "len \<le> int (length buff)"
  shows "\<exists>out e ks'. writeToSocket buff len 0 ks = Some (out, e, ks') \<and> prefix out (take (nat len) buff) \<and>
    (e = Sent \<longleftrightarrow> out = take (nat len) buff) \<and> (generous ks (nat len) \<longrightarrow> e = Sent)"
proof -
  from writeToSocket_prefix [of 0 len buff ks] assms obtain out e ks' where
    w: "writeToSocket buff len 0 ks = Some (out, e, ks')" "prefix out (take (nat len) buff)"
      "e = Sent \<longleftrightarrow> int (length out) = len" by auto
  have l: "int (length (take (nat len) buff)) = len" using assms by auto
  obtain zs where zs: "take (nat len) buff = out @ zs" using w(2) by (rule prefixE)
  have "out = take (nat len) buff \<longleftrightarrow> int (length out) = len"
  proof -
    have "int (length (out @ zs)) = len" using l unfolding zs .
    then have "int (length out) = len \<longleftrightarrow> zs = []" by (cases zs) auto
    then show ?thesis unfolding zs by auto
  qed
  moreover have "generous ks (nat len) \<longrightarrow> e = Sent"
    using writeToSocket_complete [of 0 len buff ks 0] assms w(1) by auto
  ultimately show ?thesis using w by blast
qed

theorem writeToSocket_sends_prefix_witness:
  "writeToSocket ''abcde'' 5 0 [2, 9] = Some (''abcde'', Sent, []) \<and>
   writeToSocket ''abcde'' 5 0 [2, -1] = Some (''ab'', SendFailed, []) \<and>
   prefix ''ab'' (take 5 ''abcde'')"
proof -
  have "writeToSocket ''abcde'' 5 0 [2, 9] = Some (''abcde'', Sent, [])"
    "writeToSocket ''abcde'' 5 0 [2, -1] = Some (''ab'', SendFailed, [])"
    by (simp_all add: writeToSocket.simps)
  with writeToSocket_sends_prefix [of 5 "''abcde''" "[2, -1]"] show ?thesis by simp
qed

text \<open>\<open>writeToClient\<close> on every behaviour of the origin server and of the client's socket:
  the response handed to the cache is exactly the bytes the server sent before it closed, and
  nothing is cached when the connection broke or is still open; a client whose socket takes
  the data gets exactly the same bytes, whether they are cached or not.\<close>

theorem writeToClient_relays:
  "\<exists>out ks'. writeToClient es ks = Some (out,
      if stream_end es = Clean then Some (stream es) else None, stream_end es, ks') \<and>
    (generous ks (length (stream es)) \<longrightarrow> out = stream es)"
  using relay_spec [of es "[]" "[]" ks 0] by (auto simp: writeToClient_def)

theorem writeToClient_relays_witness:
  "\<exists>ks'. writeToClient [Data ''ab'', Data ''c'', Closed] [5, 5, 5] = Some (''abc'', Some ''abc'', Clean, ks')"
  using writeToClient_relays [of "[Data ''ab'', Data ''c'', Closed]" "[5, 5, 5]"]
  by (simp add: generous_def)

end
