(* ===== verification/Parse_Properties.thy ===== *)
theory Parse_Properties
  imports Request_Parse
begin

text \<open>
  The properties of the request parser and printer (\<^verbatim>\<open>proxy_parse.c\<close>), with the
  frame and invariant lemmas they need: which fields a stage of the parser may change, and
  that the header table stays well formed through every defined run.
\<close>

subsection \<open>Frames and invariants\<close>

definition same_headers :: "ParsedRequest \<Rightarrow> ParsedRequest \<Rightarrow> bool" where
  "same_headers pr pr' = (pr_headers pr' = pr_headers pr \<and>
     pr_headersused pr' = pr_headersused pr \<and> pr_headerslen pr' = pr_headerslen pr)"

lemma same_headers_wf: "same_headers pr pr' \<Longrightarrow> header_wf pr' = header_wf pr"
  by (simp add: same_headers_def header_wf_def split: option.splits)

lemma same_headers_list: "same_headers pr pr' \<Longrightarrow> header_list pr' = header_list pr"
  by (simp add: same_headers_def header_list_def)

lemma header_wf_buf:
  "header_wf (pr\<lparr>pr_buf := x, pr_buflen := y\<rparr>) = header_wf pr"
  by (simp add: header_wf_def split: option.splits)

text \<open>Nothing but the header fields differs.\<close>

definition only_headers :: "ParsedRequest \<Rightarrow> ParsedRequest \<Rightarrow> bool" where
  "only_headers pr pr' = (\<exists>hs n u. pr' = pr\<lparr>pr_headers := hs, pr_headerslen := n,
     pr_headersused := u\<rparr>)"

lemma only_headers_refl: "only_headers pr pr"
  unfolding only_headers_def
  by (intro exI [of _ "pr_headers pr"] exI [of _ "pr_headerslen pr"] exI [of _ "pr_headersused pr"]) simp

lemma only_headers_trans: "only_headers a b \<Longrightarrow> only_headers b c \<Longrightarrow> only_headers a c"
proof -
  assume "only_headers a b" "only_headers b c"
  then obtain hs n u where "c = a\<lparr>pr_headers := hs, pr_headerslen := n, pr_headersused := u\<rparr>"
    unfolding only_headers_def by fastforce
  then show ?thesis unfolding only_headers_def by blast
qed

text \<open>\<open>path_ok\<close>: the path may be given to \<open>free\<close>.\<close>

definition path_ok :: "ParsedRequest \<Rightarrow> bool" where
  "path_ok pr = (\<forall>p. pr_path pr \<noteq> InBuf p)"

lemma parse_host_port_frame:
  "parse_host_port einval pr p = Some (pr', r) \<Longrightarrow> path_ok pr \<Longrightarrow>
   same_headers pr pr' \<and> (r = 0 \<or> r = -1) \<and> path_ok pr'"
  by (auto simp: parse_host_port_def parse_fail_path_def same_headers_def path_ok_def Let_def
      split: bind_splits if_splits option.splits)

lemma parse_uri_frame:
  "parse_uri einval pr p = Some (pr', r) \<Longrightarrow> path_ok pr \<Longrightarrow>
   same_headers pr pr' \<and> (r = 0 \<or> r = -1) \<and> path_ok pr'"
  by (auto simp: parse_uri_def parse_fail_path_def parse_fail_def Let_def same_headers_def path_ok_def
      split: bind_splits if_splits option.splits dest!: parse_host_port_frame)

lemma parse_request_line_frame:
  "parse_request_line einval pr = Some (pr', r) \<Longrightarrow> path_ok pr \<Longrightarrow>
   same_headers pr pr' \<and> (r = 0 \<or> r = -1) \<and> path_ok pr'"
  by (auto simp: parse_request_line_def parse_fail_def Let_def same_headers_def path_ok_def
      split: bind_splits if_splits option.splits dest!: parse_uri_frame)

lemma ParsedHeader_parse_wf:
  assumes "ParsedHeader_parse realloc_ok pr tmp cur = Some (pr', r)" "header_wf pr" "\<forall>n. realloc_ok n"
  shows "header_wf pr' \<and> (r = 0 \<or> r = -1) \<and> only_headers pr pr'"
proof -
  obtain s where s: "str_at tmp cur = Some s"
    using assms(1) by (auto simp: ParsedHeader_parse_def split: bind_splits)
  show ?thesis
  proof (cases "index s (CHR '':'')")
    case None
    then show ?thesis using assms(1,2) s only_headers_refl by (auto simp: ParsedHeader_parse_def)
  next
    case (Some i)
    with assms(1) s obtain k v rc where
      "ParsedHeader_set realloc_ok pr k v = Some (pr', rc)" "r = 0"
      by (auto simp: ParsedHeader_parse_def split: bind_splits)
    with set_spec [OF assms(2,3), of k v] show ?thesis by (auto simp: only_headers_def)
  qed
qed

lemma parse_headers_wf:
  assumes "parse_headers realloc_ok pr tmp cur = Some (pr', r)" "header_wf pr" "\<forall>n. realloc_ok n"
  shows "header_wf pr' \<and> (r = 0 \<or> r = -1) \<and> only_headers pr pr'"
  using assms
proof (induction realloc_ok pr tmp cur rule: parse_headers.induct)
  case (1 realloc_ok pr tmp cur)
  from "1.prems"(1) obtain s where s: "str_at tmp cur = Some s"
    by (subst (asm) parse_headers.simps) (auto split: bind_splits)
  show ?case
  proof (cases "s = [] \<or> take 2 s = CRLF")
    case True
    with "1.prems" s only_headers_refl show ?thesis by (subst (asm) parse_headers.simps) auto
  next
    case False
    from "1.prems"(1) s False obtain pr1 r1 where
      p1: "ParsedHeader_parse realloc_ok pr tmp cur = Some (pr1, r1)"
      by (subst (asm) parse_headers.simps) (auto split: bind_splits)
    note w1 = ParsedHeader_parse_wf [OF p1 "1.prems"(2,3)]
    show ?thesis
    proof (cases "r1 = 0 \<and> (\<exists>j. strstr s CRLF = Some j \<and> \<not> length (drop j s) < 2)")
      case True
      then obtain j where j: "strstr s CRLF = Some j" "\<not> length (drop j s) < 2" by blast
      with "1.prems"(1) s False p1 True
      have rec: "parse_headers realloc_ok pr1 tmp (cur + j + 2) = Some (pr', r)"
        by (subst (asm) parse_headers.simps) simp
      from "1.IH" [OF s False p1 refl _ j rec] True w1 "1.prems"(3) only_headers_trans
      show ?thesis by blast
    next
      case stop: False
      with "1.prems"(1) s False p1 have "pr' = pr1 \<and> (r = 0 \<or> r = -1)"
        by (subst (asm) parse_headers.simps) (auto split: option.splits if_splits)
      with w1 show ?thesis by blast
    qed
  qed
qed

text \<open>Every defined run of the parser: how it ended, and what it left.\<close>

lemma parse_wf:
  assumes "ParsedRequest_parse einval realloc_ok pr b n = Some (pr', r)" "header_wf pr" "\<forall>n. realloc_ok n"
    and "path_ok pr"
  shows "header_wf pr' \<and> (r = 0 \<or> r = -1) \<and> path_ok pr'"
proof (cases "pr_buf pr \<noteq> None \<or> n < MIN_REQ_LEN \<or> n > MAX_REQ_LEN")
  case True
  with assms show ?thesis by (auto simp: ParsedRequest_parse_def split: if_splits)
next
  case False
  let ?tmp = "take (nat n) b @ [NUL]"
  from assms(1) False obtain s where s: "str_at ?tmp 0 = Some s"
    by (auto simp: ParsedRequest_parse_def Let_def split: if_splits bind_splits)
  show ?thesis
  proof (cases "strstr s (CRLF @ CRLF) = None")
    case True
    with assms False s show ?thesis by (auto simp: ParsedRequest_parse_def Let_def split: if_splits)
  next
    case eoh: False
    with assms(1) False s obtain i pr1 r1 where i: "strstr s CRLF = Some i" and
      p1: "parse_request_line einval (pr\<lparr>pr_buf := Some (take i ?tmp @ [NUL]), pr_buflen := i + 1\<rparr>)
        = Some (pr1, r1)" and
      p2: "(if r1 < 0 then Some (pr1, -1) else parse_headers realloc_ok pr1 ?tmp (i + 2)) = Some (pr', r)"
      unfolding ParsedRequest_parse_def
      by (auto simp: Let_def split: if_splits bind_splits)
    have "path_ok (pr\<lparr>pr_buf := Some (take i ?tmp @ [NUL]), pr_buflen := i + 1\<rparr>)"
      using assms(4) by (simp add: path_ok_def)
    note fr = parse_request_line_frame [OF p1 this]
    then have w: "header_wf pr1" using same_headers_wf header_wf_buf assms(2) by metis
    show ?thesis
    proof (cases "r1 < 0")
      case True
      with p2 w fr show ?thesis by auto
    next
      case False
      with p2 have "parse_headers realloc_ok pr1 ?tmp (i + 2) = Some (pr', r)" by simp
      from parse_headers_wf [OF this w assms(3)] fr show ?thesis
        by (auto simp: only_headers_def path_ok_def)
    qed
  qed
qed


text \<open>A run that succeeds leaves an object that stands for a request.\<close>

lemma cstr_nul_free: "cstr xs = Some s \<Longrightarrow> NUL \<notin> set s"
  by (auto simp: cstr_Some_iff)

lemma parse_success_line:
  assumes "ParsedRequest_parse einval realloc_ok pr b n = Some (pr', 0)"
    and "header_wf pr" "\<forall>k. realloc_ok k" "path_ok pr"
  shows "\<exists>l r. prefix (l @ CRLF) b \<and> spec_line einval l = Some (Some r) \<and> NUL \<notin> set l \<and>
    request_of pr' = Some (r\<lparr>rq_headers := header_list pr'\<rparr>)"
proof -
  let ?tmp = "take (nat n) b @ [NUL]"
  from assms(1) obtain s where s: "str_at ?tmp 0 = Some s"
    by (auto simp: ParsedRequest_parse_def Let_def split: if_splits bind_splits)
  from assms(1) s obtain i pr1 r1 where i: "strstr s CRLF = Some i" and
      p1: "parse_request_line einval (pr\<lparr>pr_buf := Some (take i ?tmp @ [NUL]), pr_buflen := i + 1\<rparr>)
        = Some (pr1, r1)" and
      p2: "(if r1 < 0 then Some (pr1, -1) else parse_headers realloc_ok pr1 ?tmp (i + 2)) = Some (pr', 0)"
    unfolding ParsedRequest_parse_def
    by (auto simp: Let_def split: if_splits bind_splits)
  from s obtain post where tmp: "?tmp = s @ NUL # post" and nul: "NUL \<notin> set s"
    by (auto simp: str_at_def cstr_Some_iff)
  let ?l = "take i s"
  from strstr_Some [OF i] obtain q where "s = ?l @ CRLF @ q" by blast
  then have il: "prefix (?l @ CRLF) s" by (metis append.assoc prefixI)
  then have "i \<le> length s" using prefix_length_le by fastforce
  with tmp have l: "take i ?tmp = ?l" by simp
  have nl: "NUL \<notin> set ?l" using nul set_take_subset by fast
  have "prefix s (take (nat n) b)"
    using tmp by (cases post rule: rev_cases) (auto simp: append_eq_append_conv2)
  with il have pre: "prefix (?l @ CRLF) b"
    by (metis prefix_order.trans take_is_prefix)
  let ?pr0 = "pr\<lparr>pr_buf := Some (?l @ [NUL]), pr_buflen := i + 1\<rparr>"
  have "line_result ?pr0 (spec_line einval ?l) (parse_request_line einval ?pr0)"
    by (rule parse_request_line_spec) (simp_all add: nl)
  moreover have "parse_request_line einval ?pr0 = Some (pr1, r1)" using p1 unfolding l .
  moreover have "r1 \<noteq> -1" using p2 by auto
  ultimately obtain r where r: "spec_line einval ?l = Some (Some r)" "r1 = 0"
    and rq: "request_of pr1 = Some (r\<lparr>rq_headers := header_list pr\<rparr>)"
    by (auto simp: line_result_def header_list_def split: option.splits)
  from p2 r(2) have ph: "parse_headers realloc_ok pr1 ?tmp (i + 2) = Some (pr', 0)" by simp
  have "path_ok (pr\<lparr>pr_buf := Some (take i ?tmp @ [NUL]), pr_buflen := i + 1\<rparr>)"
    using assms(4) by (simp add: path_ok_def)
  from parse_request_line_frame [OF p1 this] have "header_wf pr1"
    using same_headers_wf header_wf_buf assms(2) by metis
  from parse_headers_wf [OF ph this assms(3)] obtain hs k u where
    "pr' = pr1\<lparr>pr_headers := hs, pr_headerslen := k, pr_headersused := u\<rparr>"
    by (auto simp: only_headers_def)
  with request_of_headers [OF rq] pre r nl show ?thesis
    by (intro exI [of _ ?l] exI [of _ r]) simp
qed

lemma token_sub: "set s \<inter> A = {} \<Longrightarrow> set (token ds s) \<inter> A = {}"
  using set_token [of ds s] by blast

lemma spec_uri_facts:
  assumes "spec_uri einval fa ver = Some r"
  shows "rq_protocol r \<noteq> []" "set (rq_protocol r) \<inter> set '':/'' = {}"
    "rq_host r \<noteq> []" "set (rq_host r) \<inter> set '':/'' = {}"
    "take 1 (rq_path r) = ''/''" "take 2 (rq_path r) \<noteq> ''//''"
proof -
  let ?f2 = "after ''://'' fa"
  let ?hp = "token ''/'' ?f2" and ?rest = "after ''/'' ?f2"
  from assms have f: "rq_protocol r = token ''://'' fa" "rq_host r = token '':'' ?hp"
    "rq_path r = ''/'' @ ?rest" "token ''://'' fa \<noteq> []" "token '':'' ?hp \<noteq> []" "take 1 ?rest \<noteq> ''/''"
    by (auto simp: spec_uri_def Let_def split: if_splits)
  then show "rq_protocol r \<noteq> []" "rq_host r \<noteq> []" "take 1 (rq_path r) = ''/''" by simp_all
  show "set (rq_protocol r) \<inter> set '':/'' = {}" using token_delims [of "''://''" fa] f(1) by auto
  have "set ?hp \<inter> set ''/'' = {}" by (rule token_delims)
  then have "set (token '':'' ?hp) \<inter> set ''/'' = {}" by (rule token_sub)
  with token_delims [of "'':''" ?hp] f(2) show "set (rq_host r) \<inter> set '':/'' = {}" by auto
  show "take 2 (rq_path r) \<noteq> ''//''" using f(3,6) by (cases ?rest) (auto simp: eval_nat_numeral)
qed

text \<open>The executable form of \<open>sublist\<close>.\<close>

lemma sublist_strstr: "sublist n s \<longleftrightarrow> strstr s n \<noteq> None"
  by (simp add: strstr_None_iff)

text \<open>A block of memory that \<open>malloc\<close> may return, for the examples below.\<close>

definition zeroed :: ParsedRequest where
  "zeroed = \<lparr>pr_method = Null, pr_protocol = Null, pr_host = Null, pr_port = Null, pr_path = Null,
     pr_version = Null, pr_buf = None, pr_buflen = 0, pr_headers = None, pr_headersused = 0,
     pr_headerslen = 0\<rparr>"

subsection \<open>Properties\<close>





text \<open>C7. Refinement of the request line: for every buffer of a valid length that holds an empty line
  before its first NUL, whatever text l it holds before its first line end (lone carriage returns
  included), the pointer code (\<open>strtok_r\<close> writing NULs into the copied line, the address arithmetic
  on the pieces) does exactly what the string grammar \<open>spec_line\<close> says: where the grammar
  has no answer the code reads past its buffer, where the grammar rejects the parser returns
  -1 with the copy freed, and where the grammar accepts a request the header loop starts on
  an object that stands for that request.\<close>

theorem request_line_refines_grammar:
  assumes "pr_buf pr = None" "MIN_REQ_LEN \<le> int (length b)" "int (length b) \<le> MAX_REQ_LEN"
    and "b @ [NUL] = l @ CRLF @ more_text @ NUL # post"
    and "NUL \<notin> set l" "\<not> sublist CRLF (l @ [CR])" "NUL \<notin> set more_text"
    and "sublist (CRLF @ CRLF) (l @ CRLF @ more_text)"
  shows "case spec_line einval l of
      None \<Rightarrow> ParsedRequest_parse einval realloc_ok pr b (int (length b)) = None
    | Some None \<Rightarrow> \<exists>pr'. ParsedRequest_parse einval realloc_ok pr b (int (length b)) = Some (pr', -1) \<and>
        pr_buf pr' = None
    | Some (Some r) \<Rightarrow> \<exists>pr'. request_of pr' = Some (r\<lparr>rq_headers := header_list pr\<rparr>) \<and>
        same_headers pr pr' \<and>
        ParsedRequest_parse einval realloc_ok pr b (int (length b)) =
          parse_headers realloc_ok pr' (b @ [NUL]) (length l + 2)"
proof -
  let ?pr = "pr\<lparr>pr_buf := Some (l @ [NUL]), pr_buflen := length l + 1\<rparr>"
  have "line_result ?pr (spec_line einval l) (parse_request_line einval ?pr)"
    by (rule parse_request_line_spec) (simp_all add: assms(5))
  then show ?thesis unfolding parse_first_line [OF assms]
    by (auto simp: line_result_def same_headers_def header_list_def assms(4) split: option.splits)
qed

text \<open>A line with a lone carriage return in the path.\<close>

theorem request_line_refines_grammar_witness:
  "\<exists>r pr'. rq_host r = ''b'' \<and> rq_path r = ''/c'' @ [CR] @ ''d'' \<and> request_of pr' = Some r \<and>
     ParsedRequest_parse False (\<lambda>_. True) (ParsedRequest_create zeroed)
       ((''GET /a/b/c'' @ [CR] @ ''d HTTP/1.1'') @ CRLF @ CRLF) 25 =
       parse_headers (\<lambda>_. True) pr' ((''GET /a/b/c'' @ [CR] @ ''d HTTP/1.1'') @ CRLF @ CRLF @ [NUL]) 23"
proof -
  let ?l = "''GET /a/b/c'' @ [CR] @ ''d HTTP/1.1''"
  let ?r = "\<lparr>rq_method = ''GET'', rq_protocol = ''a'', rq_host = ''b'', rq_port = None,
    rq_path = ''/c'' @ [CR] @ ''d'', rq_version = ''HTTP/1.1'', rq_headers = []\<rparr>"
  have s: "spec_line False ?l = Some (Some ?r)"
    by (simp add: spec_line_def spec_uri_def token_def after_def remainder_def skip_def rem_len_def
        chopped_def leading_def)
  have e: "sublist (CRLF @ CRLF) (?l @ CRLF @ CRLF)"
    unfolding sublist_def by (intro exI [of _ ?l] exI [of _ "[]"]) simp
  have c: "\<not> sublist CRLF (?l @ [CR])" unfolding strstr_None_iff [symmetric] by simp
  have n: "length (?l @ CRLF @ CRLF) = 25" "length ?l + 2 = 23" by simp_all
  have new: "pr_buf (ParsedRequest_create zeroed) = None" "header_list (ParsedRequest_create zeroed) = []"
    by (simp_all add: ParsedRequest_create_def ParsedHeader_create_def header_list_def)
  have b: "MIN_REQ_LEN \<le> int (length (?l @ CRLF @ CRLF))" "int (length (?l @ CRLF @ CRLF)) \<le> MAX_REQ_LEN"
    unfolding n by (simp_all add: MIN_REQ_LEN_def MAX_REQ_LEN_def)
  have "NUL \<notin> set ?l" "NUL \<notin> set CRLF" "(?l @ CRLF @ CRLF) @ [NUL] = ?l @ CRLF @ CRLF @ NUL # []" by simp_all
  from request_line_refines_grammar [OF new(1) b this(3,1) c this(2) e, of False "\<lambda>_. True"]
  obtain pr' where p: "request_of pr' = Some ?r" "ParsedRequest_parse False (\<lambda>_. True) (ParsedRequest_create zeroed)
       (?l @ CRLF @ CRLF) 25 = parse_headers (\<lambda>_. True) pr' ((?l @ CRLF @ CRLF) @ [NUL]) 23"
    unfolding s n new(2) by auto
  show ?thesis by (intro exI [of _ ?r] exI [of _ pr'] conjI) (simp_all only: p [unfolded append_assoc] append_assoc request.simps)
qed


text \<open>Soundness of acceptance: whatever bytes the client sent, when
  \<open>ParsedRequest_parse\<close> returns 0 the object stands for a request whose method is GET, whose
  version starts with HTTP/, whose protocol and host are non-empty and free of the delimiters
  that end them, and whose path starts with one slash and not with two.\<close>

theorem parse_accepts_sound:
  assumes "ParsedRequest_parse einval realloc_ok (ParsedRequest_create junk) b n = Some (pr, 0)"
    and "\<forall>k. realloc_ok k"
  shows "\<exists>r. request_of pr = Some r \<and> rq_method r = ''GET'' \<and> prefix ''HTTP/'' (rq_version r) \<and>
    rq_protocol r \<noteq> [] \<and> set (rq_protocol r) \<inter> set '':/'' = {} \<and>
    rq_host r \<noteq> [] \<and> set (rq_host r) \<inter> set '':/'' = {} \<and>
    take 1 (rq_path r) = ''/'' \<and> take 2 (rq_path r) \<noteq> ''//''"
proof -
  have "path_ok (ParsedRequest_create junk)"
    by (simp add: ParsedRequest_create_def path_ok_def)
  from parse_success_line [OF assms(1) create_wf assms(2) this] obtain l r where
    r: "spec_line einval l = Some (Some r)"
      "request_of pr = Some (r\<lparr>rq_headers := header_list pr\<rparr>)" by blast
  from r(1) have v: "prefix ''HTTP/'' (rq_version r)" "rq_method r = ''GET''"
    by (auto simp: spec_line_def Let_def split: if_splits dest: spec_uri_fields)
  from r(1) obtain fa ver where "spec_uri einval fa ver = Some r"
    by (auto simp: spec_line_def Let_def split: if_splits)
  note u = spec_uri_facts [OF this]
  show ?thesis by (rule exI [OF _, of _ "r\<lparr>rq_headers := header_list pr\<rparr>"]) (use r(2) u v in simp)
qed

theorem parse_accepts_sound_witness:
  "\<exists>pr r. ParsedRequest_parse False (\<lambda>_. True) (ParsedRequest_create zeroed)
      (''GET /a/b/c HTTP/1.1'' @ CRLF @ CRLF) 23 = Some (pr, 0) \<and>
    request_of pr = Some r \<and> rq_method r = ''GET''"
proof -
  let ?b = "''GET /a/b/c HTTP/1.1'' @ CRLF @ CRLF"
  have s: "spec_line False ''GET /a/b/c HTTP/1.1'' = Some (Some \<lparr>rq_method = ''GET'',
     rq_protocol = ''a'', rq_host = ''b'', rq_port = None, rq_path = ''/c'',
     rq_version = ''HTTP/1.1'', rq_headers = []\<rparr>)"
    by (simp add: spec_line_def spec_uri_def token_def after_def remainder_def skip_def rem_len_def
        chopped_def leading_def)
  let ?pr = "(ParsedRequest_create zeroed)\<lparr>pr_buf := Some (''GET /a/b/c HTTP/1.1'' @ [NUL]), pr_buflen := 20\<rparr>"
  have "line_result ?pr (spec_line False ''GET /a/b/c HTTP/1.1'') (parse_request_line False ?pr)"
    by (rule parse_request_line_spec) simp_all
  then obtain pr' where pr': "parse_request_line False ?pr = Some (pr', 0)"
    by (auto simp: s line_result_def)
  have "parse_headers (\<lambda>_. True) pr' (?b @ [NUL]) 21 = Some (pr', 0)"
    by (subst parse_headers.simps) (simp add: str_at_def)
  with pr' have "ParsedRequest_parse False (\<lambda>_. True) (ParsedRequest_create zeroed) ?b 23 = Some (pr', 0)"
    by (simp add: ParsedRequest_parse_def ParsedRequest_create_def ParsedHeader_create_def
        MIN_REQ_LEN_def MAX_REQ_LEN_def Let_def str_at_def numeral_eq_Suc cong: if_cong)
  with parse_accepts_sound [OF this] show ?thesis by auto
qed


text \<open>The parser rejects without touching the object: a second parse of a used object, a
  length outside 4..65535, and a buffer in which no empty line ends the header before its
  first NUL all give -1 and leave every field, the header table included, as it was.\<close>

theorem parse_rejects_unchanged:
  assumes "int (length b) < 2147483648"
    and "pr_buf pr \<noteq> None \<or> int (length b) < 4 \<or> 65535 < int (length b) \<or>
      \<not> sublist (CRLF @ CRLF) (takeWhile (\<lambda>c. c \<noteq> NUL) b)"
  shows "ParsedRequest_parse einval realloc_ok pr b (int (length b)) = Some (pr, -1)"
proof -
  have "str_at (b @ [NUL]) 0 = Some (takeWhile (\<lambda>c. c \<noteq> NUL) b)"
    by (induction b) (auto simp: str_at_def)
  with assms show ?thesis
    by (auto simp: ParsedRequest_parse_def MIN_REQ_LEN_def MAX_REQ_LEN_def Let_def strstr_None_iff
        cong: if_cong)
qed

theorem parse_rejects_unchanged_witness:
  "ParsedRequest_parse False (\<lambda>_. True) (ParsedRequest_create zeroed) ''GET http://a/b HTTP/1.0'' 23 =
    Some (ParsedRequest_create zeroed, -1)"
proof -
  have "\<not> sublist (CRLF @ CRLF) ''GET http://a/b HTTP/1.0''"
    by (simp add: sublist_strstr)
  with parse_rejects_unchanged [of "''GET http://a/b HTTP/1.0''" "ParsedRequest_create zeroed"]
  show ?thesis by simp
qed

text \<open>A request line that ends right after the address, such as \<open>GET http://a/\<close> with no
  version, makes the parser read past the end of the copy of the request line:
  \<open>full_addr + strlen(full_addr) + 1\<close> is outside the block, and the NULL test that is meant to
  catch a missing version never fires. So the run is undefined for every such request, whatever
  headers and body follow.\<close>

theorem missing_version_overread:
  assumes "addr \<noteq> []" "set addr \<inter> {NUL, CR, CHR '' ''} = {}"
    and "b @ [NUL] = (''GET '' @ addr) @ CRLF @ more_text @ NUL # post" "NUL \<notin> set more_text"
    and "sublist (CRLF @ CRLF) ((''GET '' @ addr) @ CRLF @ more_text)"
    and "int (length b) \<le> MAX_REQ_LEN"
  shows "ParsedRequest_parse einval realloc_ok (ParsedRequest_create junk) b (int (length b)) = None"
proof -
  have l: "''GET '' @ addr = [] @ ''GET'' @ CHR '' '' # addr" by simp
  have t1: "token '' '' (''GET '' @ addr) = ''GET''" "after '' '' (''GET '' @ addr) = addr"
    unfolding l by (rule token_app; simp)+
  have t2: "token '' '' addr = addr" "remainder '' '' addr = []"
    using token_none [of addr "'' ''"] assms(2) by auto
  have s: "spec_line einval (''GET '' @ addr) = None"
    using t1 t2 assms(1) by (simp add: spec_line_def)
  have "length (b @ [NUL]) = length ((''GET '' @ addr) @ CRLF @ more_text @ NUL # post)"
    using assms(3) by (rule arg_cong)
  then have n: "MIN_REQ_LEN \<le> int (length b)" by (simp add: MIN_REQ_LEN_def)
  show ?thesis
    by (rule parse_line_undefined [OF _ n assms(6,3) _ _ assms(4,5) s])
      (use assms(2) in \<open>auto simp: ParsedRequest_create_def\<close>)
qed

theorem missing_version_overread_witness:
  "ParsedRequest_parse False (\<lambda>_. True) (ParsedRequest_create zeroed)
    (''GET http://a/'' @ CRLF @ CRLF) 17 = None"
  using missing_version_overread [of "''http://a/''" "''GET http://a/'' @ CRLF @ CRLF" CRLF "[]"]
  by (simp add: MAX_REQ_LEN_def sublist_strstr)

text \<open>A well-formed object can be destroyed.\<close>

lemma destroy_wf:
  assumes "header_wf pr" "path_ok pr"
  shows "\<exists>pr'. ParsedRequest_destroy pr = Some pr' \<and> pr_buf pr' = None \<and> pr_headers pr' = None \<and>
    pr_headersused pr' = 0"
proof -
  from assms(1) have "0 < pr_headerslen pr" by (rule header_wfE) simp
  moreover have "header_wf (pr\<lparr>pr_buf := None, pr_path := Null\<rparr>)"
    using assms(1) by (simp add: header_wf_def split: option.splits)
  ultimately show ?thesis
    using assms by (auto simp: ParsedRequest_destroy_def path_ok_def destroy_total split: cptr.splits)
qed

text \<open>C25. Memory safety of the life cycle, when no \<open>realloc\<close> fails: for every buffer and length for
  which the parse of a fresh object is defined at all, the result is 0 or -1, the header table
  is well formed, and \<open>ParsedRequest_destroy\<close> is then defined: it frees no pointer into the middle
  of a block, reads only used slots, and leaves no table behind. (A failing \<open>realloc\<close> is
  \<open>realloc_failure_unnoticed\<close>.)\<close>

theorem parse_destroy_safe:
  assumes "ParsedRequest_parse einval realloc_ok (ParsedRequest_create junk) b n = Some (pr, r)"
    and "\<forall>k. realloc_ok k"
  shows "(r = 0 \<or> r = -1) \<and> header_wf pr \<and>
    (\<exists>pr'. ParsedRequest_destroy pr = Some pr' \<and> pr_buf pr' = None \<and> pr_headers pr' = None \<and>
      pr_headersused pr' = 0)"
proof -
  have "path_ok (ParsedRequest_create junk)"
    by (simp add: ParsedRequest_create_def path_ok_def)
  from parse_wf [OF assms(1) create_wf assms(2) this]
  have w: "header_wf pr" "r = 0 \<or> r = -1" "path_ok pr" by auto
  with destroy_wf [OF w(1,3)] show ?thesis by blast
qed

text \<open>A parsed request with a header, destroyed.\<close>

theorem parse_destroy_safe_witness:
  "\<exists>pr pr'. ParsedRequest_parse True (\<lambda>_. True) (ParsedRequest_create zeroed)
      (''GET http://a.b:80/x HTTP/1.0'' @ CRLF @ ''Host: a.b'' @ CRLF @ CRLF) 43 = Some (pr, 0) \<and>
    header_list pr = [(''Host'', ''a.b'')] \<and> header_wf pr \<and>
    ParsedRequest_destroy pr = Some pr' \<and> pr_headers pr' = None \<and> pr_headersused pr' = 0"
proof -
  let ?r = "\<lparr>rq_method = ''GET'', rq_protocol = ''http'', rq_host = ''a.b'', rq_port = Some ''80'',
    rq_path = ''/x'', rq_version = ''HTTP/1.0'', rq_headers = [(''Host'', ''a.b'')]\<rparr>"
  have ok: "request_ok ?r" by (simp add: request_ok_def header_ok_def eval_nat_numeral)
  have port: "port_ok True ?r" by (simp add: port_ok_def strtol10_def isspace_def isdigit_def to_int32_def)
  have l: "render ?r = ''GET http://a.b:80/x HTTP/1.0'' @ CRLF @ ''Host: a.b'' @ CRLF @ CRLF"
    by (simp add: render_def render_line_def render_addr_def render_headers_def)
  then have n: "length (render ?r @ []) = 43" by simp
  then have m: "int (length (render ?r @ [])) \<le> MAX_REQ_LEN" by (simp only: n) (simp add: MAX_REQ_LEN_def)
  have "pr_buf (ParsedRequest_create zeroed) = None" by (simp add: ParsedRequest_create_def)
  from parse_render [OF this create_wf create_empty ok port _ m, of "\<lambda>_. True"] obtain pr where
    p: "ParsedRequest_parse True (\<lambda>_. True) (ParsedRequest_create zeroed) (render ?r) 43 = Some (pr, 0)"
      "request_of pr = Some ?r" unfolding n by auto
  from parse_destroy_safe [OF p(1)] obtain pr' where
    d: "header_wf pr" "ParsedRequest_destroy pr = Some pr'" "pr_headers pr' = None" "pr_headersused pr' = 0" by auto
  have "header_list pr = [(''Host'', ''a.b'')]" using request_ofD(8) [OF p(2)] by simp
  with p(1) d show ?thesis unfolding l by blast
qed

subsection \<open>Properties of the header table and the header lines\<close>

text \<open>The value a client reads for a key: the lookup, then the slot it points to.\<close>

definition header_value :: "ParsedRequest \<Rightarrow> string \<Rightarrow> string option option" where
  "header_value pr k = do {
     r \<leftarrow> ParsedHeader_get pr (Some k);
     case r of None \<Rightarrow> Some None | Some i \<Rightarrow> do {
       h \<leftarrow> slot pr i;
       v \<leftarrow> ph_value h;
       Some (Some v) } }"

lemma header_value_spec: "header_wf pr \<Longrightarrow> header_value pr k = Some (map_of (header_list pr) k)"
  using get_spec [of pr k] by (auto simp: header_value_def split: option.splits)

text \<open>C26. The header table behaves as a map: after \<open>ParsedHeader_set\<close> (with \<open>realloc\<close>
  succeeding) the lookup of the key gives the new value, the lookup of every other key gives
  what it gave before, and the table keeps its invariant, holes and doublings included.\<close>

theorem header_set_get:
  assumes "header_wf pr"
  shows "\<exists>pr'. ParsedHeader_set (\<lambda>_. True) pr k v = Some (pr', 0) \<and> header_wf pr' \<and>
    (\<forall>k'. header_value pr' k' = (if k' = k then Some (Some v) else header_value pr k'))"
proof -
  from ht.set_lookup [OF assms, of k v] obtain pr' where
    "ParsedHeader_set (\<lambda>_. True) pr k v = Some (pr', 0)" "header_wf pr'"
    "map_of (header_list pr') = (map_of (header_list pr))(k \<mapsto> v)" by blast
  then show ?thesis using header_value_spec assms by auto
qed

theorem header_set_get_witness:
  "\<exists>pr. ParsedHeader_set (\<lambda>_. True) (ParsedRequest_create zeroed) ''Host'' ''a'' = Some (pr, 0) \<and>
    header_value pr ''Host'' = Some (Some ''a'')"
  using header_set_get [OF create_wf, of zeroed "''Host''" "''a''"] by auto

text \<open>\<open>ParsedHeader_remove\<close> deletes exactly the entry of its key: 0 when there was one and
  -1 when there was not, afterwards the key is not found, all other keys are found with their
  old values, and the invariant holds although the slot stays behind as a hole.\<close>

theorem header_remove_get:
  assumes "header_wf pr"
  shows "\<exists>pr'. ParsedHeader_remove pr (Some k) =
      Some (pr', if header_value pr k = Some None then -1 else 0) \<and> header_wf pr' \<and>
    (\<forall>k'. header_value pr' k' = (if k' = k then Some None else header_value pr k'))"
proof -
  from remove_spec [OF assms, of k] obtain pr' where
    p: "ParsedHeader_remove pr (Some k) = Some (pr', if k \<in> fst ` set (header_list pr) then 0 else -1)"
      "header_wf pr'" "header_list pr' = filter (\<lambda>(k', v). k' \<noteq> k) (header_list pr)" by blast
  have f: "map_of (filter (\<lambda>(k', v). k' \<noteq> k) al) k' = (if k' = k then None else map_of al k')"
    for al :: "(string \<times> string) list" and k'
    by (induction al) auto
  have "(map_of (header_list pr) k = None) \<longleftrightarrow> k \<notin> fst ` set (header_list pr)"
    by (rule map_of_eq_None_iff)
  with p f show ?thesis by (auto simp: header_value_spec assms)
qed

theorem header_remove_get_witness:
  "\<exists>pr. ParsedHeader_remove (ParsedRequest_create zeroed) (Some ''Host'') = Some (pr, -1) \<and>
    header_value pr ''Host'' = Some None"
proof -
  have "header_value (ParsedRequest_create zeroed) ''Host'' = Some None"
    by (simp add: header_value_spec create_wf create_empty)
  with header_remove_get [OF create_wf, of zeroed "''Host''"] show ?thesis by auto
qed

text \<open>Repeated headers: on well-formed header lines the loop of \<open>ParsedRequest_parse\<close>
  stores, for each name, the value of its last line, in the order of those last lines, and
  returns 0 at the empty line without looking at what follows it.\<close>

theorem header_lines_last_wins:
  assumes "header_wf pr" "list_all header_ok hl" "NUL \<notin> set rest"
  shows "\<exists>pr'. parse_headers (\<lambda>_. True) pr
      (pre @ concat (map render_header hl) @ CRLF @ rest @ NUL # post) (length pre) = Some (pr', 0) \<and>
    header_wf pr' \<and>
    (\<forall>k. header_value pr' k = (case map_of (rev hl) k of None \<Rightarrow> header_value pr k | Some v \<Rightarrow> Some (Some v)))"
proof -
  from parse_headers_spec [OF assms(1) _ assms(2,3) refl, of "\<lambda>_. True" pre post] obtain pr' where
    p: "parse_headers (\<lambda>_. True) pr
      (pre @ concat (map render_header hl) @ CRLF @ rest @ NUL # post) (length pre) = Some (pr', 0)"
      "header_wf pr'" "header_list pr' = foldl put_header (header_list pr) hl" by auto
  have pm: "map_of (put_header al kv) = (map_of al)(fst kv \<mapsto> snd kv)" for al kv
    unfolding put_header_def by (induction al) (auto simp: fun_eq_iff map_add_def)
  have "map_of (foldl put_header al hl) k
      = (case map_of (rev hl) k of None \<Rightarrow> map_of al k | Some v \<Rightarrow> Some v)" for al k
    by (induction hl arbitrary: al) (auto simp: pm map_add_def split: option.splits)
  with p assms(1) show ?thesis by (auto simp: header_value_spec split: option.splits)
qed

theorem header_lines_last_wins_witness:
  "\<exists>pr. parse_headers (\<lambda>_. True) (ParsedRequest_create zeroed)
      (''A: 1'' @ CRLF @ ''A: 2'' @ CRLF @ CRLF @ [NUL]) 0 = Some (pr, 0) \<and>
    header_value pr ''A'' = Some (Some ''2'')"
  using header_lines_last_wins [OF create_wf, of "[(''A'', ''1''), (''A'', ''2'')]" "[]" zeroed "[]" "[]"]
  by (auto simp: header_ok_def)


lemma str_at_skip:
  assumes "str_at m p = Some (a @ s)"
  shows "str_at m (p + length a) = Some s"
  using str_at_drop [OF assms, of "length a"] by simp

text \<open>A header line without a colon is not rejected: \<open>index\<close> searches the whole rest of
  the buffer, so the key becomes the colon-less line, the line end and the name of the next
  header in one string, stored with the next header's value. The line separator of the
  protocol thus gets into a key, and \<open>unparse_headers\<close> prints it as two lines.\<close>

theorem colonless_line_swallows_next:
  assumes "header_wf pr" "\<forall>n. realloc_ok n"
    and "CHR '':'' \<notin> set a" "CHR '':'' \<notin> set k" "CR \<notin> set v"
    and "str_at tmp cur = Some (a @ CRLF @ k @ '': '' @ v @ CRLF @ suf)"
  shows "\<exists>pr'. ParsedHeader_parse realloc_ok pr tmp cur = Some (pr', 0) \<and>
    header_list pr' = put_header (header_list pr) (a @ CRLF @ k, v) \<and>
    render_header (a @ CRLF @ k, v) = a @ CRLF @ render_header (k, v)"
proof -
  let ?s = "a @ CRLF @ k @ '': '' @ v @ CRLF @ suf" and ?k = "a @ CRLF @ k"
  have i: "index ?s (CHR '':'') = Some (length ?k)"
    using index_append [of "CHR '':''" ?k "CHR '' '' # v @ CRLF @ suf"] assms(3,4) by simp
  have "str_at tmp cur = Some ((?k @ '': '') @ v @ CRLF @ suf)" using assms(6) by simp
  from str_at_skip [OF this] have s2: "str_at tmp (cur + length ?k + 2) = Some (v @ CRLF @ suf)"
    by (simp add: add.assoc)
  have j: "strstr (v @ CRLF @ suf) CRLF = Some (length v)" using strstr_CRLF [OF assms(5)] by simp
  from set_spec [OF assms(1,2), of ?k v] obtain pr' where
    "ParsedHeader_set realloc_ok pr ?k v = Some (pr', 0)"
    "header_list pr' = filter (\<lambda>(k', v). k' \<noteq> ?k) (header_list pr) @ [(?k, v)]" by blast
  with assms(6) i s2 j show ?thesis by (simp add: ParsedHeader_parse_def put_header_def)
qed

theorem colonless_line_swallows_next_witness:
  "\<exists>pr. ParsedHeader_parse (\<lambda>_. True) (ParsedRequest_create zeroed)
      (''abc'' @ CRLF @ ''Host: h'' @ CRLF @ [NUL]) 0 = Some (pr, 0) \<and>
    header_list pr = [(''abc'' @ CRLF @ ''Host'', ''h'')]"
  using colonless_line_swallows_next [OF create_wf, of "\<lambda>_. True" "''abc''" "''Host''" "''h''"
      "''abc'' @ CRLF @ ''Host: h'' @ CRLF @ [NUL]" 0 "[]" zeroed]
  by (auto simp: str_at_def create_empty put_header_def)

text \<open>The value starts two characters behind the colon, whatever the first of them is: a
  header written without the optional space loses the first character of its value.\<close>

theorem header_value_skips_two:
  assumes "header_wf pr" "\<forall>n. realloc_ok n"
    and "CHR '':'' \<notin> set k" "CR \<notin> set v"
    and "str_at tmp cur = Some (k @ CHR '':'' # c # v @ CRLF @ suf)"
  shows "\<exists>pr'. ParsedHeader_parse realloc_ok pr tmp cur = Some (pr', 0) \<and>
    header_value pr' k = Some (Some v)"
proof -
  let ?s = "k @ CHR '':'' # c # v @ CRLF @ suf"
  have i: "index ?s (CHR '':'') = Some (length k)"
    using index_append [of "CHR '':''" k "c # v @ CRLF @ suf"] assms(3) by simp
  have "str_at tmp (cur + (length k + 2)) = Some (drop (length k + 2) ?s)"
    using str_at_drop [OF assms(5), of "length k + 2"] by simp
  then have s2: "str_at tmp (cur + length k + 2) = Some (v @ CRLF @ suf)" by (simp add: add.assoc)
  have j: "strstr (v @ CRLF @ suf) CRLF = Some (length v)" using strstr_CRLF [OF assms(4)] by simp
  from set_spec [OF assms(1,2), of k v] obtain pr' where
    s: "ParsedHeader_set realloc_ok pr k v = Some (pr', 0)" "header_wf pr'"
    "header_list pr' = filter (\<lambda>(k', v). k' \<noteq> k) (header_list pr) @ [(k, v)]" by blast
  have "map_of (filter (\<lambda>(k', v). k' \<noteq> k) al @ [(k, v)]) k = Some v"
    for al :: "(string \<times> string) list" by (induction al) auto
  with s have "header_value pr' k = Some (Some v)" by (simp add: header_value_spec)
  with assms(5) i s2 j s(1) show ?thesis by (simp add: ParsedHeader_parse_def)
qed

theorem header_value_skips_two_witness:
  "\<exists>pr. ParsedHeader_parse (\<lambda>_. True) (ParsedRequest_create zeroed)
      (''Host:example'' @ CRLF @ [NUL]) 0 = Some (pr, 0) \<and> header_value pr ''Host'' = Some (Some ''xample'')"
  using header_value_skips_two [OF create_wf, of "\<lambda>_. True" "''Host''" "''xample''"
      "''Host:example'' @ CRLF @ [NUL]" 0 "CHR ''e''" "[]" zeroed]
  by (simp add: str_at_def)

text \<open>An over-read that a request can trigger: the request line is accepted, the only
  header line has no colon, and the first colon of the buffer stands in the body with no line
  end behind it. The code then computes a value from a NULL \<open>strstr\<close> result, or, when the
  colon is the last byte, starts reading behind the terminator: the run is undefined.\<close>

theorem body_colon_overread:
  assumes "spec_line einval l = Some (Some r)" "NUL \<notin> set l" "CR \<notin> set l"
    and "a \<noteq> []" "set a \<inter> {CHR '':'', CR, NUL} = {}"
    and "set bd \<inter> {CHR '':'', NUL} = {}" "NUL \<notin> set v" "\<not> sublist CRLF v"
    and "b = l @ CRLF @ a @ CRLF @ CRLF @ bd @ CHR '':'' # v"
    and "MIN_REQ_LEN \<le> int (length b)" "int (length b) \<le> MAX_REQ_LEN"
  shows "ParsedRequest_parse einval realloc_ok (ParsedRequest_create junk) b (int (length b)) = None"
proof -
  let ?pr = "ParsedRequest_create junk"
  let ?k = "a @ CRLF @ CRLF @ bd"
  let ?more = "?k @ CHR '':'' # v"
  have b: "b @ [NUL] = l @ CRLF @ ?more @ NUL # []" using assms(9) by simp
  have nm: "NUL \<notin> set ?more" using assms(5-7) by auto
  have eoh: "sublist (CRLF @ CRLF) (l @ CRLF @ ?more)"
    unfolding sublist_def
    by (intro exI [of _ "l @ CRLF @ a"] exI [of _ "bd @ CHR '':'' # v"]) simp
  have new: "pr_buf ?pr = None" by (simp add: ParsedRequest_create_def)
  let ?pr1 = "?pr\<lparr>pr_buf := Some (l @ [NUL]), pr_buflen := length l + 1\<rparr>"
  have "line_result ?pr1 (spec_line einval l) (parse_request_line einval ?pr1)"
    by (rule parse_request_line_spec) (simp_all add: assms(2))
  then obtain pr2 where p2: "parse_request_line einval ?pr1 = Some (pr2, 0)"
    by (auto simp: assms(1) line_result_def)
  let ?tmp = "l @ CRLF @ ?more @ [NUL]" and ?cur = "length l + 2"
  have tmp: "?tmp = (l @ CRLF) @ ?more @ NUL # []" by simp
  have s: "str_at ?tmp ?cur = Some ?more"
    unfolding tmp using nm by (intro str_at_append) simp_all
  have i: "index ?more (CHR '':'') = Some (length ?k)"
    using assms(5,6) by (intro index_append) auto
  have "(do { s2 \<leftarrow> str_at ?tmp (?cur + length ?k + 2); strstr s2 CRLF }) = None"
  proof (cases v)
    case Nil
    then have "str_at ?tmp (?cur + length ?k + 2) = None" by (simp add: str_at_def)
    then show ?thesis by simp
  next
    case (Cons c w)
    have "str_at ?tmp ?cur = Some ((?k @ '':'' @ [c]) @ w)" using s Cons by simp
    from str_at_skip [OF this] have "str_at ?tmp (?cur + length ?k + 2) = Some w"
      by (simp add: add.assoc)
    moreover have "strstr w CRLF = None"
      using assms(8) Cons by (simp add: sublist_Cons_right strstr_None_iff)
    ultimately show ?thesis by simp
  qed
  then have "ParsedHeader_parse realloc_ok pr2 ?tmp ?cur = None"
    using s i by (auto simp: ParsedHeader_parse_def split: bind_splits option.splits)
  moreover have "?more \<noteq> [] \<and> take 2 ?more \<noteq> CRLF"
    using assms(4,5) by (cases a) (auto simp: eval_nat_numeral)
  ultimately have "parse_headers realloc_ok pr2 ?tmp ?cur = None"
    using s by (subst parse_headers.simps) (simp split: if_splits)
  then show ?thesis
    using parse_line_stage [OF new assms(10,11) b assms(2,3) nm eoh] p2 by simp
qed


theorem body_colon_overread_witness:
  "ParsedRequest_parse False (\<lambda>_. True) (ParsedRequest_create zeroed)
    (''GET http://a/b HTTP/1.0'' @ CRLF @ ''foo'' @ CRLF @ CRLF @ ''x:'') 34 = None"
proof -
  let ?l = "''GET http://a/b HTTP/1.0''"
  have "spec_line False ?l = Some (Some \<lparr>rq_method = ''GET'', rq_protocol = ''http'',
     rq_host = ''a'', rq_port = None, rq_path = ''/b'', rq_version = ''HTTP/1.0'', rq_headers = []\<rparr>)"
    by (simp add: spec_line_def spec_uri_def token_def after_def remainder_def skip_def rem_len_def
        chopped_def leading_def)
  moreover have "\<not> sublist CRLF []" by simp
  ultimately show ?thesis
    using body_colon_overread [of False ?l _ "''foo''" "''x''" "[]"
        "?l @ CRLF @ ''foo'' @ CRLF @ CRLF @ ''x:''" "\<lambda>_. True" zeroed]
    by (simp add: MIN_REQ_LEN_def MAX_REQ_LEN_def)
qed

text \<open>Out of memory while the table grows: \<open>ParsedHeader_set\<close> assigns the NULL of a
  failed \<open>realloc\<close> to \<open>headers\<close> and returns -1, but \<open>ParsedHeader_parse\<close> drops that code and
  reports success. The object is left with a count of used slots and no slots: looking a
  header up, measuring the request and destroying it are all undefined afterwards.\<close>

theorem realloc_failure_unnoticed:
  assumes "header_wf pr" "pr_headerslen pr = pr_headersused pr + 1" "0 < pr_headersused pr"
    and "\<not> realloc_ok (pr_headerslen pr * 2)"
    and "header_ok (k, v)" "str_at tmp cur = Some (render_header (k, v) @ suf)"
  shows "\<exists>pr'. ParsedHeader_set realloc_ok pr k v = Some (pr', -1) \<and>
    ParsedHeader_parse realloc_ok pr tmp cur = Some (pr', 0) \<and>
    ParsedHeader_get pr' (Some k) = None \<and> ParsedHeader_destroy pr' = None"
proof -
  from set_realloc_fails [of pr realloc_ok k v] assms(1,2,4) obtain pr' where
    p: "ParsedHeader_set realloc_ok pr k v = Some (pr', -1)" "pr_headers pr' = None"
      "pr_headersused pr' = pr_headersused pr" by blast
  then have "slot pr' 0 = None" by (simp add: slot_def)
  then have g: "ParsedHeader_get pr' (Some k) = None" "ParsedHeader_destroy pr' = None"
    using assms(3) p(3)
    by (simp_all add: ParsedHeader_get_def ParsedHeader_destroy_def get_loop.simps [of _ _ 0]
        gr0_conv_Suc) (auto simp: gr0_conv_Suc)
  let ?s = "k @ '': '' @ v @ CRLF @ suf"
  have i: "index (render_header (k, v) @ suf) (CHR '':'') = Some (length k)"
    using assms(5) index_append [of "CHR '':''" k "CHR '' '' # v @ CRLF @ suf"]
    by (simp add: header_ok_def)
  have "str_at tmp cur = Some ((k @ '': '') @ v @ CRLF @ suf)" using assms(6) by simp
  from str_at_skip [OF this] have s2: "str_at tmp (cur + length k + 2) = Some (v @ CRLF @ suf)"
    by (simp add: add.assoc)
  have "strstr (v @ CRLF @ suf) CRLF = Some (length v)"
    using assms(5) strstr_CRLF [of v suf] by (simp add: header_ok_def)
  with i s2 assms(6) p(1) g show ?thesis by (auto simp: ParsedHeader_parse_def)
qed

theorem realloc_failure_unnoticed_witness:
  "\<exists>pr pr'. header_list pr = map (\<lambda>c. ([c], ''1'')) ''abcdefg'' \<and>
    ParsedHeader_parse (\<lambda>n. n < 16) pr (''h: 1'' @ CRLF @ CRLF @ [NUL]) 0 = Some (pr', 0) \<and>
    ParsedHeader_get pr' (Some ''h'') = None"
proof -
  let ?pr = "(ParsedRequest_create zeroed)\<lparr>pr_headersused := 7, pr_headers := Some (map
    (\<lambda>c. \<lparr>ph_key = Some [c], ph_keylen = 2, ph_value = Some ''1'', ph_valuelen = 2\<rparr>) ''abcdefg'')\<rparr>"
  have "header_wf ?pr" "header_list ?pr = map (\<lambda>c. ([c], ''1'')) ''abcdefg''"
    by (simp_all add: header_wf_def header_list_def slot_ok_def ParsedRequest_create_def
        ParsedHeader_create_def DEFAULT_NHDRS_def)
  with realloc_failure_unnoticed [of ?pr "\<lambda>n. n < 16" "''h''" "''1''"
      "''h: 1'' @ CRLF @ CRLF @ [NUL]" 0 CRLF]
  have "\<exists>pr'. ParsedHeader_parse (\<lambda>n. n < 16) ?pr (''h: 1'' @ CRLF @ CRLF @ [NUL]) 0 = Some (pr', 0) \<and>
    ParsedHeader_get pr' (Some ''h'') = None"
    by (auto simp: ParsedRequest_create_def ParsedHeader_create_def DEFAULT_NHDRS_def header_ok_def
        str_at_def)
  with \<open>header_list ?pr = _\<close> show ?thesis by blast
qed

text \<open>\<open>ParsedRequest_unparse_headers\<close> writes into the \<open>len\<close> bytes it is given exactly the
  headers, one line each and the empty line, leaves every other byte of the buffer alone (it
  adds no terminating NUL), and returns -1 without writing when they do not fit.\<close>

theorem unparse_headers_exact:
  assumes "header_wf pr" "pr_buf pr \<noteq> None" "headers_fit pr" "off + len \<le> length m"
  shows "ParsedRequest_unparse_headers pr m off len =
    (let h = render_headers (header_list pr)
     in if len < length h then Some (m, -1)
        else Some (take off m @ h @ drop (off + length h) m, 0))"
  using unparse_headers_spec [OF assms] by (simp add: Let_def)

theorem unparse_headers_exact_witness:
  "ParsedRequest_unparse_headers ((ParsedRequest_create zeroed)\<lparr>pr_buf := Some [NUL]\<rparr>) ''abcd'' 1 2 =
    Some (CHR ''a'' # CRLF @ ''d'', 0)"
  using unparse_headers_exact [of "(ParsedRequest_create zeroed)\<lparr>pr_buf := Some [NUL]\<rparr>" 1 2 "''abcd''"]
  by (simp add: render_headers_def header_wf_def ParsedRequest_create_def ParsedHeader_create_def
      DEFAULT_NHDRS_def header_list_def)

subsection \<open>Scripts over the interface\<close>

text \<open>
  What a user of the parser does with a parsed object: any sequence of \<open>ParsedHeader_set\<close>,
  \<open>ParsedHeader_remove\<close> and \<open>ParsedHeader_get\<close>. The results of the lookups are collected.
\<close>

datatype header_call = Set_Header string string | Remove_Header string | Get_Header string

fun run_calls :: "ParsedRequest \<Rightarrow> header_call list \<Rightarrow> (ParsedRequest \<times> string option list) option" where
  "run_calls pr [] = Some (pr, [])"
| "run_calls pr (Set_Header k v # cs) = do {
     (pr, _) \<leftarrow> ParsedHeader_set (\<lambda>_. True) pr k v;
     run_calls pr cs }"
| "run_calls pr (Remove_Header k # cs) = do {
     (pr, _) \<leftarrow> ParsedHeader_remove pr (Some k);
     run_calls pr cs }"
| "run_calls pr (Get_Header k # cs) = do {
     v \<leftarrow> header_value pr k;
     (pr, vs) \<leftarrow> run_calls pr cs;
     Some (pr, v # vs) }"

text \<open>The same script on a map.\<close>

fun map_calls :: "(string \<rightharpoonup> string) \<Rightarrow> header_call list \<Rightarrow> (string \<rightharpoonup> string) \<times> string option list" where
  "map_calls m [] = (m, [])"
| "map_calls m (Set_Header k v # cs) = map_calls (m(k \<mapsto> v)) cs"
| "map_calls m (Remove_Header k # cs) = map_calls (m(k := None)) cs"
| "map_calls m (Get_Header k # cs) = (let (m', vs) = map_calls m cs in (m', m k # vs))"

lemma map_of_set: "map_of (filter (\<lambda>(k', v). k' \<noteq> k) al @ [(k, v)]) = (map_of al)(k \<mapsto> v)"
  by (induction al) (auto simp: fun_eq_iff map_add_def)

lemma map_of_remove: "map_of (filter (\<lambda>(k', v). k' \<noteq> k) al) = (map_of al)(k := None)"
  by (induction al) (auto simp: fun_eq_iff)

lemma run_calls_spec:
  assumes "header_wf pr" "path_ok pr"
  shows "\<exists>pr'. run_calls pr cs = Some (pr', snd (map_calls (map_of (header_list pr)) cs)) \<and>
    header_wf pr' \<and> path_ok pr' \<and> map_of (header_list pr') = fst (map_calls (map_of (header_list pr)) cs)"
  using assms
proof (induction cs arbitrary: pr)
  case Nil
  then show ?case by simp
next
  case (Cons c cs)
  show ?case
  proof (cases c)
    case (Set_Header k v)
    from set_spec [OF Cons.prems(1), of "\<lambda>_. True" k v] obtain pr1 hs n where
      s: "ParsedHeader_set (\<lambda>_. True) pr k v = Some (pr1, 0)" "header_wf pr1"
        "header_list pr1 = filter (\<lambda>(k', v). k' \<noteq> k) (header_list pr) @ [(k, v)]"
        "pr1 = pr\<lparr>pr_headers := Some hs, pr_headerslen := n, pr_headersused := pr_headersused pr + 1\<rparr>" by blast
    have "path_ok pr1" using s(4) Cons.prems(2) by (simp add: path_ok_def)
    note ih = Cons.IH [OF s(2) this, unfolded s(3) map_of_set]
    show ?thesis unfolding Set_Header run_calls.simps map_calls.simps s(1) Option.bind_lunit prod.case by (rule ih)
  next
    case (Remove_Header k)
    from remove_spec [OF Cons.prems(1), of k] obtain pr1 rc hs where
      s: "ParsedHeader_remove pr (Some k) = Some (pr1, rc)" "header_wf pr1"
        "header_list pr1 = filter (\<lambda>(k', v). k' \<noteq> k) (header_list pr)" "pr1 = pr\<lparr>pr_headers := Some hs\<rparr>" by blast
    have "path_ok pr1" using s(4) Cons.prems(2) by (simp add: path_ok_def)
    note ih = Cons.IH [OF s(2) this, unfolded s(3) map_of_remove]
    show ?thesis unfolding Remove_Header run_calls.simps map_calls.simps s(1) Option.bind_lunit prod.case by (rule ih)
  next
    case (Get_Header k)
    from Cons.IH [OF Cons.prems] show ?thesis
      by (auto simp: Get_Header header_value_spec [OF Cons.prems(1)] split: prod.splits)
  qed
qed

text \<open>C8. The objects of the parser are safe to use: after any defined parse of a fresh object,
  successful or not, every script of \<open>ParsedHeader_set\<close>, \<open>ParsedHeader_remove\<close> and
  \<open>ParsedHeader_get\<close> calls (with \<open>realloc\<close> succeeding) is defined, keeps the object well formed,
  and gives the results the same script gives on a map; afterwards the object can be destroyed.\<close>

theorem header_scripts_typed:
  assumes "ParsedRequest_parse einval realloc_ok (ParsedRequest_create junk) b n = Some (pr, r)"
    and "\<forall>k. realloc_ok k"
  shows "\<exists>pr'. run_calls pr cs = Some (pr', snd (map_calls (map_of (header_list pr)) cs)) \<and> header_wf pr' \<and>
    map_of (header_list pr') = fst (map_calls (map_of (header_list pr)) cs) \<and>
    (\<exists>pr''. ParsedRequest_destroy pr' = Some pr'' \<and> pr_headers pr'' = None)"
proof -
  have p: "path_ok (ParsedRequest_create junk)" by (simp add: ParsedRequest_create_def path_ok_def)
  from parse_wf [OF assms(1) create_wf assms(2) p] have "header_wf pr" "path_ok pr" by auto
  from run_calls_spec [OF this, of cs] obtain pr' where
    "run_calls pr cs = Some (pr', snd (map_calls (map_of (header_list pr)) cs))" "header_wf pr'" "path_ok pr'"
    "map_of (header_list pr') = fst (map_calls (map_of (header_list pr)) cs)" by blast
  with destroy_wf [of pr'] show ?thesis by blast
qed

theorem header_scripts_typed_witness:
  "\<exists>pr pr'. ParsedRequest_parse False (\<lambda>_. True) (ParsedRequest_create zeroed) ''GET'' 3 = Some (pr, -1) \<and>
    run_calls pr [Set_Header ''Host'' ''h'', Get_Header ''Host'', Remove_Header ''Host'', Get_Header ''Host'']
      = Some (pr', [Some ''h'', None])"
proof -
  have p: "ParsedRequest_parse False (\<lambda>_. True) (ParsedRequest_create zeroed) ''GET'' 3
    = Some (ParsedRequest_create zeroed, -1)"
    by (simp add: ParsedRequest_parse_def MIN_REQ_LEN_def)
  with header_scripts_typed [OF p, of "[Set_Header ''Host'' ''h'', Get_Header ''Host'', Remove_Header ''Host'', Get_Header ''Host'']"]
  show ?thesis by auto
qed

end
