(* ===== verification/Cache_Strategy.thy ===== *)
theory Cache_Strategy
  imports Prelude
begin

text \<open>
  The cache of the multi-strategy proxy: the element of \<^verbatim>\<open>CacheStrategy.hpp\<close> and
  its interface as a locale. The operations take what the code obtains from outside: the
  address \<open>new\<close> returns, and the current time. \<open>None\<close> is undefined behaviour.
\<close>

record cache_element =
  ce_data :: block
  ce_len :: int
  ce_url :: string
  ce_time :: int

text \<open>
  The interface: \<open>lookup\<close> is the data a cache holds for a URL, \<open>used\<close> the addresses that are
  allocated, \<open>element\<close> what a returned address points to.
\<close>

locale cache_strategy =
  fixes find :: "'c \<Rightarrow> string \<Rightarrow> int \<Rightarrow> ('c \<times> nat option) option"
    and add :: "'c \<Rightarrow> nat \<Rightarrow> int \<Rightarrow> string \<Rightarrow> block \<Rightarrow> int \<Rightarrow> 'c option"
    and remove :: "'c \<Rightarrow> string \<Rightarrow> 'c option"
    and lookup :: "'c \<Rightarrow> string \<Rightarrow> block option"
    and element :: "'c \<Rightarrow> nat \<Rightarrow> block option"
    and used :: "'c \<Rightarrow> nat set"
    and inv :: "'c \<Rightarrow> bool"
  assumes find_law: "inv c \<Longrightarrow> \<exists>c' r. find c u now = Some (c', r) \<and> inv c' \<and> lookup c' = lookup c \<and>
      used c' = used c \<and>
      (case r of None \<Rightarrow> lookup c u = None | Some a \<Rightarrow> lookup c u \<noteq> None \<and> element c' a = lookup c u)"
    and add_law: "inv c \<Longrightarrow> a \<notin> used c \<Longrightarrow> n = int (length d) \<Longrightarrow>
      \<exists>c'. add c a now u d n = Some c' \<and> inv c' \<and>
        lookup c' u = (if lookup c u = None then Some d else lookup c u) \<and>
        (\<forall>u'. u' \<noteq> u \<longrightarrow> lookup c' u' \<noteq> None \<longrightarrow> lookup c' u' = lookup c u')"
    and remove_law: "inv c \<Longrightarrow> \<exists>c'. remove c u = Some c' \<and> inv c' \<and>
      lookup c' = (lookup c)(u := None)"
begin

lemma add_then_find:
  assumes "inv c" "a \<notin> used c" "lookup c u = None"
  shows "\<exists>c1 c2 b. add c a t1 u d (int (length d)) = Some c1 \<and> find c1 u t2 = Some (c2, Some b) \<and>
    element c2 b = Some d"
proof -
  from add_law [OF assms(1,2) refl, of t1 u d] obtain c1 where
    c1: "add c a t1 u d (int (length d)) = Some c1" "inv c1" "lookup c1 u = Some d"
    using assms(3) by auto
  from find_law [OF c1(2), of u t2] c1(1,3) show ?thesis by (auto split: option.splits)
qed

lemma remove_then_find:
  assumes "inv c"
  shows "\<exists>c1 c2. remove c u = Some c1 \<and> find c1 u t = Some (c2, None)"
proof -
  from remove_law [OF assms, of u] obtain c1 where
    c1: "remove c u = Some c1" "inv c1" "lookup c1 u = None" by auto
  from find_law [OF c1(2), of u t] c1(1,3) show ?thesis by (auto split: option.splits)
qed

text \<open>
  The client: a request for a URL is answered from the cache, or fetched from the origin
  server, sent on and added. \<open>faithful\<close>: every cached response is the one the origin gives.
\<close>

definition faithful :: "(string \<Rightarrow> block) \<Rightarrow> 'c \<Rightarrow> bool" where
  "faithful origin c = (\<forall>u d. lookup c u = Some d \<longrightarrow> d = origin u)"

definition serve :: "(string \<Rightarrow> block) \<Rightarrow> 'c \<Rightarrow> nat \<Rightarrow> int \<Rightarrow> int \<Rightarrow> string \<Rightarrow> ('c \<times> block) option" where
  "serve origin c a t1 t2 u = do {
     (c, r) \<leftarrow> find c u t1;
     case r of
       Some b \<Rightarrow> do { d \<leftarrow> element c b; Some (c, d) }
     | None \<Rightarrow> do { c \<leftarrow> add c a t2 u (origin u) (int (length (origin u))); Some (c, origin u) } }"

lemma serve_transparent:
  assumes "inv c" "faithful origin c" "a \<notin> used c"
  shows "\<exists>c'. serve origin c a t1 t2 u = Some (c', origin u) \<and> inv c' \<and> faithful origin c'"
proof -
  from find_law [OF assms(1), of u t1] obtain c1 r where
    f: "find c u t1 = Some (c1, r)" "inv c1" "lookup c1 = lookup c" "used c1 = used c" and
    cs: "case r of None \<Rightarrow> lookup c u = None
      | Some b \<Rightarrow> lookup c u \<noteq> None \<and> element c1 b = lookup c u" by blast
  have fa: "faithful origin c1" using assms(2) f(3) by (simp add: faithful_def)
  show ?thesis
  proof (cases r)
    case (Some b)
    with cs assms(2) have "element c1 b = Some (origin u)" by (auto simp: faithful_def)
    with f Some fa show ?thesis by (simp add: serve_def)
  next
    case None
    from add_law [OF f(2), of a _ "origin u" t2 u] assms(3) f(4) obtain c2 where
      c2: "add c1 a t2 u (origin u) (int (length (origin u))) = Some c2" "inv c2"
        "lookup c2 u = (if lookup c1 u = None then Some (origin u) else lookup c1 u)"
        "\<forall>u'. u' \<noteq> u \<longrightarrow> lookup c2 u' \<noteq> None \<longrightarrow> lookup c2 u' = lookup c1 u'" by blast
    have "faithful origin c2" unfolding faithful_def
    proof (intro allI impI)
      fix u' d assume "lookup c2 u' = Some d"
      with c2(3,4) fa show "d = origin u'"
        by (cases "u' = u") (auto simp: faithful_def split: if_splits)
    qed
    with f None c2 show ?thesis by (simp add: serve_def)
  qed
qed

end

end
