(* ===== verification/LRU_Cache.thy ===== *)
theory LRU_Cache
  imports Cache_Strategy
begin

text \<open>
  \<^verbatim>\<open>LRUCache.cpp\<close>: the list of element pointers, most recently used first, the
  hash map from URLs to list positions, and the elements on the heap. A list node is named
  by the address of the element it holds; the invariant says that the nodes hold distinct
  addresses. Every method runs under \<open>cache_mutex\<close>, so it is one step. Below the operations
  stands the abstract cache, a list of (URL, data) pairs in order of recency.
\<close>

subsection \<open>State and operations\<close>

record LRUCache =
  capacity :: nat
  cache_list :: "nat list"
  cache_map :: "string \<rightharpoonup> nat"
  heap :: "nat \<rightharpoonup> cache_element"

definition LRUCache_new :: "nat \<Rightarrow> LRUCache" where
  "LRUCache_new cap = \<lparr>capacity = cap, cache_list = [], cache_map = Map.empty, heap = Map.empty\<rparr>"

text \<open>\<open>splice\<close> of a node of the list itself; undefined for an iterator that is not in it.\<close>

definition LRUCache_moveToFront :: "LRUCache \<Rightarrow> nat \<Rightarrow> LRUCache option" where
  "LRUCache_moveToFront c it =
    (if it \<in> set (cache_list c)
     then Some (c\<lparr>cache_list := it # removeAll it (cache_list c)\<rparr>) else None)"

definition LRUCache_find :: "LRUCache \<Rightarrow> string \<Rightarrow> int \<Rightarrow> (LRUCache \<times> nat option) option" where
  "LRUCache_find c url now = (case cache_map c url of
       None \<Rightarrow> Some (c, None)
     | Some it \<Rightarrow> do {
         c \<leftarrow> LRUCache_moveToFront c it;
         e \<leftarrow> heap c it;
         Some (c\<lparr>heap := (heap c)(it \<mapsto> e\<lparr>ce_time := now\<rparr>)\<rparr>, Some it) })"

text \<open>\<open>back()\<close> of an empty list is undefined.\<close>

definition LRUCache_evict :: "LRUCache \<Rightarrow> LRUCache option" where
  "LRUCache_evict c = (if cache_list c = [] then None else do {
     let elem = last (cache_list c);
     e \<leftarrow> heap c elem;
     Some (c\<lparr>cache_map := (cache_map c)(ce_url e := None), cache_list := butlast (cache_list c),
       heap := (heap c)(elem := None)\<rparr>) })"

text \<open>
  \<open>new_element\<close> is the address that \<open>new\<close> returns. Copying \<open>len\<close> bytes is undefined when
  there are fewer.
\<close>

definition LRUCache_add ::
  "LRUCache \<Rightarrow> nat \<Rightarrow> int \<Rightarrow> string \<Rightarrow> block \<Rightarrow> int \<Rightarrow> LRUCache option" where
  "LRUCache_add c new_element now url data len = (case cache_map c url of
       Some it \<Rightarrow> LRUCache_moveToFront c it
     | None \<Rightarrow> do {
         c \<leftarrow> (if length (cache_list c) \<ge> capacity c then LRUCache_evict c else Some c);
         if len < 0 \<or> int (length data) < len then None
         else Some (c\<lparr>heap := (heap c)(new_element \<mapsto> \<lparr>ce_data = take (nat len) data, ce_len = len,
             ce_url = url, ce_time = now\<rparr>),
           cache_list := new_element # cache_list c,
           cache_map := (cache_map c)(url \<mapsto> new_element)\<rparr>) })"

definition LRUCache_remove :: "LRUCache \<Rightarrow> string \<Rightarrow> LRUCache option" where
  "LRUCache_remove c url = (case cache_map c url of
       None \<Rightarrow> Some c
     | Some it \<Rightarrow> if it \<notin> set (cache_list c) \<or> heap c it = None then None
         else Some (c\<lparr>cache_list := removeAll it (cache_list c),
           cache_map := (cache_map c)(url := None), heap := (heap c)(it := None)\<rparr>))"

fun free_all :: "nat list \<Rightarrow> (nat \<rightharpoonup> cache_element) \<Rightarrow> (nat \<rightharpoonup> cache_element) option" where
  "free_all [] h = Some h"
| "free_all (a # as) h = (if h a = None then None else free_all as (h(a := None)))"

definition LRUCache_destroy :: "LRUCache \<Rightarrow> (nat \<rightharpoonup> cache_element) option" where
  "LRUCache_destroy c = free_all (cache_list c) (heap c)"

subsection \<open>Invariant and abstraction\<close>

text \<open>
  The list has no duplicates and consists of the allocated elements; the map sends exactly
  the URL of each listed element to it; the list is no longer than the capacity, which is
  not zero.
\<close>

definition lru_wf :: "LRUCache \<Rightarrow> bool" where
  "lru_wf c = (distinct (cache_list c) \<and> set (cache_list c) = dom (heap c) \<and>
     (\<forall>u a. cache_map c u = Some a \<longleftrightarrow> (\<exists>e. heap c a = Some e \<and> ce_url e = u)) \<and>
     (\<forall>a e. heap c a = Some e \<longrightarrow> ce_len e = int (length (ce_data e))) \<and>
     length (cache_list c) \<le> capacity c \<and> 0 < capacity c)"

definition entry :: "(nat \<rightharpoonup> cache_element) \<Rightarrow> nat \<Rightarrow> string \<times> block" where
  "entry h a = (case h a of None \<Rightarrow> ([], []) | Some e \<Rightarrow> (ce_url e, ce_data e))"

definition lru_entries :: "LRUCache \<Rightarrow> (string \<times> block) list" where
  "lru_entries c = map (entry (heap c)) (cache_list c)"

text \<open>The abstract cache.\<close>

definition touch :: "'k \<Rightarrow> ('k \<times> 'v) list \<Rightarrow> ('k \<times> 'v) list" where
  "touch u al = filter (\<lambda>(k, v). k = u) al @ filter (\<lambda>(k, v). k \<noteq> u) al"

definition lru_insert :: "nat \<Rightarrow> 'k \<Rightarrow> 'v \<Rightarrow> ('k \<times> 'v) list \<Rightarrow> ('k \<times> 'v) list" where
  "lru_insert cap u d al = (if u \<in> fst ` set al then touch u al
     else (u, d) # (if length al \<ge> cap then butlast al else al))"

lemma lru_wfD:
  assumes "lru_wf c"
  shows "distinct (cache_list c)" "set (cache_list c) = dom (heap c)"
    "cache_map c u = Some a \<longleftrightarrow> (\<exists>e. heap c a = Some e \<and> ce_url e = u)"
    "length (cache_list c) \<le> capacity c" "0 < capacity c"
  using assms by (auto simp: lru_wf_def)

lemma removeAll_filter: "removeAll x xs = filter (\<lambda>y. y \<noteq> x) xs"
  by (induction xs) auto

text \<open>The URLs of the listed elements are distinct.\<close>

lemma lru_url_inj:
  assumes "lru_wf c" "heap c a = Some e" "heap c b = Some f" "ce_url e = ce_url f"
  shows "a = b"
  using lru_wfD(3) [OF assms(1)] assms(2-4) by (metis option.inject)

lemma entry_fst:
  assumes "lru_wf c" "cache_map c u = Some a" "b \<in> set (cache_list c)"
  shows "fst (entry (heap c) b) = u \<longleftrightarrow> b = a"
proof -
  from assms(3) lru_wfD(2) [OF assms(1)] obtain e where e: "heap c b = Some e" by auto
  with lru_wfD(3) [OF assms(1), of u a] assms(2) lru_url_inj [OF assms(1)] show ?thesis
    by (auto simp: entry_def)
qed

lemma lru_entries_key:
  assumes "lru_wf c"
  shows "u \<in> fst ` set (lru_entries c) \<longleftrightarrow> cache_map c u \<noteq> None"
proof -
  have "u \<in> fst ` set (lru_entries c) \<longleftrightarrow> (\<exists>a e. heap c a = Some e \<and> ce_url e = u)"
    unfolding lru_entries_def using lru_wfD(2) [OF assms] by (force simp: entry_def)
  then show ?thesis using lru_wfD(3) [OF assms] by (metis not_None_eq)
qed

lemma lru_entries_distinct:
  assumes "lru_wf c"
  shows "distinct (map fst (lru_entries c))"
proof -
  have "inj_on (\<lambda>a. fst (entry (heap c) a)) (set (cache_list c))"
  proof (rule inj_onI)
    fix a b assume "a \<in> set (cache_list c)" "b \<in> set (cache_list c)"
      and eq: "fst (entry (heap c) a) = fst (entry (heap c) b)"
    then obtain e f where "heap c a = Some e" "heap c b = Some f"
      using lru_wfD(2) [OF assms] by auto
    with eq lru_url_inj [OF assms] show "a = b" by (auto simp: entry_def)
  qed
  then show ?thesis
    using lru_wfD(1) [OF assms] by (simp add: lru_entries_def distinct_map comp_def)
qed


subsection \<open>The operations implement the abstract cache\<close>

lemma filter_eq_distinct: "distinct xs \<Longrightarrow> a \<in> set xs \<Longrightarrow> filter (\<lambda>y. y = a) xs = [a]"
  by (induction xs) (auto simp: filter_empty_conv)

lemma filter_entries:
  assumes "lru_wf c" "cache_map c u = Some a"
  shows "filter (\<lambda>(k, v). k = u) (lru_entries c) = [entry (heap c) a]"
    and "filter (\<lambda>(k, v). k \<noteq> u) (lru_entries c) = map (entry (heap c)) (removeAll a (cache_list c))"
proof -
  have a: "a \<in> set (cache_list c)"
    using lru_wfD(2) [OF assms(1)] lru_wfD(3) [OF assms(1), of u a] assms(2) by auto
  have f: "filter (\<lambda>(k, v). P (k = u)) (lru_entries c)
      = map (entry (heap c)) (filter (\<lambda>b. P (b = a)) (cache_list c))" for P
    unfolding lru_entries_def filter_map
    by (intro arg_cong [of _ _ "map _"] filter_cong)
      (auto simp: entry_fst [OF assms] case_prod_unfold)
  show "filter (\<lambda>(k, v). k = u) (lru_entries c) = [entry (heap c) a]"
    using f [of "\<lambda>x. x"] filter_eq_distinct [OF lru_wfD(1) [OF assms(1)] a] by simp
  show "filter (\<lambda>(k, v). k \<noteq> u) (lru_entries c) = map (entry (heap c)) (removeAll a (cache_list c))"
    using f [of Not] by (simp add: removeAll_filter)
qed

lemma moveToFront_spec:
  assumes "lru_wf c" "cache_map c u = Some a"
  shows "LRUCache_moveToFront c a = Some (c\<lparr>cache_list := a # removeAll a (cache_list c)\<rparr>)"
    and "lru_wf (c\<lparr>cache_list := a # removeAll a (cache_list c)\<rparr>)"
    and "lru_entries (c\<lparr>cache_list := a # removeAll a (cache_list c)\<rparr>) = touch u (lru_entries c)"
proof -
  have a: "a \<in> set (cache_list c)"
    using lru_wfD(2) [OF assms(1)] lru_wfD(3) [OF assms(1), of u a] assms(2) by auto
  then show "LRUCache_moveToFront c a = Some (c\<lparr>cache_list := a # removeAll a (cache_list c)\<rparr>)"
    by (simp add: LRUCache_moveToFront_def)
  have "length (cache_list c) = Suc (length (removeAll a (cache_list c)))"
    using a lru_wfD(1) [OF assms(1)] by (simp add: distinct_remove1_removeAll [symmetric] length_remove1)
      (metis One_nat_def Suc_pred length_pos_if_in_set)
  then show "lru_wf (c\<lparr>cache_list := a # removeAll a (cache_list c)\<rparr>)"
    using a assms(1) by (auto simp: lru_wf_def distinct_removeAll)
  show "lru_entries (c\<lparr>cache_list := a # removeAll a (cache_list c)\<rparr>) = touch u (lru_entries c)"
    unfolding touch_def filter_entries [OF assms] by (simp add: lru_entries_def)
qed

lemma touch_absent: "u \<notin> fst ` set al \<Longrightarrow> touch u al = al"
proof -
  assume "u \<notin> fst ` set al"
  then have "filter (\<lambda>(k, v). k = u) al = []" "filter (\<lambda>(k, v). k \<noteq> u) al = al"
    by (force simp: filter_empty_conv filter_id_conv)+
  then show ?thesis by (simp add: touch_def)
qed

text \<open>Changing the time of an element is invisible.\<close>

lemma set_time:
  assumes "lru_wf c" "heap c a = Some e"
  shows "lru_wf (c\<lparr>heap := (heap c)(a \<mapsto> e\<lparr>ce_time := now\<rparr>)\<rparr>)"
    and "lru_entries (c\<lparr>heap := (heap c)(a \<mapsto> e\<lparr>ce_time := now\<rparr>)\<rparr>) = lru_entries c"
  using assms by (auto simp: lru_wf_def lru_entries_def entry_def)

lemma find_spec:
  assumes "lru_wf c"
  shows "\<exists>c'. LRUCache_find c u now = Some (c', cache_map c u) \<and> lru_wf c' \<and>
    lru_entries c' = touch u (lru_entries c) \<and> dom (heap c') = dom (heap c) \<and>
    capacity c' = capacity c \<and> cache_map c' = cache_map c \<and>
    (\<forall>a. cache_map c u = Some a \<longrightarrow> (\<exists>e. heap c' a = Some e \<and> ce_url e = u \<and> ce_time e = now \<and>
       entry (heap c) a = (u, ce_data e)))"
proof (cases "cache_map c u")
  case None
  then have "touch u (lru_entries c) = lru_entries c"
    using lru_entries_key [OF assms] by (simp add: touch_absent)
  with None assms show ?thesis by (simp add: LRUCache_find_def)
next
  case (Some a)
  note m = moveToFront_spec [OF assms Some]
  let ?c = "c\<lparr>cache_list := a # removeAll a (cache_list c)\<rparr>"
  from lru_wfD(3) [OF assms, of u a] Some obtain e where e: "heap c a = Some e" "ce_url e = u" by auto
  then have "heap ?c a = Some e" by simp
  from set_time [OF m(2) this, of now] m(1,3) Some e show ?thesis
    by (auto simp: LRUCache_find_def entry_def)
qed

lemma evict_spec:
  assumes "lru_wf c" "cache_list c \<noteq> []"
  shows "\<exists>c'. LRUCache_evict c = Some c' \<and> lru_wf c' \<and> lru_entries c' = butlast (lru_entries c) \<and>
    capacity c' = capacity c \<and> dom (heap c') \<subseteq> dom (heap c) \<and>
    length (cache_list c') + 1 = length (cache_list c)"
proof -
  let ?a = "last (cache_list c)"
  obtain l where l: "cache_list c = l @ [?a]" using assms(2) by (metis append_butlast_last_id)
  have "?a \<in> set (cache_list c)" using assms(2) by simp
  with lru_wfD(2) [OF assms(1)] obtain e where e: "heap c ?a = Some e" by auto
  let ?c = "c\<lparr>cache_map := (cache_map c)(ce_url e := None), cache_list := butlast (cache_list c),
    heap := (heap c)(?a := None)\<rparr>"
  have ev: "LRUCache_evict c = Some ?c" using assms(2) e by (simp add: LRUCache_evict_def)
  have b: "butlast (cache_list c) = l" using l by (metis butlast_snoc)
  have d: "?a \<notin> set l" "distinct l" using lru_wfD(1) [OF assms(1)] l by (metis distinct_append
      disjoint_insert(1) inf_commute list.set(2), metis distinct_append)
  have s: "insert ?a (set l) = dom (heap c)" using lru_wfD(2) [OF assms(1)] l
    by (metis Un_insert_right append_Nil2 list.set(1) list.set(2) set_append)
  have len: "length (cache_list c) = Suc (length l)" using l by (metis length_append_singleton)
  have mp: "((cache_map c)(ce_url e := None)) u = Some x
      \<longleftrightarrow> (\<exists>f. ((heap c)(?a := None)) x = Some f \<and> ce_url f = u)" for u x
    using lru_wfD(3) [OF assms(1)] lru_url_inj [OF assms(1)] e by (auto split: if_splits)
  have "lru_wf ?c"
    unfolding lru_wf_def using mp b d s len assms(1) by (auto simp: lru_wf_def)
  moreover have "lru_entries ?c = butlast (lru_entries c)"
  proof -
    have "map (entry ((heap c)(?a := None))) l = map (entry (heap c)) l"
      using d(1) by (intro map_cong) (auto simp: entry_def)
    moreover have "lru_entries c = map (entry (heap c)) l @ [entry (heap c) ?a]"
      using l by (metis lru_entries_def list.simps(8,9) map_append)
    ultimately show ?thesis by (simp add: lru_entries_def b)
  qed
  ultimately show ?thesis using ev len b by auto
qed


lemma add_hit_spec:
  assumes "lru_wf c" "cache_map c u \<noteq> None"
  shows "\<exists>c'. LRUCache_add c a now u d len = Some c' \<and> lru_wf c' \<and>
    lru_entries c' = touch u (lru_entries c) \<and> capacity c' = capacity c"
proof -
  from assms(2) obtain b where b: "cache_map c u = Some b" by auto
  from moveToFront_spec [OF assms(1) b] b show ?thesis by (simp add: LRUCache_add_def)
qed

lemma push_spec:
  fixes d :: block and now :: int
  assumes wf: "lru_wf c" and room: "length (cache_list c) < capacity c"
    and new: "cache_map c u = None" "a \<notin> dom (heap c)"
  defines "c' \<equiv> c\<lparr>heap := (heap c)(a \<mapsto> \<lparr>ce_data = d, ce_len = int (length d), ce_url = u,
      ce_time = now\<rparr>), cache_list := a # cache_list c, cache_map := (cache_map c)(u \<mapsto> a)\<rparr>"
  shows "lru_wf c'" "lru_entries c' = (u, d) # lru_entries c"
proof -
  have n: "a \<notin> set (cache_list c)" using new(2) lru_wfD(2) [OF wf] by simp
  have nu: "heap c b = Some e \<Longrightarrow> ce_url e \<noteq> u" for b e
    using lru_wfD(3) [OF wf, of u b] new(1) by auto
  have mp: "cache_map c' v = Some b \<longleftrightarrow> (\<exists>e. heap c' b = Some e \<and> ce_url e = v)" for v b
    using lru_wfD(3) [OF wf, of v b] new nu [of b] by (auto simp: c'_def)
  show "lru_wf c'"
    unfolding lru_wf_def using mp wf room n by (auto simp: lru_wf_def c'_def)
  have "map (entry (heap c')) (cache_list c) = map (entry (heap c)) (cache_list c)"
    using n by (intro map_cong) (auto simp: entry_def c'_def)
  then show "lru_entries c' = (u, d) # lru_entries c"
    by (simp add: lru_entries_def c'_def) (simp add: entry_def)
qed

lemma add_spec:
  assumes wf: "lru_wf c" and a: "a \<notin> dom (heap c)" and n: "len = int (length d)"
  shows "\<exists>c'. LRUCache_add c a now u d len = Some c' \<and> lru_wf c' \<and>
    lru_entries c' = lru_insert (capacity c) u d (lru_entries c) \<and> capacity c' = capacity c"
proof (cases "cache_map c u = None")
  case False
  with add_hit_spec [OF wf False] lru_entries_key [OF wf, of u] show ?thesis
    by (simp add: lru_insert_def)
next
  case True
  then have u: "u \<notin> fst ` set (lru_entries c)" using lru_entries_key [OF wf] by simp
  have le: "length (lru_entries c) = length (cache_list c)" by (simp add: lru_entries_def)
  let ?push = "\<lambda>c. c\<lparr>heap := (heap c)(a \<mapsto> \<lparr>ce_data = d, ce_len = int (length d), ce_url = u,
      ce_time = now\<rparr>), cache_list := a # cache_list c, cache_map := (cache_map c)(u \<mapsto> a)\<rparr>"
  show ?thesis
  proof (cases "length (cache_list c) \<ge> capacity c")
    case full: True
    then have "cache_list c \<noteq> []" using lru_wfD(5) [OF wf] by auto
    from evict_spec [OF wf this] obtain c1 where c1: "LRUCache_evict c = Some c1" "lru_wf c1"
      "lru_entries c1 = butlast (lru_entries c)" "capacity c1 = capacity c"
      "dom (heap c1) \<subseteq> dom (heap c)" "length (cache_list c1) + 1 = length (cache_list c)" by blast
    have u1: "cache_map c1 u = None"
      using lru_entries_key [OF c1(2), of u] u c1(3) by (auto dest: in_set_butlastD)
    have "length (cache_list c1) < capacity c1" using c1(4,6) lru_wfD(4) [OF wf] by linarith
    moreover have "a \<notin> dom (heap c1)" using a c1(5) by blast
    ultimately have "lru_wf (?push c1)" "lru_entries (?push c1) = (u, d) # lru_entries c1"
      using push_spec [OF c1(2) _ u1] by blast+
    moreover have "LRUCache_add c a now u d len = Some (?push c1)"
      using True full c1(1) n by (simp add: LRUCache_add_def)
    ultimately show ?thesis using c1(3,4) u full le by (simp add: lru_insert_def)
  next
    case room: False
    then have r: "length (cache_list c) < capacity c" by simp
    have "LRUCache_add c a now u d len = Some (?push c)"
      using True room n by (simp add: LRUCache_add_def)
    with push_spec [OF wf r True a] u room le show ?thesis by (simp add: lru_insert_def)
  qed
qed

lemma delete_wf:
  assumes wf: "lru_wf c" and a: "cache_map c u = Some a"
  defines "c' \<equiv> c\<lparr>cache_list := removeAll a (cache_list c), cache_map := (cache_map c)(u := None),
    heap := (heap c)(a := None)\<rparr>"
  shows "lru_wf c'"
proof -
  from lru_wfD(3) [OF wf, of u a] a obtain e where e: "heap c a = Some e" "ce_url e = u" by blast
  have mp: "((cache_map c)(u := None)) v = Some b
      \<longleftrightarrow> (\<exists>f. ((heap c)(a := None)) b = Some f \<and> ce_url f = v)" for v b
  proof (cases "b = a")
    case True
    have "cache_map c v = Some a \<Longrightarrow> v = u" using lru_wfD(3) [OF wf, of v a] e by simp
    with True show ?thesis by auto
  next
    case False
    with a False lru_wfD(3) [OF wf, of v b] show ?thesis by (cases "v = u") simp_all
  qed
  have "length (removeAll a (cache_list c)) \<le> capacity c"
    by (rule le_trans [OF length_removeAll_less_eq lru_wfD(4) [OF wf]])
  moreover have "distinct (removeAll a (cache_list c))"
    using lru_wfD(1) [OF wf] by (simp add: distinct_removeAll)
  moreover have "set (removeAll a (cache_list c)) = dom ((heap c)(a := None))"
    using lru_wfD(2) [OF wf] by auto
  moreover have "\<forall>b f. ((heap c)(a := None)) b = Some f \<longrightarrow> ce_len f = int (length (ce_data f))"
    using wf by (simp add: lru_wf_def)
  ultimately show ?thesis unfolding lru_wf_def using mp lru_wfD(5) [OF wf] by (simp add: c'_def)
qed

lemma remove_spec_lru:
  assumes wf: "lru_wf c"
  shows "\<exists>c'. LRUCache_remove c u = Some c' \<and> lru_wf c' \<and>
    lru_entries c' = filter (\<lambda>(k, v). k \<noteq> u) (lru_entries c) \<and> capacity c' = capacity c"
proof (cases "cache_map c u")
  case None
  have "filter (\<lambda>(k, v). k \<noteq> u) (lru_entries c) = lru_entries c"
    using lru_entries_key [OF wf, of u] None by (force simp: filter_id_conv)
  with None wf show ?thesis by (simp add: LRUCache_remove_def)
next
  case (Some a)
  let ?c = "c\<lparr>cache_list := removeAll a (cache_list c), cache_map := (cache_map c)(u := None),
    heap := (heap c)(a := None)\<rparr>"
  from lru_wfD(3) [OF wf, of u a] Some obtain e where e: "heap c a = Some e" by blast
  then have "a \<in> set (cache_list c)" using lru_wfD(2) [OF wf] by blast
  with Some e have rm: "LRUCache_remove c u = Some ?c" by (simp add: LRUCache_remove_def)
  have "lru_entries ?c = filter (\<lambda>(k, v). k \<noteq> u) (lru_entries c)"
    unfolding filter_entries(2) [OF wf Some] by (simp add: lru_entries_def entry_def cong: map_cong)
  with rm delete_wf [OF wf Some] show ?thesis by simp
qed

lemma new_wf: "0 < cap \<Longrightarrow> lru_wf (LRUCache_new cap)"
  by (simp add: lru_wf_def LRUCache_new_def)

lemma free_all_total: "distinct as \<Longrightarrow> set as \<subseteq> dom h \<Longrightarrow> free_all as h = Some (h |` (- set as))"
proof (induction as arbitrary: h)
  case Nil
  then show ?case by (simp add: restrict_map_def)
next
  case (Cons a as)
  then obtain e where e: "h a = Some e" by auto
  have "free_all as (h(a := None)) = Some ((h(a := None)) |` (- set as))"
    using Cons by (intro Cons.IH) auto
  moreover have "(h(a := None)) |` (- set as) = h |` (- set (a # as))"
    by (auto simp: restrict_map_def fun_eq_iff)
  ultimately show ?case using e by simp
qed


subsection \<open>The cache interface, provided\<close>

definition lru_lookup :: "LRUCache \<Rightarrow> string \<Rightarrow> block option" where
  "lru_lookup c = map_of (lru_entries c)"

definition lru_element :: "LRUCache \<Rightarrow> nat \<Rightarrow> block option" where
  "lru_element c a = map_option ce_data (heap c a)"

definition lru_used :: "LRUCache \<Rightarrow> nat set" where
  "lru_used c = dom (heap c)"

lemma map_of_filter_key: "map_of (filter (\<lambda>(k, v). P k) al) k = (if P k then map_of al k else None)"
  by (induction al) auto

lemma map_of_touch: "map_of (touch u al) = map_of al"
proof
  fix k
  have "filter (\<lambda>(k, v). k = u) al = filter (\<lambda>(k, v). (\<lambda>k. k = u) k) al" by simp
  then show "map_of (touch u al) k = map_of al k"
    using map_of_filter_key [of "\<lambda>k. k = u" al k] map_of_filter_key [of "\<lambda>k. k \<noteq> u" al k]
    by (auto simp: touch_def map_add_def split: option.splits)
qed

lemma map_of_butlast:
  assumes "map_of (butlast al) k \<noteq> None"
  shows "map_of (butlast al) k = map_of al k"
  using assms by (cases al rule: rev_cases) (auto simp: map_add_def split: option.splits)

lemma key_iff: "k \<in> fst ` set al \<longleftrightarrow> map_of al k \<noteq> None"
  by (simp add: map_of_eq_None_iff)

lemma lru_lookup_entry:
  assumes "lru_wf c" "cache_map c u = Some a" "entry (heap c) a = (u, d)"
  shows "lru_lookup c u = Some d"
proof -
  have "entry (heap c) a \<in> set (filter (\<lambda>(k, v). k = u) (lru_entries c))"
    unfolding filter_entries(1) [OF assms(1,2)] by simp
  then have "(u, d) \<in> set (lru_entries c)" using assms(3) by simp
  with lru_entries_distinct [OF assms(1)] show ?thesis by (simp add: lru_lookup_def)
qed

lemma lru_find_law:
  assumes wf: "lru_wf c"
  shows "\<exists>c' r. LRUCache_find c u now = Some (c', r) \<and> lru_wf c' \<and> lru_lookup c' = lru_lookup c \<and>
      lru_used c' = lru_used c \<and> (case r of None \<Rightarrow> lru_lookup c u = None
      | Some a \<Rightarrow> lru_lookup c u \<noteq> None \<and> lru_element c' a = lru_lookup c u)"
proof -
  from find_spec [OF wf, of u now] obtain c' where f:
    "LRUCache_find c u now = Some (c', cache_map c u)" "lru_wf c'"
    "lru_entries c' = touch u (lru_entries c)" "dom (heap c') = dom (heap c)"
    and el: "\<forall>a. cache_map c u = Some a \<longrightarrow> (\<exists>e. heap c' a = Some e \<and> ce_url e = u \<and> ce_time e = now \<and>
       entry (heap c) a = (u, ce_data e))" by blast
  have l: "lru_lookup c' = lru_lookup c" by (simp add: lru_lookup_def f(3) map_of_touch)
  have "case cache_map c u of None \<Rightarrow> lru_lookup c u = None
    | Some a \<Rightarrow> lru_lookup c u \<noteq> None \<and> lru_element c' a = lru_lookup c u"
  proof (cases "cache_map c u")
    case None
    with lru_entries_key [OF wf, of u] show ?thesis by (simp add: lru_lookup_def key_iff)
  next
    case (Some a)
    with el obtain e where "heap c' a = Some e" "entry (heap c) a = (u, ce_data e)" by blast
    with lru_lookup_entry [OF wf Some] Some show ?thesis by (simp add: lru_element_def)
  qed
  with f l show ?thesis
    by (intro exI [of _ c'] exI [of _ "cache_map c u"]) (simp add: lru_used_def)
qed

text \<open>What the list that an insertion leaves says of the other URLs.\<close>

lemma lru_insert_other:
  assumes "u' \<noteq> u" "map_of (lru_insert cap u d al) u' \<noteq> None"
  shows "map_of (lru_insert cap u d al) u' = map_of al u'"
  using assms map_of_butlast [of al u']
  by (cases "u \<in> fst ` set al"; cases "cap \<le> length al") (auto simp: lru_insert_def map_of_touch)

lemma lru_add_law:
  assumes wf: "lru_wf c" and a: "a \<notin> lru_used c" and n: "n = int (length d)"
  shows "\<exists>c'. LRUCache_add c a now u d n = Some c' \<and> lru_wf c' \<and>
      lru_lookup c' u = (if lru_lookup c u = None then Some d else lru_lookup c u) \<and>
      (\<forall>u'. u' \<noteq> u \<longrightarrow> lru_lookup c' u' \<noteq> None \<longrightarrow> lru_lookup c' u' = lru_lookup c u')"
proof -
  from add_spec [OF wf _ n, of a now u] a obtain c' where c': "LRUCache_add c a now u d n = Some c'"
    "lru_wf c'" "lru_entries c' = lru_insert (capacity c) u d (lru_entries c)"
    by (auto simp: lru_used_def)
  have "lru_lookup c' u = (if lru_lookup c u = None then Some d else lru_lookup c u)"
    by (auto simp: lru_lookup_def c'(3) lru_insert_def map_of_touch key_iff)
  moreover have "\<forall>u'. u' \<noteq> u \<longrightarrow> lru_lookup c' u' \<noteq> None \<longrightarrow> lru_lookup c' u' = lru_lookup c u'"
    unfolding lru_lookup_def c'(3) by (intro allI impI) (rule lru_insert_other)
  ultimately show ?thesis using c'(1,2) by (intro exI [of _ c'] conjI)
qed

lemma lru_remove_law:
  assumes wf: "lru_wf c"
  shows "\<exists>c'. LRUCache_remove c u = Some c' \<and> lru_wf c' \<and> lru_lookup c' = (lru_lookup c)(u := None)"
proof -
  from remove_spec_lru [OF wf, of u] obtain c' where "LRUCache_remove c u = Some c'" "lru_wf c'"
    "lru_entries c' = filter (\<lambda>(k, v). k \<noteq> u) (lru_entries c)" by blast
  moreover from this(3) have "lru_lookup c' = (lru_lookup c)(u := None)"
    by (auto simp: lru_lookup_def fun_eq_iff map_of_filter_key)
  ultimately show ?thesis by blast
qed

interpretation lru: cache_strategy LRUCache_find LRUCache_add LRUCache_remove lru_lookup
  lru_element lru_used lru_wf
  by unfold_locales (fact lru_find_law lru_add_law lru_remove_law)+


subsection \<open>A sequence of requests\<close>

text \<open>
  What \<open>handleClient\<close> does to the cache for a URL whose response is \<open>d\<close>: find, and on a
  miss add. In a run the n-th request brings the n-th address.
\<close>

definition lru_request :: "LRUCache \<Rightarrow> nat \<Rightarrow> int \<Rightarrow> string \<Rightarrow> block \<Rightarrow> LRUCache option" where
  "lru_request c a now u d = do {
     (c, r) \<leftarrow> LRUCache_find c u now;
     if r = None then LRUCache_add c a now u d (int (length d)) else Some c }"

fun lru_run :: "LRUCache \<Rightarrow> nat \<Rightarrow> (string \<times> block) list \<Rightarrow> LRUCache option" where
  "lru_run c a [] = Some c"
| "lru_run c a ((u, d) # rs) = do { c \<leftarrow> lru_request c a (int a) u d; lru_run c (Suc a) rs }"

lemma lru_run_append:
  "lru_run c a (xs @ ys) = do { c \<leftarrow> lru_run c a xs; lru_run c (a + length xs) ys }"
  by (induction c a xs rule: lru_run.induct) (auto split: bind_splits)

lemma evict_dom: "LRUCache_evict c = Some c' \<Longrightarrow> dom (heap c') \<subseteq> dom (heap c)"
  by (auto simp: LRUCache_evict_def Let_def split: if_splits bind_splits)

lemma add_dom:
  assumes "LRUCache_add c a now u d n = Some c'"
  shows "dom (heap c') \<subseteq> insert a (dom (heap c))"
proof (cases "cache_map c u")
  case (Some b)
  with assms show ?thesis
    by (auto simp: LRUCache_add_def LRUCache_moveToFront_def split: if_splits)
next
  case None
  let ?ev = "if length (cache_list c) \<ge> capacity c then LRUCache_evict c else Some c"
  from assms None obtain c1 where c1: "?ev = Some c1" and
    "dom (heap c') = insert a (dom (heap c1))"
    by (auto simp: LRUCache_add_def split: bind_splits if_splits)
  moreover have "dom (heap c1) \<subseteq> dom (heap c)"
    using c1 evict_dom by (cases "length (cache_list c) \<ge> capacity c") auto
  ultimately show ?thesis by blast
qed

lemma request_spec:
  assumes wf: "lru_wf c" and a: "\<forall>b \<in> dom (heap c). b < a"
  shows "\<exists>c'. lru_request c a now u d = Some c' \<and> lru_wf c' \<and> (\<forall>b \<in> dom (heap c'). b < Suc a) \<and>
    lru_entries c' = lru_insert (capacity c) u d (lru_entries c) \<and> capacity c' = capacity c"
proof -
  from find_spec [OF wf, of u now] obtain c1 where f:
    "LRUCache_find c u now = Some (c1, cache_map c u)" "lru_wf c1" "capacity c1 = capacity c"
    "lru_entries c1 = touch u (lru_entries c)" "dom (heap c1) = dom (heap c)" by blast
  have k: "u \<in> fst ` set (lru_entries c) \<longleftrightarrow> cache_map c u \<noteq> None" by (rule lru_entries_key [OF wf])
  show ?thesis
  proof (cases "cache_map c u = None")
    case False
    have "\<forall>b \<in> dom (heap c1). b < Suc a" unfolding f(5) using a less_SucI by blast
    with f k False show ?thesis by (auto simp: lru_request_def lru_insert_def)
  next
    case True
    then have t: "lru_entries c1 = lru_entries c" using f(4) k by (simp add: touch_absent)
    have "a \<notin> dom (heap c1)" using a f(5) by blast
    from add_spec [OF f(2) this refl, of now u d] obtain c2 where
      c2: "LRUCache_add c1 a now u d (int (length d)) = Some c2" "lru_wf c2"
      "lru_entries c2 = lru_insert (capacity c) u d (lru_entries c)" "capacity c2 = capacity c"
      using t f(3) by auto
    from add_dom [OF c2(1)] have d2: "dom (heap c2) \<subseteq> insert a (dom (heap c))" by (simp only: f(5))
    have "\<forall>b \<in> dom (heap c2). b < Suc a"
    proof
      fix b assume "b \<in> dom (heap c2)"
      with d2 have "b = a \<or> b \<in> dom (heap c)" by blast
      with a show "b < Suc a" using less_SucI by blast
    qed
    with c2 True f(1) show ?thesis by (simp add: lru_request_def)
  qed
qed

lemma remdups_snoc: "remdups (us @ [u]) = removeAll u (remdups us) @ [u]"
  by (induction us) auto

lemma rev_removeAll: "rev (removeAll u xs) = removeAll u (rev xs)"
  by (simp add: removeAll_filter rev_filter)

lemma take_removeAll_in:
  "distinct xs \<Longrightarrow> u \<in> set (take n xs) \<Longrightarrow> removeAll u (take n xs) = take (n - 1) (removeAll u xs)"
proof (induction xs arbitrary: n)
  case Nil
  then show ?case by simp
next
  case (Cons x xs)
  then obtain m where n: "n = Suc m" by (cases n) auto
  show ?case
  proof (cases "x = u")
    case True
    with Cons.prems n have "u \<notin> set xs" by simp
    then have "u \<notin> set (take m xs)" by (meson in_set_takeD)
    with \<open>u \<notin> set xs\<close> True n show ?thesis by simp
  next
    case False
    with Cons.prems n have "u \<in> set (take m xs)" by simp
    moreover from this obtain k where "m = Suc k" by (cases m) auto
    ultimately show ?thesis using Cons.IH [of m] Cons.prems(1) False n by simp
  qed
qed

lemma take_removeAll_notin:
  "u \<notin> set (take n xs) \<Longrightarrow> k \<le> n \<Longrightarrow> take k (removeAll u xs) = take k xs"
proof (induction xs arbitrary: n k)
  case Nil
  then show ?case by simp
next
  case (Cons x xs)
  then show ?case by (cases k; cases n) auto
qed

lemma insert_keys:
  assumes "0 < cap" "distinct full" "map fst al = take cap full"
  shows "map fst (lru_insert cap u d al) = take cap (u # removeAll u full)"
proof -
  obtain k where k: "cap = Suc k" using assms(1) by (cases cap) auto
  have ks: "fst ` set al = set (take cap full)" using assms(3) by (metis set_map)
  show ?thesis
  proof (cases "u \<in> fst ` set al")
    case True
    have dist: "distinct (map fst al)" using assms(2,3) by simp
    have "map fst (filter (\<lambda>(k, v). k = u) al) = filter (\<lambda>k. k = u) (map fst al)"
      "map fst (filter (\<lambda>(k, v). k \<noteq> u) al) = removeAll u (map fst al)"
      by (induction al) auto
    then have "map fst (touch u al) = u # removeAll u (take cap full)"
      using filter_eq_distinct [OF dist, of u] True assms(3) ks by (simp add: touch_def)
    then show ?thesis
      using True take_removeAll_in [OF assms(2), of u cap] ks k by (simp add: lru_insert_def)
  next
    case False
    then have nf: "u \<notin> set (take cap full)" using ks by simp
    have len: "length al = length (take cap full)" using assms(3) by (metis length_map)
    have "map fst (if length al \<ge> cap then butlast al else al) = take k full"
    proof (cases "length al \<ge> cap")
      case True
      then show ?thesis using assms(3) len k by (simp add: map_butlast butlast_take)
    next
      case small: False
      then have "length full \<le> k" using len k by simp
      then show ?thesis using small assms(3) k by simp
    qed
    then show ?thesis
      using False take_removeAll_notin [OF nf, of k] k by (simp add: lru_insert_def)
  qed
qed


lemma run_spec:
  assumes "lru_wf c" "\<forall>b \<in> dom (heap c). b < a" "map fst (lru_entries c) = take (capacity c) full"
    "distinct full"
  shows "\<exists>c'. lru_run c a rs = Some c' \<and> lru_wf c' \<and>
    map fst (lru_entries c') = take (capacity c) (foldl (\<lambda>f u. u # removeAll u f) full (map fst rs))"
  using assms
proof (induction c a rs arbitrary: full rule: lru_run.induct)
  case (1 c a)
  then show ?case by simp
next
  case (2 c a u d rs)
  from request_spec [OF "2.prems"(1,2), of "int a" u d] obtain c1 where
    c1: "lru_request c a (int a) u d = Some c1" "lru_wf c1" "\<forall>b \<in> dom (heap c1). b < Suc a"
    "lru_entries c1 = lru_insert (capacity c) u d (lru_entries c)" "capacity c1 = capacity c" by blast
  have "0 < capacity c" using "2.prems"(1) by (rule lru_wfD)
  from insert_keys [OF this "2.prems"(4,3), of u d] c1(4,5)
  have k: "map fst (lru_entries c1) = take (capacity c1) (u # removeAll u full)" by simp
  have "distinct (u # removeAll u full)" using "2.prems"(4) by (simp add: distinct_removeAll)
  from "2.IH" [OF c1(1-3) k this] c1(1,5) show ?case by simp
qed

lemma foldl_touch: "foldl (\<lambda>f u. u # removeAll u f) [] us = rev (remdups us)"
  by (induction us rule: rev_induct) (simp_all only: foldl_append foldl_Cons foldl_Nil remdups_snoc
      rev_append rev_removeAll remdups.simps rev.simps append.simps)

lemma foldl_touch_distinct:
  "distinct us \<Longrightarrow>
   \<exists>g. foldl (\<lambda>f u. u # removeAll u f) f us = rev us @ g"
proof (induction us rule: rev_induct)
  case Nil
  then show ?case by simp
next
  case (snoc u us)
  then obtain g where "foldl (\<lambda>f u. u # removeAll u f) f us = rev us @ g" by auto
  moreover have "removeAll u (rev us) = rev us" using snoc.prems by simp
  ultimately show ?case by simp
qed

text \<open>A request never moves an element: what is at an old address was there before.\<close>

lemma request_keeps:
  assumes "lru_request c a now u d = Some c'" "heap c' b = Some e" "b \<noteq> a"
  shows "\<exists>f. heap c b = Some f \<and> ce_url f = ce_url e"
proof -
  from assms(1) obtain c1 r where f: "LRUCache_find c u now = Some (c1, r)" and
    g: "if r = None then LRUCache_add c1 a now u d (int (length d)) = Some c' else c1 = c'"
    by (auto simp: lru_request_def split: bind_splits if_splits)
  have "heap c1 b = Some e \<Longrightarrow> \<exists>f. heap c b = Some f \<and> ce_url f = ce_url e" for e
    using f by (auto simp: LRUCache_find_def LRUCache_moveToFront_def
        split: option.splits bind_splits if_splits)
  moreover have "heap c1 b = Some e"
  proof (cases "r = None")
    case False
    with g assms(2) show ?thesis by simp
  next
    case True
    with g assms(2,3) show ?thesis
      by (auto simp: LRUCache_add_def LRUCache_moveToFront_def LRUCache_evict_def Let_def
          split: option.splits bind_splits if_splits)
  qed
  ultimately show ?thesis by blast
qed

lemma run_keeps:
  assumes "lru_run c a rs = Some c'" "heap c' b = Some e" "b < a"
  shows "\<exists>f. heap c b = Some f \<and> ce_url f = ce_url e"
  using assms
proof (induction c a rs rule: lru_run.induct)
  case (1 c a)
  then show ?case by simp
next
  case (2 c a u d rs)
  from "2.prems"(1) obtain c1 where c1: "lru_request c a (int a) u d = Some c1"
    "lru_run c1 (Suc a) rs = Some c'" by (auto split: bind_splits)
  from "2.IH" [OF c1 "2.prems"(2)] "2.prems"(3) obtain f where
    "heap c1 b = Some f" "ce_url f = ce_url e" by auto
  with request_keeps [OF c1(1), of b f] "2.prems"(3) show ?case by auto
qed


subsection \<open>Properties\<close>

text \<open>The proxy in front of an origin server that answers \<open>u\<close> with \<open>origin u\<close>.\<close>

definition lru_serve ::
  "(string \<Rightarrow> block) \<Rightarrow> LRUCache \<Rightarrow> nat \<Rightarrow> int \<Rightarrow> string \<Rightarrow> (LRUCache \<times> block) option" where
  "lru_serve origin c a now u = do {
     (c, r) \<leftarrow> LRUCache_find c u now;
     case r of
       Some b \<Rightarrow> do { d \<leftarrow> lru_element c b; Some (c, d) }
     | None \<Rightarrow> do {
         c \<leftarrow> LRUCache_add c a now u (origin u) (int (length (origin u)));
         Some (c, origin u) } }"

fun lru_serve_all ::
  "(string \<Rightarrow> block) \<Rightarrow> LRUCache \<Rightarrow> nat \<Rightarrow> string list \<Rightarrow> (LRUCache \<times> block list) option" where
  "lru_serve_all origin c a [] = Some (c, [])"
| "lru_serve_all origin c a (u # us) = do {
     (c, d) \<leftarrow> lru_serve origin c a (int a) u;
     (c, ds) \<leftarrow> lru_serve_all origin c (Suc a) us;
     Some (c, d # ds) }"

lemma serve_locale: "lru_serve origin c a now u = lru.serve origin c a now now u"
  by (simp add: lru_serve_def lru.serve_def)

lemma serve_dom:
  assumes "lru_serve origin c a now u = Some (c', d)" "lru_wf c" "\<forall>b \<in> dom (heap c). b < a"
  shows "\<forall>b \<in> dom (heap c'). b < Suc a"
proof -
  from assms(1) obtain c1 r where f: "LRUCache_find c u now = Some (c1, r)" and
    g: "if r = None then LRUCache_add c1 a now u (origin u) (int (length (origin u))) = Some c' else c1 = c'"
    by (auto simp: lru_serve_def split: bind_splits option.splits)
  from find_spec [OF assms(2), of u now] f have d1: "dom (heap c1) = dom (heap c)" by auto
  have "dom (heap c') \<subseteq> insert a (dom (heap c1))"
    using g add_dom [of c1 a now u "origin u" "int (length (origin u))" c'] by (cases r) auto
  with assms(3) d1 show ?thesis by (metis insertE less_Suc_eq subsetD)
qed

text \<open>C9. The heap, list and hash map code of the LRU cache implements the list of (URL, data)
  pairs in recency order: in every well-formed state no method hits undefined behaviour, each
  keeps the invariant, \<open>find\<close> moves the pair to the front and returns the address of its
  data, \<open>add\<close> of a new URL pushes it and drops the last pair of a full cache, \<open>add\<close> of a
  cached URL only moves it (the data given is ignored), and \<open>remove\<close> deletes the pair.\<close>

theorem lru_refines_recency_list:
  assumes "lru_wf c" "a \<notin> dom (heap c)"
  shows "(\<exists>c'. LRUCache_find c u now = Some (c', cache_map c u) \<and> lru_wf c' \<and>
      lru_entries c' = touch u (lru_entries c)) \<and>
    (\<exists>c'. LRUCache_add c a now u d (int (length d)) = Some c' \<and> lru_wf c' \<and>
      lru_entries c' = lru_insert (capacity c) u d (lru_entries c)) \<and>
    (\<exists>c'. LRUCache_remove c u = Some c' \<and> lru_wf c' \<and>
      lru_entries c' = filter (\<lambda>(k, v). k \<noteq> u) (lru_entries c))"
  using find_spec [OF assms(1), of u now] add_spec [OF assms refl, of now u d]
    remove_spec_lru [OF assms(1), of u] by blast

theorem lru_refines_recency_list_witness:
  "\<exists>c. LRUCache_add (LRUCache_new 2) 0 5 ''u'' ''data'' 4 = Some c \<and> lru_entries c = [(''u'', ''data'')]"
proof -
  have "lru_wf (LRUCache_new 2)" "(0::nat) \<notin> dom (heap (LRUCache_new 2))"
    by (rule new_wf, simp) (simp add: LRUCache_new_def)
  from lru_refines_recency_list [OF this, of "''u''" 5 "''data''"] show ?thesis
    by (auto simp: lru_insert_def lru_entries_def LRUCache_new_def)
qed

text \<open>C27. LRU replacement: after any sequence of requests to an empty cache with capacity
  \<open>cap > 0\<close>, each doing what \<open>handleClient\<close> does (find, on a miss add), the cached URLs
  are exactly the \<open>cap\<close> most recently requested different URLs, the latest first.\<close>

theorem lru_keeps_most_recent:
  assumes "0 < cap"
  shows "\<exists>c. lru_run (LRUCache_new cap) 0 rs = Some c \<and> lru_wf c \<and>
    map fst (lru_entries c) = take cap (rev (remdups (map fst rs)))"
  using run_spec [OF new_wf [OF assms], of 0 "[]" rs]
  by (simp add: LRUCache_new_def lru_entries_def foldl_touch)

theorem lru_keeps_most_recent_witness:
  "\<exists>c. lru_run (LRUCache_new 2) 0 [(''a'', ''1''), (''b'', ''2''), (''a'', ''1''), (''c'', ''3'')] = Some c \<and>
    map fst (lru_entries c) = [''c'', ''a'']"
  using lru_keeps_most_recent [of 2 "[(''a'', ''1''), (''b'', ''2''), (''a'', ''1''), (''c'', ''3'')]"] by auto

text \<open>Transparency: with an origin server that answers each URL with a fixed response,
  every request through the LRU cache is answered with that response, whatever was requested,
  cached and evicted before, and no request hits undefined behaviour.\<close>

theorem lru_transparent:
  assumes "0 < cap"
  shows "\<exists>c. lru_serve_all origin (LRUCache_new cap) 0 us = Some (c, map origin us)"
proof -
  have "lru_wf c \<Longrightarrow> lru.faithful origin c \<Longrightarrow> \<forall>b \<in> dom (heap c). b < a \<Longrightarrow>
    \<exists>c'. lru_serve_all origin c a us = Some (c', map origin us)" for c a
  proof (induction us arbitrary: c a)
    case Nil
    then show ?case by simp
  next
    case (Cons u us)
    then have "a \<notin> lru_used c" by (auto simp: lru_used_def)
    from lru.serve_transparent [OF Cons.prems(1,2) this, of "int a" "int a" u] obtain c1 where
      c1: "lru_serve origin c a (int a) u = Some (c1, origin u)" "lru_wf c1" "lru.faithful origin c1"
      unfolding serve_locale by blast
    from Cons.IH [OF c1(2,3) serve_dom [OF c1(1) Cons.prems(1,3)]] c1(1) show ?case by auto
  qed
  from this [OF new_wf [OF assms], of 0] show ?thesis
    by (simp add: lru.faithful_def lru_lookup_def lru_entries_def LRUCache_new_def)
qed

theorem lru_transparent_witness:
  "\<exists>c. lru_serve_all (\<lambda>u. u @ ''!'') (LRUCache_new 1) 0 [''a'', ''b'', ''a''] = Some (c, [''a!'', ''b!'', ''a!''])"
  using lru_transparent [of 1 "\<lambda>u. u @ ''!''" "[''a'', ''b'', ''a'']"] by simp

text \<open>As many other URLs as there are places drive an element out.\<close>

lemma found_then_freed:
  assumes "lru_wf c" "\<forall>b \<in> dom (heap c). b < a" "LRUCache_find c u now = Some (c1, Some p)"
    and "length rs = capacity c" "distinct (map fst rs)" "u \<notin> fst ` set rs"
  shows "\<exists>c2. lru_run c1 a rs = Some c2 \<and> lru_wf c2 \<and> heap c2 p = None \<and>
    map fst (lru_entries c2) = rev (map fst rs)"
proof -
  from find_spec [OF assms(1), of u now] assms(3)
  have f: "lru_wf c1" "dom (heap c1) = dom (heap c)" "capacity c1 = capacity c" "cache_map c u = Some p"
    and "\<forall>a. cache_map c u = Some a \<longrightarrow> (\<exists>e. heap c1 a = Some e \<and> ce_url e = u)" by auto
  then have el: "\<exists>e. heap c1 p = Some e \<and> ce_url e = u" by blast
  have d1: "\<forall>b \<in> dom (heap c1). b < a" using assms(2) f(2) by simp
  have cap: "length (lru_entries c1) \<le> capacity c1"
    using lru_wfD(4) [OF f(1)] by (simp add: lru_entries_def)
  from run_spec [OF f(1) d1, of "map fst (lru_entries c1)" rs] cap lru_entries_distinct [OF f(1)]
  obtain c2 where c2: "lru_run c1 a rs = Some c2" "lru_wf c2" and
    k: "map fst (lru_entries c2) = take (capacity c1)
      (foldl (\<lambda>f u. u # removeAll u f) (map fst (lru_entries c1)) (map fst rs))" by auto
  from foldl_touch_distinct [OF assms(5)] obtain g where
    "foldl (\<lambda>f u. u # removeAll u f) (map fst (lru_entries c1)) (map fst rs) = rev (map fst rs) @ g"
    by blast
  with k have ks: "map fst (lru_entries c2) = rev (map fst rs)" using assms(4) f(3) by simp
  then have "u \<notin> set (map fst (lru_entries c2))" using assms(6) by simp
  then have nu: "cache_map c2 u = None" using lru_entries_key [OF c2(2), of u] by simp
  have "heap c2 p = None"
  proof (rule ccontr)
    assume "heap c2 p \<noteq> None"
    then obtain e where e: "heap c2 p = Some e" by blast
    have "p < a" using el d1 by auto
    from run_keeps [OF c2(1) e this] el have "ce_url e = u" by auto
    with e lru_wfD(3) [OF c2(2), of u p] nu show False by simp
  qed
  with c2(1,2) ks show ?thesis by blast
qed

text \<open>The pointer \<open>find\<close> returns is used after the lock is released, while other threads
  add: when as many other URLs are requested as the cache has places, the element the
  pointer leads to has been deleted, so the handler that still sends from it reads freed
  memory. This holds in every state of the cache and for every choice of those URLs.\<close>

theorem lru_find_pointer_dangles:
  assumes "lru_wf c" "\<forall>b \<in> dom (heap c). b < a" "LRUCache_find c u now = Some (c1, Some p)"
    and "length rs = capacity c" "distinct (map fst rs)" "u \<notin> fst ` set rs"
  shows "\<exists>c2. lru_run c1 a rs = Some c2 \<and> lru_element c2 p = None"
  using found_then_freed [OF assms] by (auto simp: lru_element_def)

theorem lru_find_pointer_dangles_witness:
  "\<exists>c0 c1 c2. lru_run (LRUCache_new 1) 0 [(''u'', ''old'')] = Some c0 \<and>
    LRUCache_find c0 ''u'' 1 = Some (c1, Some 0) \<and> lru_element c1 0 = Some ''old'' \<and>
    lru_run c1 1 [(''v'', ''new'')] = Some c2 \<and> lru_element c2 0 = None"
proof -
  let ?e = "\<lparr>ce_data = ''old'', ce_len = 3, ce_url = ''u'', ce_time = 0\<rparr>"
  let ?c = "\<lparr>capacity = 1, cache_list = [0], cache_map = [''u'' \<mapsto> 0], heap = [0 \<mapsto> ?e]\<rparr> :: LRUCache"
  let ?c1 = "?c\<lparr>heap := [0 \<mapsto> ?e\<lparr>ce_time := 1\<rparr>]\<rparr>"
  have r: "lru_run (LRUCache_new 1) 0 [(''u'', ''old'')] = Some ?c"
    by (simp add: lru_request_def LRUCache_find_def LRUCache_add_def LRUCache_new_def)
  have f: "LRUCache_find ?c ''u'' 1 = Some (?c1, Some 0)"
    by (simp add: LRUCache_find_def LRUCache_moveToFront_def)
  have "lru_wf ?c" by (auto simp: lru_wf_def)
  from lru_find_pointer_dangles [OF this _ f, of 1 "[(''v'', ''new'')]"] obtain c2 where
    "lru_run ?c1 1 [(''v'', ''new'')] = Some c2" "lru_element c2 0 = None" by auto
  moreover have "lru_element ?c1 0 = Some ''old''" by (simp add: lru_element_def)
  ultimately show ?thesis using r f by blast
qed

text \<open>A cache of size 0, which the command line accepts, cannot be added to: \<open>evict\<close> takes
  the last element of an empty list.\<close>

theorem lru_zero_capacity_undefined:
  "LRUCache_find (LRUCache_new 0) u now = Some (LRUCache_new 0, None) \<and>
   LRUCache_add (LRUCache_new 0) a now u d len = None"
  by (simp add: LRUCache_find_def LRUCache_add_def LRUCache_evict_def LRUCache_new_def)

end
