(* ===== verification/LFU_Cache.thy ===== *)
theory LFU_Cache
  imports LRU_Cache "HOL-Library.AList"
begin

text \<open>
  \<^verbatim>\<open>LFUCache.cpp\<close>: the list of frequency nodes, each with the list of its
  elements, the hash map from URLs to a node and a position in its list, and the elements on
  the heap. A position is named by the address of the element it holds. A frequency node is
  named by a number; a new node gets one that no node of the list has.

  \<open>incrementFrequency\<close> does two things that the C++ standard leaves undefined: it calls
  \<open>std::next\<close> also on \<open>end()\<close>, and it adds 1 to an \<open>int\<close> that may be the largest one. What happens
  there is an argument, the platform.
\<close>

subsection \<open>The platform\<close>

text \<open>
  \<open>past_end\<close>: the position behind the end of a list, \<open>None\<close> for undefined behaviour, \<open>Some 0\<close>
  for a library whose lists are rings, where it is the first one (libstdc++). \<open>int_wraps\<close>:
  whether the largest \<open>int\<close> plus 1 is the smallest one (as with \<^verbatim>\<open>-fwrapv\<close>) or undefined.
\<close>

record platform =
  past_end :: "nat option"
  int_wraps :: bool

definition standard :: platform where
  "standard = \<lparr>past_end = None, int_wraps = False\<rparr>"

definition gnu :: platform where
  "gnu = \<lparr>past_end = Some 0, int_wraps = True\<rparr>"

lemma gnu_simps [simp]: "past_end gnu = Some 0" "int_wraps gnu"
  by (simp_all add: gnu_def)

text \<open>\<open>f + 1\<close> for an \<open>int\<close> f.\<close>

definition next_int :: "platform \<Rightarrow> int \<Rightarrow> int option" where
  "next_int lib f = (if f < 2147483647 then Some (f + 1)
     else if int_wraps lib then Some (to_int32 (f + 1)) else None)"

subsection \<open>State and operations\<close>

record frequency_node =
  fn_id :: nat
  frequency :: int
  elements :: "nat list"

record LFUCache =
  lfu_capacity :: nat
  frequency_list :: "frequency_node list"
  lfu_map :: "(string \<times> nat \<times> nat) list"
  lfu_heap :: "nat \<rightharpoonup> cache_element"

definition LFUCache_new :: "nat \<Rightarrow> LFUCache" where
  "LFUCache_new cap = \<lparr>lfu_capacity = cap,
     frequency_list = [\<lparr>fn_id = 0, frequency = 0, elements = []\<rparr>], lfu_map = [], lfu_heap = Map.empty\<rparr>"

definition find_node :: "frequency_node list \<Rightarrow> nat \<Rightarrow> frequency_node option" where
  "find_node ns i = List.find (\<lambda>n. fn_id n = i) ns"

definition upd_node :: "nat \<Rightarrow> (nat list \<Rightarrow> nat list) \<Rightarrow> frequency_node list \<Rightarrow> frequency_node list" where
  "upd_node i f ns = map (\<lambda>n. if fn_id n = i then n\<lparr>elements := f (elements n)\<rparr> else n) ns"

definition erase_node :: "nat \<Rightarrow> frequency_node list \<Rightarrow> frequency_node list" where
  "erase_node i ns = filter (\<lambda>n. fn_id n \<noteq> i) ns"

definition new_node_id :: "frequency_node list \<Rightarrow> nat" where
  "new_node_id ns = Suc (foldr max (map fn_id ns) 0)"

text \<open>\<open>std::find_if\<close>: the position of the first node of at least this frequency, or the end.\<close>

definition find_frequency :: "int \<Rightarrow> frequency_node list \<Rightarrow> nat" where
  "find_frequency f ns = length (takeWhile (\<lambda>n. \<not> f \<le> frequency n) ns)"

definition std_next :: "platform \<Rightarrow> frequency_node list \<Rightarrow> nat \<Rightarrow> nat option" where
  "std_next lib ns i = (if i < length ns then Some (Suc i) else past_end lib)"

definition incrementFrequency :: "platform \<Rightarrow> LFUCache \<Rightarrow> string \<Rightarrow> LFUCache option" where
  "incrementFrequency lib c url = do {
     (current_node, element_it) \<leftarrow> map_of (lfu_map c) url;
     cn \<leftarrow> find_node (frequency_list c) current_node;
     next_frequency \<leftarrow> next_int lib (frequency cn);
     let ns = frequency_list c;
     next_it \<leftarrow> std_next lib ns (find_frequency next_frequency ns);
     let ns = (if next_it = length ns \<or> frequency (ns ! next_it) \<noteq> next_frequency
       then take next_it ns @ \<lparr>fn_id = new_node_id ns, frequency = next_frequency, elements = []\<rparr> # drop next_it ns
       else ns);
     let target = fn_id (ns ! next_it);
     if element_it \<notin> set (elements cn) then None
     else do {
       let ns = upd_node target (Cons element_it) (upd_node current_node (removeAll element_it) ns);
       let c = c\<lparr>lfu_map := AList.update url (target, element_it) (lfu_map c)\<rparr>;
       cn \<leftarrow> find_node ns current_node;
       Some (c\<lparr>frequency_list := (if elements cn = [] \<and> current_node \<noteq> fn_id (hd ns)
         then erase_node current_node ns else ns)\<rparr>) } }"

definition LFUCache_find ::
  "platform \<Rightarrow> LFUCache \<Rightarrow> string \<Rightarrow> int \<Rightarrow> (LFUCache \<times> nat option) option" where
  "LFUCache_find lib c url now = (case map_of (lfu_map c) url of
       None \<Rightarrow> Some (c, None)
     | Some (node, element_it) \<Rightarrow> do {
         c \<leftarrow> incrementFrequency lib c url;
         e \<leftarrow> lfu_heap c element_it;
         Some (c\<lparr>lfu_heap := (lfu_heap c)(element_it \<mapsto> e\<lparr>ce_time := now\<rparr>)\<rparr>, Some element_it) })"

text \<open>The loop that looks for a node with elements is undefined when there is none.\<close>

definition LFUCache_evict :: "LFUCache \<Rightarrow> LFUCache option" where
  "LFUCache_evict c = do {
     least_frequent \<leftarrow> List.find (\<lambda>n. elements n \<noteq> []) (frequency_list c);
     let victim = last (elements least_frequent);
     e \<leftarrow> lfu_heap c victim;
     let ns = upd_node (fn_id least_frequent) butlast (frequency_list c);
     Some (c\<lparr>lfu_map := AList.delete (ce_url e) (lfu_map c),
       lfu_heap := (lfu_heap c)(victim := None),
       frequency_list := (if butlast (elements least_frequent) = [] \<and> fn_id least_frequent \<noteq> fn_id (hd ns)
         then erase_node (fn_id least_frequent) ns else ns)\<rparr>) }"

definition LFUCache_add ::
  "platform \<Rightarrow> LFUCache \<Rightarrow> nat \<Rightarrow> int \<Rightarrow> string \<Rightarrow> block \<Rightarrow> int \<Rightarrow> LFUCache option" where
  "LFUCache_add lib c new_element now url data len =
    (if map_of (lfu_map c) url \<noteq> None then incrementFrequency lib c url
     else do {
       c \<leftarrow> (if length (lfu_map c) \<ge> lfu_capacity c then LFUCache_evict c else Some c);
       if len < 0 \<or> int (length data) < len then None
       else if frequency_list c = [] then None
       else do {
         let least_frequent = fn_id (hd (frequency_list c));
         Some (c\<lparr>lfu_heap := (lfu_heap c)(new_element \<mapsto> \<lparr>ce_data = take (nat len) data, ce_len = len,
             ce_url = url, ce_time = now\<rparr>),
           frequency_list := upd_node least_frequent (Cons new_element) (frequency_list c),
           lfu_map := AList.update url (least_frequent, new_element) (lfu_map c)\<rparr>) } })"

definition LFUCache_remove :: "LFUCache \<Rightarrow> string \<Rightarrow> LFUCache option" where
  "LFUCache_remove c url = (case map_of (lfu_map c) url of
       None \<Rightarrow> Some c
     | Some (node, element_it) \<Rightarrow> do {
         n \<leftarrow> find_node (frequency_list c) node;
         if element_it \<notin> set (elements n) \<or> lfu_heap c element_it = None then None
         else Some (c\<lparr>frequency_list := upd_node node (removeAll element_it) (frequency_list c),
           lfu_map := AList.delete url (lfu_map c),
           lfu_heap := (lfu_heap c)(element_it := None)\<rparr>) })"

definition LFUCache_destroy :: "LFUCache \<Rightarrow> (nat \<rightharpoonup> cache_element) option" where
  "LFUCache_destroy c = free_all (concat (map elements (frequency_list c))) (lfu_heap c)"


subsection \<open>What the nodes hold\<close>

definition holds :: "frequency_node list \<Rightarrow> nat \<Rightarrow> nat \<Rightarrow> bool" where
  "holds ns i a = (\<exists>n \<in> set ns. fn_id n = i \<and> a \<in> set (elements n))"

definition nodes_wf :: "frequency_node list \<Rightarrow> bool" where
  "nodes_wf ns = (ns \<noteq> [] \<and> distinct (map fn_id ns) \<and> (\<forall>n \<in> set ns. distinct (elements n)))"

lemma find_node_Some:
  assumes "distinct (map fn_id ns)"
  shows "find_node ns i = Some n \<longleftrightarrow> n \<in> set ns \<and> fn_id n = i"
  using assms
proof (induction ns)
  case Nil
  then show ?case by (simp add: find_node_def)
next
  case (Cons m ns)
  then show ?case by (auto simp: find_node_def)
qed

lemma holds_node:
  assumes "distinct (map fn_id ns)" "n \<in> set ns"
  shows "holds ns (fn_id n) a \<longleftrightarrow> a \<in> set (elements n)"
  using assms by (auto simp: holds_def distinct_map inj_on_def)

lemma holds_upd:
  "holds (upd_node i f ns) j b \<longleftrightarrow>
    (if j = i then \<exists>n \<in> set ns. fn_id n = i \<and> b \<in> set (f (elements n)) else holds ns j b)"
  unfolding holds_def upd_node_def set_map bex_simps by auto

lemma holds_upd_Cons:
  "i \<in> fn_id ` set ns \<Longrightarrow> holds (upd_node i (Cons a) ns) j b \<longleftrightarrow> (j = i \<and> b = a) \<or> holds ns j b"
  unfolding holds_upd by (auto simp: holds_def)

lemma holds_upd_remove:
  "holds (upd_node i (removeAll a) ns) j b \<longleftrightarrow> holds ns j b \<and> \<not> (j = i \<and> b = a)"
  unfolding holds_upd by (auto simp: holds_def)

lemma holds_insert:
  "elements n = [] \<Longrightarrow> holds (take k ns @ n # drop k ns) j b \<longleftrightarrow> holds ns j b"
proof -
  assume "elements n = []"
  moreover have "set (take k ns @ n # drop k ns) = insert n (set ns)"
    by (metis Un_insert_right append_take_drop_id list.simps(15) set_append)
  ultimately show ?thesis by (auto simp: holds_def)
qed

lemma holds_erase: "holds (erase_node i ns) j b \<longleftrightarrow> holds ns j b \<and> j \<noteq> i"
  by (auto simp: holds_def erase_node_def)

lemma upd_node_ids [simp]: "map fn_id (upd_node i f ns) = map fn_id ns"
  by (auto simp: upd_node_def)

lemma upd_node_Nil [simp]: "upd_node i f ns = [] \<longleftrightarrow> ns = []"
  by (simp add: upd_node_def)

lemma upd_node_set_ids [simp]: "fn_id ` set (upd_node i f ns) = fn_id ` set ns"
  by (metis list.set_map upd_node_ids)

lemma nodes_wf_upd:
  assumes "nodes_wf ns" "\<And>n. n \<in> set ns \<Longrightarrow> fn_id n = i \<Longrightarrow> distinct (f (elements n))"
  shows "nodes_wf (upd_node i f ns)"
  unfolding nodes_wf_def
proof (intro conjI ballI)
  show "upd_node i f ns \<noteq> []" "distinct (map fn_id (upd_node i f ns))"
    using assms(1) by (simp_all add: nodes_wf_def)
  show "distinct (elements n)" if "n \<in> set (upd_node i f ns)" for n
    using that assms by (auto simp: nodes_wf_def upd_node_def)
qed

lemma nodes_erase:
  assumes "nodes_wf ns" "i \<noteq> fn_id (hd ns)"
  shows "nodes_wf (erase_node i ns)"
proof -
  from assms(1) obtain n ms where "ns = n # ms" by (cases ns) (auto simp: nodes_wf_def)
  with assms show ?thesis by (auto simp: nodes_wf_def erase_node_def distinct_map inj_on_def)
qed

lemma new_node_id_fresh: "new_node_id ns \<notin> fn_id ` set ns"
proof -
  have "n \<in> set ns \<Longrightarrow> fn_id n \<le> foldr max (map fn_id ns) 0" for n
    by (induction ns) auto
  then show ?thesis by (fastforce simp: new_node_id_def)
qed

lemma nodes_insert:
  assumes "nodes_wf ns" "fn_id n \<notin> fn_id ` set ns" "elements n = []"
  shows "nodes_wf (take k ns @ n # drop k ns)"
proof -
  have "distinct (map fn_id (take k ns) @ map fn_id (drop k ns))"
    using assms(1) by (simp add: nodes_wf_def flip: map_append)
  moreover have "fn_id n \<notin> set (map fn_id (take k ns) @ map fn_id (drop k ns))"
    using assms(2) by (auto dest: in_set_takeD in_set_dropD)
  ultimately show ?thesis using assms(1,3)
    by (auto simp: nodes_wf_def dest: in_set_takeD in_set_dropD)
qed

subsection \<open>Invariant and abstraction\<close>

text \<open>
  The map sends exactly the URL of each element to the node that holds it; the elements held
  are those on the heap, each by one node; there are at most \<open>lfu_capacity\<close> of them.
\<close>

definition lfu_wf :: "LFUCache \<Rightarrow> bool" where
  "lfu_wf c = (nodes_wf (frequency_list c) \<and> distinct (map fst (lfu_map c)) \<and>
     (\<forall>u i a. map_of (lfu_map c) u = Some (i, a) \<longleftrightarrow>
        holds (frequency_list c) i a \<and> (\<exists>e. lfu_heap c a = Some e \<and> ce_url e = u)) \<and>
     (\<forall>a. lfu_heap c a \<noteq> None \<longleftrightarrow> (\<exists>i. holds (frequency_list c) i a)) \<and>
     (\<forall>a e. lfu_heap c a = Some e \<longrightarrow> ce_len e = int (length (ce_data e))) \<and>
     length (lfu_map c) \<le> lfu_capacity c \<and> 0 < lfu_capacity c)"

definition lfu_lookup :: "LFUCache \<Rightarrow> string \<Rightarrow> block option" where
  "lfu_lookup c u = (case map_of (lfu_map c) u of None \<Rightarrow> None
     | Some (i, a) \<Rightarrow> map_option ce_data (lfu_heap c a))"

lemma lfu_wfD:
  assumes "lfu_wf c"
  shows "nodes_wf (frequency_list c)" "distinct (map fst (lfu_map c))"
    "map_of (lfu_map c) u = Some (i, a) \<longleftrightarrow>
        holds (frequency_list c) i a \<and> (\<exists>e. lfu_heap c a = Some e \<and> ce_url e = u)"
    "lfu_heap c a \<noteq> None \<longleftrightarrow> (\<exists>i. holds (frequency_list c) i a)"
    "length (lfu_map c) \<le> lfu_capacity c" "0 < lfu_capacity c"
  using assms by (auto simp: lfu_wf_def)

lemma holds_unique:
  assumes "lfu_wf c" "holds (frequency_list c) i a" "holds (frequency_list c) j a"
  shows "i = j"
proof -
  from lfu_wfD(4) [OF assms(1)] assms(2) obtain e where e: "lfu_heap c a = Some e" by blast
  have "map_of (lfu_map c) (ce_url e) = Some (i, a)" "map_of (lfu_map c) (ce_url e) = Some (j, a)"
    using lfu_wfD(3) [OF assms(1)] assms(2,3) e by blast+
  then show ?thesis by simp
qed

lemma lfu_url_inj:
  assumes "lfu_wf c" "lfu_heap c a = Some e" "lfu_heap c b = Some f" "ce_url e = ce_url f"
  shows "a = b"
proof -
  from assms(2,3) lfu_wfD(4) [OF assms(1)] obtain i j where
    "holds (frequency_list c) i a" "holds (frequency_list c) j b" by blast
  then have "map_of (lfu_map c) (ce_url e) = Some (i, a)" "map_of (lfu_map c) (ce_url e) = Some (j, b)"
    using lfu_wfD(3) [OF assms(1)] assms(2-4) by auto
  then show ?thesis by simp
qed

lemma lfu_new_wf: "0 < cap \<Longrightarrow> lfu_wf (LFUCache_new cap)"
  by (simp add: lfu_wf_def LFUCache_new_def nodes_wf_def holds_def)


subsection \<open>A hit\<close>

lemma length_update: "length (AList.update k v al) = (if k \<in> fst ` set al then length al else Suc (length al))"
proof -
  have "length (AList.update k v al) = length (map fst (AList.update k v al))" by simp
  also have "\<dots> = (if k \<in> fst ` set al then length al else Suc (length al))"
    unfolding AList.update_keys by simp
  finally show ?thesis .
qed

lemma lfu_wf_move:
  assumes wf: "lfu_wf c" and u: "map_of (lfu_map c) u = Some (i, a)" and ns: "nodes_wf ns"
    and h: "\<And>j b. holds ns j b \<longleftrightarrow> (j = t \<and> b = a) \<or> (holds (frequency_list c) j b \<and> b \<noteq> a)"
  shows "lfu_wf (c\<lparr>lfu_map := AList.update u (t, a) (lfu_map c), frequency_list := ns\<rparr>)"
proof -
  from lfu_wfD(3) [OF wf] u obtain e where e: "lfu_heap c a = Some e" "ce_url e = u"
    and ia: "holds (frequency_list c) i a" by blast
  have len: "length (AList.update u (t, a) (lfu_map c)) = length (lfu_map c)"
    using u by (auto simp: length_update dest: map_of_SomeD intro: rev_image_eqI)
  have mp: "map_of (AList.update u (t, a) (lfu_map c)) v = Some (j, b) \<longleftrightarrow>
      holds ns j b \<and> (\<exists>f. lfu_heap c b = Some f \<and> ce_url f = v)" for v j b
  proof (cases "v = u")
    case True
    have "b = a" if "lfu_heap c b = Some f" "ce_url f = u" for f
      using lfu_url_inj [OF wf that(1) e(1)] that(2) e(2) by simp
    with True e h show ?thesis unfolding AList.update_conv' by auto
  next
    case False
    with e h lfu_wfD(3) [OF wf, of v j b] show ?thesis unfolding AList.update_conv' by auto
  qed
  have hp: "lfu_heap c b \<noteq> None \<longleftrightarrow> (\<exists>j. holds ns j b)" for b
    using lfu_wfD(4) [OF wf, of b] h e by (cases "b = a") auto
  show ?thesis
    using wf ns mp hp len by (simp add: lfu_wf_def AList.distinct_update)
qed

lemma next_position:
  assumes "past_end lib = Some 0"
  obtains k where "std_next lib ns (find_frequency f ns) = Some k" "k \<le> length ns"
  using assms by (cases "find_frequency f ns < length ns") (auto simp: std_next_def)

text \<open>When no step of \<open>incrementFrequency\<close> is undefined: the lists are rings and no counter overflows, or wraps.\<close>

definition counts :: "platform \<Rightarrow> LFUCache \<Rightarrow> bool" where
  "counts lib c = (past_end lib = Some 0 \<and>
     (int_wraps lib \<or> (\<forall>n \<in> set (frequency_list c). frequency n < 2147483647)))"

lemma counts_gnu [simp]: "counts gnu c"
  by (simp add: counts_def)

lemma counts_next:
  assumes "counts lib c" "n \<in> set (frequency_list c)"
  obtains f where "next_int lib (frequency n) = Some f"
  using assms by (cases "frequency n < 2147483647") (auto simp: counts_def next_int_def)

lemma target_node:
  fixes nf :: int
  assumes ns: "nodes_wf ns" and k: "k \<le> length ns"
  defines "ns' \<equiv> (if k = length ns \<or> frequency (ns ! k) \<noteq> nf
       then take k ns @ \<lparr>fn_id = new_node_id ns, frequency = nf, elements = []\<rparr> # drop k ns else ns)"
  shows "nodes_wf ns'" "holds ns' j b = holds ns j b" "k < length ns'" "frequency (ns' ! k) = nf"
    "set ns \<subseteq> set ns'"
proof -
  let ?n = "\<lparr>fn_id = new_node_id ns, frequency = nf, elements = []\<rparr>"
  have ids: "fn_id ?n \<notin> fn_id ` set ns" using new_node_id_fresh by simp
  have s: "set (take k ns @ ?n # drop k ns) = insert ?n (set ns)"
    by (metis Un_insert_right append_take_drop_id list.simps(15) set_append)
  show "nodes_wf ns'" using nodes_insert [OF ns ids, of k] ns by (simp add: ns'_def)
  show "holds ns' j b = holds ns j b" using holds_insert [of ?n k ns] by (simp add: ns'_def)
  show "k < length ns'" "frequency (ns' ! k) = nf" using k by (auto simp: ns'_def nth_append)
  show "set ns \<subseteq> set ns'" using s by (auto simp: ns'_def)
qed

lemma tidied_nodes:
  assumes ns: "nodes_wf ns" and n: "n \<in> set ns"
  defines "ns' \<equiv> (if elements n = [] \<and> fn_id n \<noteq> fn_id (hd ns) then erase_node (fn_id n) ns else ns)"
  shows "nodes_wf ns'" "holds ns' j b \<longleftrightarrow> holds ns j b"
proof -
  show "nodes_wf ns'" using ns nodes_erase [OF ns, of "fn_id n"] by (simp add: ns'_def)
  have "holds ns (fn_id n) b \<longleftrightarrow> b \<in> set (elements n)"
    using holds_node [OF _ n] ns by (simp add: nodes_wf_def)
  then show "holds ns' j b \<longleftrightarrow> holds ns j b" by (auto simp: ns'_def holds_erase)
qed

lemma moved_nodes:
  assumes ns: "nodes_wf ns" and i: "\<forall>j. holds ns j a \<longrightarrow> j = i" and t: "t \<in> fn_id ` set ns"
  defines "ns' \<equiv> upd_node t (Cons a) (upd_node i (removeAll a) ns)"
  shows "nodes_wf ns'" "holds ns' j b \<longleftrightarrow> (j = t \<and> b = a) \<or> (holds ns j b \<and> b \<noteq> a)"
proof -
  let ?r = "upd_node i (removeAll a) ns"
  have w: "nodes_wf ?r"
    using ns by (intro nodes_wf_upd) (auto simp: nodes_wf_def distinct_removeAll)
  have h: "holds ?r j b \<longleftrightarrow> holds ns j b \<and> b \<noteq> a" for j b
    unfolding holds_upd_remove using i by auto
  show "nodes_wf ns'" unfolding ns'_def
  proof (rule nodes_wf_upd [OF w])
    fix n assume n: "n \<in> set ?r" "fn_id n = t"
    have "a \<notin> set (elements n)" using h [of t a] n by (auto simp: holds_def)
    then show "distinct (a # elements n)" using n(1) w by (simp add: nodes_wf_def)
  qed
  show "holds ns' j b \<longleftrightarrow> (j = t \<and> b = a) \<or> (holds ns j b \<and> b \<noteq> a)"
    unfolding ns'_def using t by (simp add: holds_upd_Cons h)
qed

lemma increment_spec:
  assumes wf: "lfu_wf c" and lib: "counts lib c" and u: "map_of (lfu_map c) u = Some (i, a)"
  shows "\<exists>ns t. incrementFrequency lib c u =
      Some (c\<lparr>lfu_map := AList.update u (t, a) (lfu_map c), frequency_list := ns\<rparr>) \<and>
    lfu_wf (c\<lparr>lfu_map := AList.update u (t, a) (lfu_map c), frequency_list := ns\<rparr>)"
proof -
  let ?ns = "frequency_list c"
  note nw = lfu_wfD(1) [OF wf]
  from lfu_wfD(3) [OF wf] u have ia: "holds ?ns i a" by blast
  then obtain cn where cn: "cn \<in> set ?ns" "fn_id cn = i" "a \<in> set (elements cn)" by (auto simp: holds_def)
  then have fc: "find_node ?ns i = Some cn" using find_node_Some nw by (simp add: nodes_wf_def)
  obtain nf where nf: "next_int lib (frequency cn) = Some nf" by (rule counts_next [OF lib cn(1)])
  have "past_end lib = Some 0" using lib by (simp add: counts_def)
  then obtain k where k: "std_next lib ?ns (find_frequency nf ?ns) = Some k" "k \<le> length ?ns"
    by (rule next_position)
  define ns1 where "ns1 = (if k = length ?ns \<or> frequency (?ns ! k) \<noteq> nf
       then take k ?ns @ \<lparr>fn_id = new_node_id ?ns, frequency = nf, elements = []\<rparr> # drop k ?ns else ?ns)"
  note n1 = target_node [OF nw k(2), of nf, folded ns1_def]
  define t where "t = fn_id (ns1 ! k)"
  have t1: "t \<in> fn_id ` set ns1" using n1(3) by (simp add: t_def)
  have only: "\<forall>j. holds ns1 j a \<longrightarrow> j = i" unfolding n1(2) using holds_unique [OF wf _ ia] by blast
  define ns3 where "ns3 = upd_node t (Cons a) (upd_node i (removeAll a) ns1)"
  note n3 = moved_nodes [OF n1(1) only t1, folded ns3_def]
  have "i \<in> fn_id ` set ns3" using n1(5) cn(1,2) by (auto simp: ns3_def)
  then obtain c3 where c3: "c3 \<in> set ns3" "fn_id c3 = i" by auto
  then have f3: "find_node ns3 i = Some c3" using find_node_Some n3(1) by (simp add: nodes_wf_def)
  define ns4 where "ns4 = (if elements c3 = [] \<and> i \<noteq> fn_id (hd ns3) then erase_node i ns3 else ns3)"
  note n4 = tidied_nodes [OF n3(1) c3(1), unfolded c3(2), folded ns4_def]
  have "incrementFrequency lib c u =
      Some (c\<lparr>lfu_map := AList.update u (t, a) (lfu_map c), frequency_list := ns4\<rparr>)"
    unfolding incrementFrequency_def Let_def u Option.bind_lunit prod.case fc nf k(1)
      ns1_def [symmetric] t_def [symmetric] ns3_def [symmetric]
    using cn(3) f3 by (simp add: ns4_def)
  moreover have "holds ns4 j b \<longleftrightarrow> (j = t \<and> b = a) \<or> (holds ?ns j b \<and> b \<noteq> a)" for j b
    unfolding n4(2) n3(2) n1(2) ..
  ultimately show ?thesis using lfu_wf_move [OF wf u n4(1)] by blast
qed

lemma lookup_move:
  assumes "lfu_wf c" "map_of (lfu_map c) u = Some (i, a)"
  shows "lfu_lookup (c\<lparr>lfu_map := AList.update u (t, a) (lfu_map c), frequency_list := ns\<rparr>) = lfu_lookup c"
  using assms(2) by (auto simp: lfu_lookup_def AList.update_conv' fun_eq_iff split: option.splits)


lemma lfu_find_spec:
  assumes wf: "lfu_wf c" and lib: "counts lib c"
  shows "\<exists>c' r. LFUCache_find lib c u now = Some (c', r) \<and> lfu_wf c' \<and> lfu_lookup c' = lfu_lookup c \<and>
    dom (lfu_heap c') = dom (lfu_heap c) \<and> lfu_capacity c' = lfu_capacity c \<and>
    (case r of None \<Rightarrow> lfu_lookup c u = None
     | Some a \<Rightarrow> lfu_lookup c u \<noteq> None \<and> map_option ce_data (lfu_heap c' a) = lfu_lookup c u)"
proof (cases "map_of (lfu_map c) u")
  case None
  with wf show ?thesis by (simp add: LFUCache_find_def lfu_lookup_def)
next
  case (Some ia)
  obtain i a where ia: "ia = (i, a)" by (cases ia)
  with Some have u: "map_of (lfu_map c) u = Some (i, a)" by simp
  from increment_spec [OF wf lib u] obtain ns t where
    inc: "incrementFrequency lib c u =
      Some (c\<lparr>lfu_map := AList.update u (t, a) (lfu_map c), frequency_list := ns\<rparr>)" and
    wf1: "lfu_wf (c\<lparr>lfu_map := AList.update u (t, a) (lfu_map c), frequency_list := ns\<rparr>)" by blast
  let ?c = "c\<lparr>lfu_map := AList.update u (t, a) (lfu_map c), frequency_list := ns\<rparr>"
  from lfu_wfD(3) [OF wf] u obtain e where e: "lfu_heap c a = Some e" "ce_url e = u" by blast
  let ?d = "?c\<lparr>lfu_heap := (lfu_heap c)(a \<mapsto> e\<lparr>ce_time := now\<rparr>)\<rparr>"
  have f: "LFUCache_find lib c u now = Some (?d, Some a)"
    using u inc e by (simp add: LFUCache_find_def)
  have "lfu_wf ?d" using wf1 e unfolding lfu_wf_def by (auto split: if_splits)
  moreover have "lfu_lookup ?d = lfu_lookup ?c"
    using e by (auto simp: lfu_lookup_def fun_eq_iff split: option.splits)
  moreover have "dom (lfu_heap ?d) = dom (lfu_heap c)" using e by auto
  ultimately show ?thesis using f lookup_move [OF wf u] u e
    by (intro exI [of _ ?d] exI [of _ "Some a"]) (simp add: lfu_lookup_def)
qed

subsection \<open>Eviction and insertion\<close>

lemma wf_drop:
  assumes wf: "lfu_wf c" and e: "lfu_heap c a = Some e" and ns: "nodes_wf ns"
    and h: "\<And>j b. holds ns j b \<longleftrightarrow> holds (frequency_list c) j b \<and> b \<noteq> a"
  shows "lfu_wf (c\<lparr>lfu_map := AList.delete (ce_url e) (lfu_map c), lfu_heap := (lfu_heap c)(a := None),
      frequency_list := ns\<rparr>)"
    and "lfu_lookup (c\<lparr>lfu_map := AList.delete (ce_url e) (lfu_map c), lfu_heap := (lfu_heap c)(a := None),
      frequency_list := ns\<rparr>) = (lfu_lookup c)(ce_url e := None)"
    and "length (AList.delete (ce_url e) (lfu_map c)) < length (lfu_map c)"
proof -
  let ?c = "c\<lparr>lfu_map := AList.delete (ce_url e) (lfu_map c), lfu_heap := (lfu_heap c)(a := None),
      frequency_list := ns\<rparr>"
  from lfu_wfD(4) [OF wf, of a] e obtain i where i: "holds (frequency_list c) i a" by auto
  have m: "map_of (lfu_map c) (ce_url e) = Some (i, a)" using lfu_wfD(3) [OF wf] i e by blast
  have other: "ce_url f \<noteq> ce_url e" if "lfu_heap c b = Some f" "b \<noteq> a" for b f
    using lfu_url_inj [OF wf that(1) e] that(2) by auto
  show len: "length (AList.delete (ce_url e) (lfu_map c)) < length (lfu_map c)"
    unfolding AList.delete_eq by (rule length_filter_less [OF map_of_SomeD [OF m]]) simp
  have mp: "map_of (AList.delete (ce_url e) (lfu_map c)) v = Some (j, b) \<longleftrightarrow>
      holds ns j b \<and> (\<exists>f. ((lfu_heap c)(a := None)) b = Some f \<and> ce_url f = v)" for v j b
  proof (cases "v = ce_url e")
    case True
    then show ?thesis unfolding AList.delete_conv' h using other by auto
  next
    case False
    then have "b \<noteq> a" if "lfu_heap c b = Some f" "ce_url f = v" for f using that e by auto
    with False lfu_wfD(3) [OF wf, of v j b] show ?thesis unfolding AList.delete_conv' h by auto
  qed
  have hp: "((lfu_heap c)(a := None)) b \<noteq> None \<longleftrightarrow> (\<exists>j. holds ns j b)" for b
    using lfu_wfD(4) [OF wf, of b] h by auto
  show "lfu_wf ?c"
    unfolding lfu_wf_def
  proof (intro conjI allI impI)
    show "map_of (lfu_map ?c) v = Some (j, b) \<longleftrightarrow> holds (frequency_list ?c) j b \<and>
        (\<exists>f. lfu_heap ?c b = Some f \<and> ce_url f = v)" for v j b using mp by simp
    show "lfu_heap ?c b \<noteq> None \<longleftrightarrow> (\<exists>j. holds (frequency_list ?c) j b)" for b using hp by simp
    show "ce_len f = int (length (ce_data f))" if "lfu_heap ?c b = Some f" for b f
      using that wf by (auto simp: lfu_wf_def split: if_splits)
    show "distinct (map fst (lfu_map ?c))" using lfu_wfD(2) [OF wf] by (simp add: AList.distinct_delete)
    show "length (lfu_map ?c) \<le> lfu_capacity ?c" "0 < lfu_capacity ?c"
      using lfu_wfD(5,6) [OF wf] len by simp_all
    show "nodes_wf (frequency_list ?c)" using ns by simp
  qed
  have "lfu_lookup ?c v = ((lfu_lookup c)(ce_url e := None)) v" for v
  proof (cases "v = ce_url e")
    case True
    then show ?thesis by (simp add: lfu_lookup_def AList.delete_conv')
  next
    case False
    have "b \<noteq> a" if "map_of (lfu_map c) v = Some (j, b)" for j b
      using that lfu_wfD(3) [OF wf, of v j b] e False by auto
    with False show ?thesis by (auto simp: lfu_lookup_def AList.delete_conv' split: option.splits)
  qed
  then show "lfu_lookup ?c = (lfu_lookup c)(ce_url e := None)" by (rule ext)
qed

lemma find_nonempty:
  assumes "lfu_wf c" "lfu_map c \<noteq> []"
  obtains n where "List.find (\<lambda>n. elements n \<noteq> []) (frequency_list c) = Some n"
    "n \<in> set (frequency_list c)" "elements n \<noteq> []"
proof -
  obtain u i a where "map_of (lfu_map c) u = Some (i, a)"
    using assms(2) by (cases "lfu_map c") (auto, metis map_of_Cons_code(2) prod.exhaust)
  then have "holds (frequency_list c) i a" using lfu_wfD(3) [OF assms(1)] by blast
  then have "\<exists>n \<in> set (frequency_list c). elements n \<noteq> []" unfolding holds_def by force
  then obtain n where n: "List.find (\<lambda>n. elements n \<noteq> []) (frequency_list c) = Some n"
    by (metis (mono_tags, lifting) find_None_iff not_None_eq)
  show ?thesis by (rule that [OF n find_SomeD [OF n]])
qed

lemma popped_nodes:
  assumes ns: "nodes_wf ns" and n: "n \<in> set ns" "elements n \<noteq> []"
    and only: "\<forall>j. holds ns j (last (elements n)) \<longrightarrow> j = fn_id n"
  defines "ns' \<equiv> upd_node (fn_id n) butlast ns"
  shows "nodes_wf ns'" "holds ns' j b \<longleftrightarrow> holds ns j b \<and> b \<noteq> last (elements n)"
    "n\<lparr>elements := butlast (elements n)\<rparr> \<in> set ns'"
proof -
  have ids: "distinct (map fn_id ns)" and d: "distinct (butlast (elements n) @ [last (elements n)])"
    using ns n by (simp_all add: nodes_wf_def)
  have same: "m = n" if "m \<in> set ns" "fn_id m = fn_id n" for m
    using ids that n(1) by (auto simp: distinct_map inj_on_def)
  have "set (elements n) = set (butlast (elements n) @ [last (elements n)])" using n(2) by simp
  with d have bl: "b \<in> set (butlast (elements n)) \<longleftrightarrow> b \<in> set (elements n) \<and> b \<noteq> last (elements n)" by auto
  show "nodes_wf ns'" unfolding ns'_def
    using ns by (intro nodes_wf_upd) (auto simp: nodes_wf_def distinct_butlast)
  show "n\<lparr>elements := butlast (elements n)\<rparr> \<in> set ns'"
    unfolding ns'_def upd_node_def set_map using n(1) by (intro image_eqI [of _ _ n]) simp_all
  show "holds ns' j b \<longleftrightarrow> holds ns j b \<and> b \<noteq> last (elements n)"
  proof (cases "j = fn_id n")
    case True
    then have "holds ns' j b \<longleftrightarrow> b \<in> set (butlast (elements n))"
      unfolding ns'_def holds_upd using same n(1) by auto
    with True holds_node [OF ids n(1)] bl show ?thesis by simp
  next
    case False
    then have "\<not> holds ns j (last (elements n))" using only by auto
    with False show ?thesis by (auto simp: ns'_def holds_upd)
  qed
qed

lemma lfu_evict_spec:
  assumes wf: "lfu_wf c" and ne: "lfu_map c \<noteq> []"
  shows "\<exists>c' n e. List.find (\<lambda>n. elements n \<noteq> []) (frequency_list c) = Some n \<and>
    lfu_heap c (last (elements n)) = Some e \<and> LFUCache_evict c = Some c' \<and> lfu_wf c' \<and>
    lfu_lookup c' = (lfu_lookup c)(ce_url e := None) \<and> length (lfu_map c') < length (lfu_map c) \<and>
    lfu_capacity c' = lfu_capacity c \<and> dom (lfu_heap c') \<subseteq> dom (lfu_heap c)"
proof -
  let ?ns = "frequency_list c"
  note nw = lfu_wfD(1) [OF wf]
  from find_nonempty [OF wf ne] obtain n where
    n: "List.find (\<lambda>n. elements n \<noteq> []) ?ns = Some n" "n \<in> set ?ns" "elements n \<noteq> []" by blast
  let ?v = "last (elements n)"
  have hv: "holds ?ns (fn_id n) ?v" using holds_node [OF _ n(2)] n(3) nw by (simp add: nodes_wf_def)
  then obtain e where e: "lfu_heap c ?v = Some e" using lfu_wfD(4) [OF wf, of ?v] by blast
  define ns1 where "ns1 = upd_node (fn_id n) butlast ?ns"
  define ns2 where "ns2 = (if butlast (elements n) = [] \<and> fn_id n \<noteq> fn_id (hd ns1)
         then erase_node (fn_id n) ns1 else ns1)"
  have "\<forall>j. holds ?ns j ?v \<longrightarrow> j = fn_id n" using holds_unique [OF wf _ hv] by blast
  note n1 = popped_nodes [OF nw n(2,3) this, folded ns1_def]
  have "elements (n\<lparr>elements := butlast (elements n)\<rparr>) = butlast (elements n)"
    "fn_id (n\<lparr>elements := butlast (elements n)\<rparr>) = fn_id n" by simp_all
  note n2 = tidied_nodes [OF n1(1,3), unfolded this, folded ns2_def, unfolded n1(2)]
  let ?c = "c\<lparr>lfu_map := AList.delete (ce_url e) (lfu_map c), lfu_heap := (lfu_heap c)(?v := None),
      frequency_list := ns2\<rparr>"
  have "LFUCache_evict c = Some ?c"
    unfolding LFUCache_evict_def n(1) Option.bind_lunit Let_def e ns1_def [symmetric] ns2_def [symmetric] ..
  with wf_drop [OF wf e n2] n(1) e show ?thesis
    by (intro exI [of _ ?c] exI [of _ n] exI [of _ e]) auto
qed

lemma wf_push:
  fixes d :: block and now :: int
  assumes wf: "lfu_wf c" and new: "lfu_heap c a = None" "map_of (lfu_map c) u = None"
    and room: "length (lfu_map c) < lfu_capacity c"
  defines "t \<equiv> fn_id (hd (frequency_list c))"
  defines "c' \<equiv> c\<lparr>lfu_heap := (lfu_heap c)(a \<mapsto> \<lparr>ce_data = d, ce_len = int (length d), ce_url = u, ce_time = now\<rparr>),
      frequency_list := upd_node t (Cons a) (frequency_list c),
      lfu_map := AList.update u (t, a) (lfu_map c)\<rparr>"
  shows "lfu_wf c'" "lfu_lookup c' = (lfu_lookup c)(u \<mapsto> d)"
proof -
  note nw = lfu_wfD(1) [OF wf]
  have t: "t \<in> fn_id ` set (frequency_list c)"
    using nw unfolding t_def nodes_wf_def by (intro imageI hd_in_set) simp
  have na: "\<not> holds (frequency_list c) j a" for j using lfu_wfD(4) [OF wf, of a] new(1) by auto
  have nu: "ce_url f \<noteq> u" if "lfu_heap c b = Some f" for b f
    using that new(2) lfu_wfD(3) [OF wf, of u _ b] lfu_wfD(4) [OF wf, of b] by force
  have nodes: "nodes_wf (upd_node t (Cons a) (frequency_list c))"
    using nw na by (intro nodes_wf_upd) (auto simp: nodes_wf_def holds_def)
  have h: "holds (frequency_list c') j b \<longleftrightarrow> (j = t \<and> b = a) \<or> holds (frequency_list c) j b" for j b
    by (simp add: c'_def holds_upd_Cons [OF t])
  show "lfu_wf c'"
    unfolding lfu_wf_def
  proof (intro conjI allI impI)
    show "nodes_wf (frequency_list c')" using nodes by (simp add: c'_def)
    show "distinct (map fst (lfu_map c'))"
      using lfu_wfD(2) [OF wf] by (simp add: c'_def AList.distinct_update)
    show "map_of (lfu_map c') v = Some (j, b) \<longleftrightarrow> holds (frequency_list c') j b \<and>
        (\<exists>f. lfu_heap c' b = Some f \<and> ce_url f = v)" for v j b
    proof (cases "v = u")
      case True
      then show ?thesis unfolding h using nu na by (auto simp: c'_def AList.update_conv')
    next
      case False
      with lfu_wfD(3) [OF wf, of v j b] na show ?thesis
        unfolding h by (auto simp: c'_def AList.update_conv')
    qed
    show "lfu_heap c' b \<noteq> None \<longleftrightarrow> (\<exists>j. holds (frequency_list c') j b)" for b
      unfolding h using lfu_wfD(4) [OF wf, of b] by (auto simp: c'_def)
    show "ce_len f = int (length (ce_data f))" if "lfu_heap c' b = Some f" for b f
      using that wf by (auto simp: c'_def lfu_wf_def split: if_splits)
    have "u \<notin> fst ` set (lfu_map c)" using new(2) by (simp add: map_of_eq_None_iff)
    then show "length (lfu_map c') \<le> lfu_capacity c'" "0 < lfu_capacity c'"
      using room by (simp_all add: c'_def length_update)
  qed
  show "lfu_lookup c' = (lfu_lookup c)(u \<mapsto> d)"
  proof
    fix v
    have "b \<noteq> a" if "map_of (lfu_map c) v = Some (j, b)" for j b
      using that lfu_wfD(3) [OF wf, of v j b] na by auto
    then show "lfu_lookup c' v = ((lfu_lookup c)(u \<mapsto> d)) v"
      by (auto simp: c'_def lfu_lookup_def AList.update_conv' split: option.splits)
  qed
qed

lemma lookup_None: "lfu_wf c \<Longrightarrow> lfu_lookup c u = None \<longleftrightarrow> map_of (lfu_map c) u = None"
  using lfu_wfD(3) [of c u] by (auto simp: lfu_lookup_def split: option.splits)

lemma lfu_add_hit:
  assumes "lfu_wf c" "lfu_lookup c u \<noteq> None" "counts lib c"
  shows "\<exists>c'. LFUCache_add lib c a now u d n = Some c' \<and> lfu_wf c' \<and> lfu_lookup c' = lfu_lookup c"
proof -
  from assms(2) obtain i b where u: "map_of (lfu_map c) u = Some (i, b)"
    unfolding lookup_None [OF assms(1)] by auto
  from increment_spec [OF assms(1,3) u] lookup_move [OF assms(1) u] u show ?thesis
    by (auto simp: LFUCache_add_def)
qed

text \<open>\<open>add\<close> of a new URL: what is evicted from a full cache, then the push.\<close>

definition lfu_victim :: "LFUCache \<Rightarrow> string option" where
  "lfu_victim c = (if length (lfu_map c) < lfu_capacity c then None else do {
     n \<leftarrow> List.find (\<lambda>n. elements n \<noteq> []) (frequency_list c);
     e \<leftarrow> lfu_heap c (last (elements n));
     Some (ce_url e) })"

lemma lfu_add_new:
  assumes wf: "lfu_wf c" and a: "lfu_heap c a = None" and u: "lfu_lookup c u = None"
    and n: "n = int (length d)"
  shows "\<exists>c'. LFUCache_add lib c a now u d n = Some c' \<and> lfu_wf c' \<and>
    lfu_lookup c' = (case lfu_victim c of None \<Rightarrow> lfu_lookup c | Some v \<Rightarrow> (lfu_lookup c)(v := None))(u \<mapsto> d)"
proof -
  have um: "map_of (lfu_map c) u = None" using u lookup_None [OF wf] by simp
  obtain c1 where c1: "(if length (lfu_map c) \<ge> lfu_capacity c then LFUCache_evict c else Some c) = Some c1"
    "lfu_wf c1" "length (lfu_map c1) < lfu_capacity c1" "lfu_heap c1 a = None"
    "lfu_lookup c1 = (case lfu_victim c of None \<Rightarrow> lfu_lookup c | Some v \<Rightarrow> (lfu_lookup c)(v := None))"
  proof (cases "length (lfu_map c) < lfu_capacity c")
    case True
    with wf a that [of c] show ?thesis by (simp add: lfu_victim_def)
  next
    case False
    then have "lfu_map c \<noteq> []" using lfu_wfD(6) [OF wf] by auto
    from lfu_evict_spec [OF wf this] obtain c' m e where
      ev: "List.find (\<lambda>n. elements n \<noteq> []) (frequency_list c) = Some m"
      "lfu_heap c (last (elements m)) = Some e" "LFUCache_evict c = Some c'" "lfu_wf c'"
      "lfu_lookup c' = (lfu_lookup c)(ce_url e := None)" "length (lfu_map c') < length (lfu_map c)"
      "lfu_capacity c' = lfu_capacity c" "dom (lfu_heap c') \<subseteq> dom (lfu_heap c)" by blast
    have v: "lfu_victim c = Some (ce_url e)" using False ev(1,2) by (simp add: lfu_victim_def)
    have "lfu_heap c' a = None" using a ev(8) by auto
    moreover have "length (lfu_map c') < lfu_capacity c'" using ev(6,7) lfu_wfD(5) [OF wf] by simp
    ultimately show ?thesis using that [of c'] ev(3-5) False by (simp add: v not_less)
  qed
  have "lfu_lookup c1 u = None" using c1(5) u by (auto split: option.splits)
  then have um1: "map_of (lfu_map c1) u = None" using lookup_None [OF c1(2)] by simp
  have "frequency_list c1 \<noteq> []" using lfu_wfD(1) [OF c1(2)] by (simp add: nodes_wf_def)
  with um c1(1) n show ?thesis
    using wf_push [OF c1(2,4) um1 c1(3), of d now]
    by (simp add: LFUCache_add_def Let_def c1(5) [symmetric])
qed

lemma lfu_remove_spec:
  assumes wf: "lfu_wf c"
  shows "\<exists>c'. LFUCache_remove c u = Some c' \<and> lfu_wf c' \<and> lfu_lookup c' = (lfu_lookup c)(u := None)"
proof (cases "map_of (lfu_map c) u")
  case None
  with wf lookup_None [OF wf, of u] show ?thesis by (auto simp: LFUCache_remove_def)
next
  case (Some ia)
  obtain i a where ia: "ia = (i, a)" by (cases ia)
  from Some ia lfu_wfD(3) [OF wf, of u i a] obtain e where
    h: "holds (frequency_list c) i a" and e: "lfu_heap c a = Some e" "ce_url e = u" by auto
  note nw = lfu_wfD(1) [OF wf]
  from h obtain n where n: "n \<in> set (frequency_list c)" "fn_id n = i" "a \<in> set (elements n)"
    by (auto simp: holds_def)
  then have fn: "find_node (frequency_list c) i = Some n"
    using find_node_Some [of "frequency_list c" i n] nw by (simp add: nodes_wf_def)
  have w: "nodes_wf (upd_node i (removeAll a) (frequency_list c))"
    using nw by (intro nodes_wf_upd) (auto simp: nodes_wf_def distinct_removeAll)
  have "holds (upd_node i (removeAll a) (frequency_list c)) j b \<longleftrightarrow> holds (frequency_list c) j b \<and> b \<noteq> a" for j b
    unfolding holds_upd_remove using holds_unique [OF wf _ h] by auto
  note drop = wf_drop [OF wf e(1) w this, unfolded e(2)]
  have "LFUCache_remove c u = Some (c\<lparr>lfu_map := AList.delete u (lfu_map c), lfu_heap := (lfu_heap c)(a := None),
      frequency_list := upd_node i (removeAll a) (frequency_list c)\<rparr>)"
    using e Some ia n(3) fn by (cases c) (simp add: LFUCache_remove_def)
  with drop(1,2) show ?thesis by blast
qed

subsection \<open>The cache strategy\<close>

definition lfu_used :: "LFUCache \<Rightarrow> nat set" where
  "lfu_used c = dom (lfu_heap c)"

definition lfu_element :: "LFUCache \<Rightarrow> nat \<Rightarrow> block option" where
  "lfu_element c a = map_option ce_data (lfu_heap c a)"

interpretation lfu: cache_strategy "LFUCache_find gnu" "LFUCache_add gnu" LFUCache_remove
    lfu_lookup lfu_element lfu_used lfu_wf
proof
  fix c u now a n and d :: block
  assume wf: "lfu_wf c"
  from lfu_find_spec [OF wf counts_gnu, of u now] show "\<exists>c' r. LFUCache_find gnu c u now = Some (c', r) \<and> lfu_wf c' \<and>
      lfu_lookup c' = lfu_lookup c \<and> lfu_used c' = lfu_used c \<and>
      (case r of None \<Rightarrow> lfu_lookup c u = None
       | Some a \<Rightarrow> lfu_lookup c u \<noteq> None \<and> lfu_element c' a = lfu_lookup c u)"
    unfolding lfu_used_def lfu_element_def by blast
  show "\<exists>c'. LFUCache_remove c u = Some c' \<and> lfu_wf c' \<and> lfu_lookup c' = (lfu_lookup c)(u := None)"
    by (rule lfu_remove_spec [OF wf])
  assume a: "a \<notin> lfu_used c" and n: "n = int (length d)"
  show "\<exists>c'. LFUCache_add gnu c a now u d n = Some c' \<and> lfu_wf c' \<and>
      lfu_lookup c' u = (if lfu_lookup c u = None then Some d else lfu_lookup c u) \<and>
      (\<forall>u'. u' \<noteq> u \<longrightarrow> lfu_lookup c' u' \<noteq> None \<longrightarrow> lfu_lookup c' u' = lfu_lookup c u')"
  proof (cases "lfu_lookup c u = None")
    case True
    have "lfu_heap c a = None" using a by (auto simp: lfu_used_def)
    from lfu_add_new [OF wf this True n, of gnu now] True show ?thesis by (auto split: option.splits)
  next
    case False
    from lfu_add_hit [OF wf False counts_gnu, of a now d n] False show ?thesis by auto
  qed
qed


subsection \<open>A hit on one of the most used elements\<close>

lemma upd_node_Cons:
  "upd_node i f (n # ns) = (if fn_id n = i then n\<lparr>elements := f (elements n)\<rparr> else n) # upd_node i f ns"
  by (simp add: upd_node_def)

lemma upd_absent: "i \<notin> fn_id ` set ns \<Longrightarrow> upd_node i f ns = ns"
  by (induction ns) (auto simp: upd_node_def)

lemma increment_front:
  assumes wf: "lfu_wf c" and u: "map_of (lfu_map c) u = Some (i, a)"
    and n: "find_node (frequency_list c) i = Some n"
    and top: "\<forall>m \<in> set (frequency_list c). frequency m \<le> frequency n"
    and lib: "past_end lib = Some 0" "frequency n < 2147483647"
  shows "\<exists>m ns. incrementFrequency lib c u =
      Some (c\<lparr>lfu_map := AList.update u (fn_id m, a) (lfu_map c), frequency_list := m # ns\<rparr>) \<and>
      elements m = [a] \<and> frequency m = frequency n + 1 \<and> (\<forall>k \<in> set ns. frequency k \<le> frequency n)"
proof -
  let ?ns = "frequency_list c" and ?f = "frequency n + 1"
  let ?t = "new_node_id ?ns"
  note nw = lfu_wfD(1) [OF wf]
  then have ids: "distinct (map fn_id ?ns)" "?ns \<noteq> []" by (simp_all add: nodes_wf_def)
  have nn: "n \<in> set ?ns" "fn_id n = i" using find_node_Some [OF ids(1)] n by auto
  have ia: "a \<in> set (elements n)" using lfu_wfD(3) [OF wf, of u i a] u holds_node [OF ids(1) nn(1)] nn(2) by auto
  have tw: "takeWhile (\<lambda>m. \<not> ?f \<le> frequency m) ?ns = ?ns" using top by (auto simp: takeWhile_eq_all_conv)
  have k: "std_next lib ?ns (find_frequency ?f ?ns) = Some 0"
    unfolding find_frequency_def tw std_next_def using lib(1) by simp
  have nx: "next_int lib (frequency n) = Some ?f" using lib(2) by (simp add: next_int_def)
  have fr: "frequency (?ns ! 0) \<noteq> ?f" using top ids(2) by (metis nth_mem length_greater_0_conv zle_add1_eq_le less_irrefl)
  have ti: "?t \<noteq> i" "?t \<notin> fn_id ` set ?ns" using new_node_id_fresh [of ?ns] nn by auto
  let ?m = "\<lparr>fn_id = ?t, frequency = ?f, elements = [a]\<rparr>"
  let ?rest = "upd_node i (removeAll a) ?ns"
  have ns3: "upd_node ?t (Cons a) (upd_node i (removeAll a) (\<lparr>fn_id = ?t, frequency = ?f, elements = []\<rparr> # ?ns)) = ?m # ?rest"
    using ti upd_absent [of ?t "?rest"] by (simp add: upd_node_Cons)
  have "i \<in> fn_id ` set ?rest" using nn by auto
  then obtain c3 where "c3 \<in> set ?rest" "fn_id c3 = i" by blast
  then have c3: "find_node ?rest i = Some c3" using find_node_Some [of ?rest i c3] ids(1) by simp
  then have c3': "find_node (?m # ?rest) i = Some c3" using ti(1) by (simp add: find_node_def)
  have "incrementFrequency lib c u =
      Some (c\<lparr>lfu_map := AList.update u (?t, a) (lfu_map c),
        frequency_list := (if elements c3 = [] \<and> i \<noteq> ?t then erase_node i (?m # ?rest) else ?m # ?rest)\<rparr>)"
    unfolding incrementFrequency_def Let_def u Option.bind_lunit prod.case n nx k
    using fr ia ids(2) ns3 c3' by simp
  moreover have "erase_node i (?m # ?rest) = ?m # erase_node i ?rest" using ti(1) by (simp add: erase_node_def)
  moreover have "\<forall>k \<in> set ?rest. frequency k \<le> frequency n" using top by (auto simp: upd_node_def)
  then have "\<forall>k \<in> set (erase_node i ?rest). frequency k \<le> frequency n" by (simp add: erase_node_def)
  ultimately show ?thesis using \<open>\<forall>k \<in> set ?rest. frequency k \<le> frequency n\<close>
    by (intro exI [of _ ?m] exI [of _ "if elements c3 = [] \<and> i \<noteq> ?t then erase_node i ?rest else ?rest"]) simp
qed

text \<open>With a library that leaves \<open>std::next(end())\<close> undefined the list never grows.\<close>

definition only_zero :: "LFUCache \<Rightarrow> bool" where
  "only_zero c = (\<exists>i es. frequency_list c = [\<lparr>fn_id = i, frequency = 0, elements = es\<rparr>])"

lemma increment_undefined:
  assumes "only_zero c" "past_end lib = None"
  shows "incrementFrequency lib c u = None"
proof (cases "map_of (lfu_map c) u")
  case None
  then show ?thesis by (simp add: incrementFrequency_def)
next
  case (Some ia)
  obtain i a where ia: "ia = (i, a)" by (cases ia)
  from assms(1) obtain j es where l: "frequency_list c = [\<lparr>fn_id = j, frequency = 0, elements = es\<rparr>]"
    by (auto simp: only_zero_def)
  then have "find_node (frequency_list c) i = None \<or>
      find_node (frequency_list c) i = Some \<lparr>fn_id = j, frequency = 0, elements = es\<rparr>"
    by (simp add: find_node_def)
  moreover have "std_next lib (frequency_list c) (find_frequency 1 (frequency_list c)) = None"
    by (simp add: l find_frequency_def std_next_def assms(2))
  ultimately show ?thesis using Some ia by (auto simp: incrementFrequency_def next_int_def)
qed

lemma only_zero_new:
  assumes "only_zero c" "map_of (lfu_map c) u = None" "LFUCache_add lib c a now u d n = Some c'"
  shows "only_zero c'"
proof -
  from assms(1) obtain i es where l: "frequency_list c = [\<lparr>fn_id = i, frequency = 0, elements = es\<rparr>]"
    by (auto simp: only_zero_def)
  have ev: "only_zero c1" if "LFUCache_evict c = Some c1" for c1
    using that l by (auto simp: LFUCache_evict_def only_zero_def upd_node_def Let_def split: bind_splits if_splits)
  from assms(2,3) obtain c1 where c1: "(if length (lfu_map c) \<ge> lfu_capacity c then LFUCache_evict c else Some c) = Some c1"
    "frequency_list c' = upd_node (fn_id (hd (frequency_list c1))) (Cons a) (frequency_list c1)"
    by (auto simp: LFUCache_add_def Let_def split: bind_splits if_splits)
  then have "only_zero c1" using ev assms(1) by (auto split: if_splits)
  then show ?thesis using c1(2) by (auto simp: only_zero_def upd_node_def)
qed

lemma only_zero_add:
  assumes "only_zero c" "past_end lib = None" "LFUCache_add lib c a now u d n = Some c'"
  shows "only_zero c'"
proof -
  from assms(3) have "map_of (lfu_map c) u = None"
    using increment_undefined [OF assms(1,2), of u] by (cases "map_of (lfu_map c) u") (simp_all add: LFUCache_add_def)
  from only_zero_new [OF assms(1) this assms(3)] show ?thesis .
qed

subsection \<open>Sequences of operations\<close>

datatype cache_op = Find string | Add string block | Remove string

fun lfu_run :: "platform \<Rightarrow> LFUCache \<Rightarrow> nat \<Rightarrow> cache_op list \<Rightarrow> LFUCache option" where
  "lfu_run lib c a [] = Some c"
| "lfu_run lib c a (Find u # ops) = do { (c, _) \<leftarrow> LFUCache_find lib c u (int a); lfu_run lib c (Suc a) ops }"
| "lfu_run lib c a (Add u d # ops) = do {
     c \<leftarrow> LFUCache_add lib c a (int a) u d (int (length d)); lfu_run lib c (Suc a) ops }"
| "lfu_run lib c a (Remove u # ops) = do { c \<leftarrow> LFUCache_remove c u; lfu_run lib c (Suc a) ops }"

lemma only_zero_run:
  "past_end lib = None \<Longrightarrow> lfu_run lib c a ops = Some c' \<Longrightarrow> only_zero c \<Longrightarrow> only_zero c'"
proof (induction lib c a ops rule: lfu_run.induct)
  case (2 lib c a u ops)
  then have "map_of (lfu_map c) u = None"
    using increment_undefined [OF "2.prems"(3,1), of u]
    by (cases "map_of (lfu_map c) u") (auto simp: LFUCache_find_def)
  with 2 show ?case by (simp add: LFUCache_find_def)
next
  case (3 lib c a u d ops)
  then show ?case by (auto split: bind_splits dest: only_zero_add)
next
  case (4 lib c a u ops)
  then obtain c1 where c1: "LFUCache_remove c u = Some c1" "lfu_run lib c1 (Suc a) ops = Some c'"
    by (auto split: bind_splits)
  have "only_zero c1"
    using c1(1) "4.prems"(3) by (auto simp: LFUCache_remove_def only_zero_def upd_node_def
        split: option.splits bind_splits if_splits)
  with 4 c1 show ?case by simp
qed simp

text \<open>The proxy in front of an origin server, as for the LRU cache.\<close>

definition lfu_serve ::
  "(string \<Rightarrow> block) \<Rightarrow> LFUCache \<Rightarrow> nat \<Rightarrow> int \<Rightarrow> string \<Rightarrow> (LFUCache \<times> block) option" where
  "lfu_serve origin c a now u = do {
     (c, r) \<leftarrow> LFUCache_find gnu c u now;
     case r of
       Some b \<Rightarrow> do { d \<leftarrow> lfu_element c b; Some (c, d) }
     | None \<Rightarrow> do {
         c \<leftarrow> LFUCache_add gnu c a now u (origin u) (int (length (origin u)));
         Some (c, origin u) } }"

fun lfu_serve_all ::
  "(string \<Rightarrow> block) \<Rightarrow> LFUCache \<Rightarrow> nat \<Rightarrow> string list \<Rightarrow> (LFUCache \<times> block list) option" where
  "lfu_serve_all origin c a [] = Some (c, [])"
| "lfu_serve_all origin c a (u # us) = do {
     (c, d) \<leftarrow> lfu_serve origin c a (int a) u;
     (c, ds) \<leftarrow> lfu_serve_all origin c (Suc a) us;
     Some (c, d # ds) }"

lemma lfu_serve_locale: "lfu_serve origin c a now u = lfu.serve origin c a now now u"
  by (simp add: lfu_serve_def lfu.serve_def)

lemma increment_heap: "incrementFrequency lib c u = Some c' \<Longrightarrow> lfu_heap c' = lfu_heap c"
  by (auto simp: incrementFrequency_def Let_def split: bind_splits if_splits)

lemma lfu_add_dom:
  "LFUCache_add lib c a now u d n = Some c' \<Longrightarrow> dom (lfu_heap c') \<subseteq> insert a (dom (lfu_heap c))"
  by (auto simp: LFUCache_add_def LFUCache_evict_def Let_def split: bind_splits if_splits dest: increment_heap)

lemma lfu_serve_dom:
  assumes "lfu_serve origin c a now u = Some (c', d)" "lfu_wf c" "\<forall>b \<in> dom (lfu_heap c). b < a"
  shows "\<forall>b \<in> dom (lfu_heap c'). b < Suc a"
proof -
  from assms(1) obtain c1 r where f: "LFUCache_find gnu c u now = Some (c1, r)" and
    g: "if r = None then LFUCache_add gnu c1 a now u (origin u) (int (length (origin u))) = Some c' else c1 = c'"
    by (auto simp: lfu_serve_def split: bind_splits option.splits)
  from lfu_find_spec [OF assms(2) counts_gnu, of u now] f have d1: "dom (lfu_heap c1) = dom (lfu_heap c)" by auto
  have "dom (lfu_heap c') \<subseteq> insert a (dom (lfu_heap c1))"
    using g lfu_add_dom [of gnu c1 a now u "origin u" "int (length (origin u))" c'] by (cases r) auto
  with assms(3) d1 show ?thesis by (metis insertE less_Suc_eq subsetD)
qed

subsection \<open>Filling the cache and asking for one URL only\<close>

lemma lfu_run_append:
  "lfu_run lib c a (xs @ ys) = bind (lfu_run lib c a xs) (\<lambda>c. lfu_run lib c (a + length xs) ys)"
  by (induction lib c a xs rule: lfu_run.induct) (auto split: bind_splits)

lemma add_new_effect:
  assumes "lfu_wf c" "lfu_lookup c u = None" "length (lfu_map c) < lfu_capacity c"
    and "LFUCache_add lib c a now u d n = Some c'"
  shows "length (lfu_map c') = Suc (length (lfu_map c))" "lfu_capacity c' = lfu_capacity c"
proof -
  have u: "map_of (lfu_map c) u = None" using assms(2) lookup_None [OF assms(1)] by simp
  then have "u \<notin> fst ` set (lfu_map c)" by (simp add: map_of_eq_None_iff)
  with u assms(3,4) show "length (lfu_map c') = Suc (length (lfu_map c))" "lfu_capacity c' = lfu_capacity c"
    by (auto simp: LFUCache_add_def Let_def length_update split: if_splits)
qed

lemma adding:
  assumes "lfu_wf c" "only_zero c" "distinct (map fst ps)" "\<forall>x \<in> fst ` set ps. lfu_lookup c x = None"
    and "length (lfu_map c) + length ps \<le> lfu_capacity c" "\<forall>b \<in> dom (lfu_heap c). b < a"
  shows "\<exists>c'. lfu_run lib c a (map (\<lambda>(x, b). Add x b) ps) = Some c' \<and> lfu_wf c' \<and> only_zero c' \<and>
    lfu_lookup c' = lfu_lookup c ++ map_of ps \<and> length (lfu_map c') = length (lfu_map c) + length ps \<and>
    lfu_capacity c' = lfu_capacity c \<and> (\<forall>b \<in> dom (lfu_heap c'). b < a + length ps)"
  using assms
proof (induction ps arbitrary: c a)
  case Nil
  then show ?case by simp
next
  case (Cons p ps)
  obtain x b where p: "p = (x, b)" by (cases p)
  with Cons.prems have x: "lfu_lookup c x = None" and l: "length (lfu_map c) < lfu_capacity c"
    and a: "lfu_heap c a = None" by auto
  have "lfu_victim c = None" using l by (simp add: lfu_victim_def)
  with lfu_add_new [OF Cons.prems(1) a x refl, of lib "int a" b] obtain c1 where
    c1: "LFUCache_add lib c a (int a) x b (int (length b)) = Some c1" "lfu_wf c1" "lfu_lookup c1 = (lfu_lookup c)(x \<mapsto> b)"
    by auto
  note e = add_new_effect [OF Cons.prems(1) x l c1(1)]
  have "map_of (lfu_map c) x = None" using x lookup_None [OF Cons.prems(1)] by simp
  note z = only_zero_new [OF Cons.prems(2) this c1(1)]
  have d: "\<forall>b \<in> dom (lfu_heap c1). b < Suc a" using lfu_add_dom [OF c1(1)] Cons.prems(6) by (metis insertE less_Suc_eq subsetD)
  have "distinct (map fst ps)" "\<forall>y \<in> fst ` set ps. lfu_lookup c1 y = None" "x \<notin> fst ` set ps"
    "length (lfu_map c1) + length ps \<le> lfu_capacity c1"
    using Cons.prems(3-5) c1(3) e p by auto
  with Cons.IH [OF c1(2) z _ _ _ d] obtain c' where
    "lfu_run lib c1 (Suc a) (map (\<lambda>(x, b). Add x b) ps) = Some c'" "lfu_wf c'" "only_zero c'"
    "lfu_lookup c' = lfu_lookup c1 ++ map_of ps" "length (lfu_map c') = length (lfu_map c1) + length ps"
    "lfu_capacity c' = lfu_capacity c1" "\<forall>b \<in> dom (lfu_heap c'). b < Suc a + length ps" by blast
  moreover from this(4) have "lfu_lookup c' = lfu_lookup c ++ map_of (p # ps)"
    using \<open>x \<notin> fst ` set ps\<close> c1(3)
    by (auto simp: p map_add_def fun_eq_iff map_of_eq_None_iff [symmetric] split: option.splits)
  ultimately show ?case using c1(1) e by (intro exI [of _ c']) (simp add: p del: map_of.simps)
qed

lemma filled_cache:
  assumes "0 < cap" "distinct (map fst ps)" "length ps = cap"
  shows "\<exists>c. lfu_run lib (LFUCache_new cap) 0 (map (\<lambda>(x, b). Add x b) ps) = Some c \<and> lfu_wf c \<and> only_zero c \<and>
    lfu_lookup c = map_of ps \<and> length (lfu_map c) = lfu_capacity c \<and> (\<forall>b \<in> dom (lfu_heap c). b < length ps)"
proof -
  have e: "lfu_lookup (LFUCache_new cap) = Map.empty" "only_zero (LFUCache_new cap)" "lfu_map (LFUCache_new cap) = []"
    "lfu_capacity (LFUCache_new cap) = cap" "lfu_heap (LFUCache_new cap) = Map.empty"
    by (simp_all add: LFUCache_new_def lfu_lookup_def only_zero_def fun_eq_iff)
  from adding [OF lfu_new_wf [OF assms(1)] e(2) assms(2), of 0 lib] assms(3) show ?thesis by (auto simp: e)
qed

text \<open>u is in a node of the highest frequency, f; and it is alone in it, at the front of the list.\<close>

definition hot :: "LFUCache \<Rightarrow> string \<Rightarrow> int \<Rightarrow> bool" where
  "hot c u f = (lfu_wf c \<and> (\<exists>i a n. map_of (lfu_map c) u = Some (i, a) \<and>
     find_node (frequency_list c) i = Some n \<and> frequency n = f \<and> (\<forall>m \<in> set (frequency_list c). frequency m \<le> f)))"

definition hot_front :: "LFUCache \<Rightarrow> string \<Rightarrow> bool" where
  "hot_front c u = (\<exists>m ns a e. frequency_list c = m # ns \<and> elements m = [a] \<and> lfu_heap c a = Some e \<and> ce_url e = u)"

lemma hot_victim: "hot_front c u \<Longrightarrow> length (lfu_map c) = lfu_capacity c \<Longrightarrow> lfu_victim c = Some u"
  by (auto simp: hot_front_def lfu_victim_def)

lemma zero_hot:
  assumes "lfu_wf c" "only_zero c" "lfu_lookup c u \<noteq> None"
  shows "hot c u 0"
proof -
  from assms(3) lookup_None [OF assms(1)] obtain i a where u: "map_of (lfu_map c) u = Some (i, a)" by auto
  then have "holds (frequency_list c) i a" using lfu_wfD(3) [OF assms(1)] by blast
  with assms(2) have "\<exists>n. find_node (frequency_list c) i = Some n \<and> frequency n = 0"
    by (auto simp: only_zero_def holds_def find_node_def)
  with assms(1,2) u show ?thesis by (auto simp: hot_def only_zero_def)
qed

lemma hot_find:
  assumes "past_end lib = Some 0" "hot c u f" "f < 2147483647"
  shows "\<exists>c' p. LFUCache_find lib c u now = Some (c', Some p) \<and> hot c' u (f + 1) \<and> hot_front c' u \<and>
    lfu_lookup c' = lfu_lookup c \<and> dom (lfu_heap c') = dom (lfu_heap c) \<and>
    lfu_capacity c' = lfu_capacity c \<and> length (lfu_map c') = length (lfu_map c)"
proof -
  from assms(2) obtain i a n where wf: "lfu_wf c" and u: "map_of (lfu_map c) u = Some (i, a)"
    and n: "find_node (frequency_list c) i = Some n" "frequency n = f" "\<forall>m \<in> set (frequency_list c). frequency m \<le> f"
    by (auto simp: hot_def)
  have lib: "counts lib c" using assms(1,3) n(3) by (fastforce simp: counts_def)
  from increment_front [OF wf u n(1) _ assms(1)] n(2,3) assms(3) obtain m ns where
    inc: "incrementFrequency lib c u =
      Some (c\<lparr>lfu_map := AList.update u (fn_id m, a) (lfu_map c), frequency_list := m # ns\<rparr>)" and
    m: "elements m = [a]" "frequency m = f + 1" "\<forall>k \<in> set ns. frequency k \<le> f" by auto
  from lfu_wfD(3) [OF wf] u obtain e where e: "lfu_heap c a = Some e" "ce_url e = u" by blast
  let ?c = "c\<lparr>lfu_map := AList.update u (fn_id m, a) (lfu_map c), frequency_list := m # ns,
    lfu_heap := (lfu_heap c)(a \<mapsto> e\<lparr>ce_time := now\<rparr>)\<rparr>"
  have f: "LFUCache_find lib c u now = Some (?c, Some a)"
    using u inc e by (simp add: LFUCache_find_def)
  with lfu_find_spec [OF wf lib, of u now] have
    c: "lfu_wf ?c" "lfu_lookup ?c = lfu_lookup c" "dom (lfu_heap ?c) = dom (lfu_heap c)" by auto
  have "u \<in> fst ` set (lfu_map c)" using u by (force dest: map_of_SomeD)
  then have len: "length (lfu_map ?c) = length (lfu_map c)" by (simp add: length_update)
  have "hot ?c u (f + 1)" unfolding hot_def using c(1) m
    by (intro conjI exI [of _ "fn_id m"] exI [of _ a] exI [of _ m])
      (auto simp: find_node_def AList.update_conv' intro: order.trans)
  moreover have "hot_front ?c u" using m(1) e(2) by (simp add: hot_front_def)
  ultimately show ?thesis using f c len by (intro exI [of _ ?c] exI [of _ a]) simp
qed

lemma hot_finds:
  assumes "past_end lib = Some 0" "hot c u f" "f + int k \<le> 2147483647"
  shows "\<exists>c'. lfu_run lib c a (replicate k (Find u)) = Some c' \<and> hot c' u (f + int k) \<and>
    lfu_lookup c' = lfu_lookup c \<and> dom (lfu_heap c') = dom (lfu_heap c) \<and>
    lfu_capacity c' = lfu_capacity c \<and> length (lfu_map c') = length (lfu_map c) \<and> (0 < k \<longrightarrow> hot_front c' u)"
  using assms(2,3)
proof (induction k arbitrary: c a f)
  case 0
  then show ?case by simp
next
  case (Suc k)
  from hot_find [OF assms(1) Suc.prems(1), of "int a"] Suc.prems(2) obtain c1 p where
    c1: "LFUCache_find lib c u (int a) = Some (c1, Some p)" "hot c1 u (f + 1)" "hot_front c1 u"
      "lfu_lookup c1 = lfu_lookup c" "dom (lfu_heap c1) = dom (lfu_heap c)"
      "lfu_capacity c1 = lfu_capacity c" "length (lfu_map c1) = length (lfu_map c)" by auto
  from Suc.IH [OF c1(2), of "Suc a"] Suc.prems(2) obtain c2 where
    c2: "lfu_run lib c1 (Suc a) (replicate k (Find u)) = Some c2" "hot c2 u (f + 1 + int k)"
      "lfu_lookup c2 = lfu_lookup c1" "dom (lfu_heap c2) = dom (lfu_heap c1)"
      "lfu_capacity c2 = lfu_capacity c1" "length (lfu_map c2) = length (lfu_map c1)" "0 < k \<longrightarrow> hot_front c2 u" by auto
  have "k = 0 \<Longrightarrow> c2 = c1" using c2(1) by simp
  with c1 c2 show ?case by (intro exI [of _ c2]) (cases "k = 0"; simp add: add.commute add.left_commute)
qed

subsection \<open>Properties\<close>

text \<open>C38. In standard C++ the cache has no hits: \<open>incrementFrequency\<close> advances the end iterator
  (\<open>std::next\<close> of a \<open>find_if\<close> that finds nothing). After every sequence of calls from the empty
  cache on that is free of undefined behaviour, a \<open>find\<close> or \<open>add\<close> of any cached URL is
  undefined.\<close>

theorem lfu_hit_undefined:
  assumes "past_end lib = None" "lfu_run lib (LFUCache_new cap) 0 ops = Some c" "lfu_lookup c u \<noteq> None"
  shows "LFUCache_find lib c u now = None \<and> LFUCache_add lib c a now u d n = None"
proof -
  have "only_zero c"
    by (rule only_zero_run [OF assms(1,2)]) (simp add: only_zero_def LFUCache_new_def)
  note inc = increment_undefined [OF this assms(1), of u]
  have "map_of (lfu_map c) u \<noteq> None" using assms(3) by (cases "map_of (lfu_map c) u") (simp_all add: lfu_lookup_def)
  with inc show ?thesis by (auto simp: LFUCache_find_def LFUCache_add_def)
qed

theorem lfu_hit_undefined_witness:
  "\<exists>c. lfu_run standard (LFUCache_new 2) 0 [Add ''u'' ''data'', Find ''v''] = Some c \<and>
    lfu_lookup c ''u'' = Some ''data'' \<and> LFUCache_find standard c ''u'' 5 = None"
proof -
  let ?c = "\<lparr>lfu_capacity = 2, frequency_list = [\<lparr>fn_id = 0, frequency = 0, elements = [0]\<rparr>],
    lfu_map = [(''u'', 0, 0)], lfu_heap = [0 \<mapsto> \<lparr>ce_data = ''data'', ce_len = 4, ce_url = ''u'', ce_time = 0\<rparr>]\<rparr>"
  have r: "lfu_run standard (LFUCache_new 2) 0 [Add ''u'' ''data'', Find ''v''] = Some ?c"
    by (simp add: LFUCache_new_def LFUCache_add_def LFUCache_find_def upd_node_def)
  moreover have l: "lfu_lookup ?c ''u'' = Some ''data''" by (simp add: lfu_lookup_def)
  ultimately show ?thesis using lfu_hit_undefined [OF _ r, of "''u''" 5] by (auto simp: standard_def)
qed

text \<open>C10. On a platform whose lists are rings (libstdc++), and when an overflowing \<open>int\<close> wraps
  around or no frequency is the largest \<open>int\<close> yet, the cache is memory safe and a map: in
  every well-formed state no method hits undefined behaviour, each keeps the invariant (node
  list, element lists, hash map and heap agree, no more elements than the capacity), \<open>find\<close>
  changes no response and returns the address of the one it finds, \<open>add\<close> of a cached URL
  changes nothing, \<open>add\<close> of a new URL adds it and drops only the victim when the cache is
  full, and \<open>remove\<close> deletes the URL.\<close>

theorem lfu_refines_map:
  assumes "lfu_wf c" "lfu_heap c a = None" "past_end lib = Some 0"
    and "int_wraps lib \<or> (\<forall>n \<in> set (frequency_list c). frequency n < 2147483647)"
  shows "(\<exists>c' r. LFUCache_find lib c u now = Some (c', r) \<and> lfu_wf c' \<and> lfu_lookup c' = lfu_lookup c \<and>
      (case r of None \<Rightarrow> lfu_lookup c u = None
       | Some p \<Rightarrow> lfu_lookup c u \<noteq> None \<and> lfu_element c' p = lfu_lookup c u)) \<and>
    (\<exists>c'. LFUCache_add lib c a now u d (int (length d)) = Some c' \<and> lfu_wf c' \<and>
      lfu_lookup c' = (if lfu_lookup c u \<noteq> None then lfu_lookup c else
        (case lfu_victim c of None \<Rightarrow> lfu_lookup c | Some v \<Rightarrow> (lfu_lookup c)(v := None))(u \<mapsto> d))) \<and>
    (\<exists>c'. LFUCache_remove c u = Some c' \<and> lfu_wf c' \<and> lfu_lookup c' = (lfu_lookup c)(u := None))"
proof (intro conjI)
  have lib: "counts lib c" using assms(3,4) by (simp add: counts_def)
  show "\<exists>c' r. LFUCache_find lib c u now = Some (c', r) \<and> lfu_wf c' \<and> lfu_lookup c' = lfu_lookup c \<and>
      (case r of None \<Rightarrow> lfu_lookup c u = None
       | Some p \<Rightarrow> lfu_lookup c u \<noteq> None \<and> lfu_element c' p = lfu_lookup c u)"
    using lfu_find_spec [OF assms(1) lib, of u now] unfolding lfu_element_def by blast
  show "\<exists>c'. LFUCache_remove c u = Some c' \<and> lfu_wf c' \<and> lfu_lookup c' = (lfu_lookup c)(u := None)"
    by (rule lfu.remove_law [OF assms(1)])
  show "\<exists>c'. LFUCache_add lib c a now u d (int (length d)) = Some c' \<and> lfu_wf c' \<and>
      lfu_lookup c' = (if lfu_lookup c u \<noteq> None then lfu_lookup c else
        (case lfu_victim c of None \<Rightarrow> lfu_lookup c | Some v \<Rightarrow> (lfu_lookup c)(v := None))(u \<mapsto> d))"
    using lfu_add_hit [OF assms(1) _ lib, of u a now d "int (length d)"]
      lfu_add_new [OF assms(1,2) _ refl, of u lib now d] by (cases "lfu_lookup c u") auto
qed

theorem lfu_refines_map_witness:
  "\<exists>c c'. LFUCache_add \<lparr>past_end = Some 0, int_wraps = False\<rparr> (LFUCache_new 2) 7 5 ''u'' ''data'' 4 = Some c \<and>
    LFUCache_find \<lparr>past_end = Some 0, int_wraps = False\<rparr> c ''u'' 6 = Some (c', Some 7) \<and>
    lfu_lookup c' = [''u'' \<mapsto> ''data'']"
proof -
  let ?lib = "\<lparr>past_end = Some 0, int_wraps = False\<rparr>"
  let ?c = "\<lparr>lfu_capacity = 2, frequency_list = [\<lparr>fn_id = 0, frequency = 0, elements = [7]\<rparr>],
    lfu_map = [(''u'', 0, 7)], lfu_heap = [7 \<mapsto> \<lparr>ce_data = ''data'', ce_len = 4, ce_url = ''u'', ce_time = 5\<rparr>]\<rparr>"
  have a: "LFUCache_add ?lib (LFUCache_new 2) 7 5 ''u'' ''data'' 4 = Some ?c"
    by (simp add: LFUCache_new_def LFUCache_add_def upd_node_def)
  have w: "lfu_wf ?c" by (auto simp: lfu_wf_def nodes_wf_def holds_def split: if_splits)
  have l: "lfu_lookup ?c = [''u'' \<mapsto> ''data'']" by (auto simp: lfu_lookup_def fun_eq_iff)
  have f: "LFUCache_find ?lib ?c ''u'' 6 = Some (c', r) \<Longrightarrow> r = Some 7" for c' r
    by (auto simp: LFUCache_find_def split: bind_splits)
  from lfu_refines_map [OF w, of 8 ?lib "''u''" 6, THEN conjunct1] obtain c' r where
    "LFUCache_find ?lib ?c ''u'' 6 = Some (c', r)" "lfu_lookup c' = lfu_lookup ?c" by force
  with a l f show ?thesis by (intro exI [of _ ?c] exI [of _ c']) simp
qed

text \<open>Transparency: with an origin server that answers each URL with a fixed response, every
  request through the LFU cache (on such a library) is answered with that response.\<close>

theorem lfu_transparent:
  assumes "0 < cap"
  shows "\<exists>c. lfu_serve_all origin (LFUCache_new cap) 0 us = Some (c, map origin us)"
proof -
  have "lfu_wf c \<Longrightarrow> lfu.faithful origin c \<Longrightarrow> \<forall>b \<in> dom (lfu_heap c). b < a \<Longrightarrow>
    \<exists>c'. lfu_serve_all origin c a us = Some (c', map origin us)" for c a
  proof (induction us arbitrary: c a)
    case Nil
    then show ?case by simp
  next
    case (Cons u us)
    then have "a \<notin> lfu_used c" by (auto simp: lfu_used_def)
    from lfu.serve_transparent [OF Cons.prems(1,2) this, of "int a" "int a" u] obtain c1 where
      c1: "lfu_serve origin c a (int a) u = Some (c1, origin u)" "lfu_wf c1" "lfu.faithful origin c1"
      unfolding lfu_serve_locale by blast
    from Cons.IH [OF c1(2,3) lfu_serve_dom [OF c1(1) Cons.prems(1,3)]] c1(1) show ?case by auto
  qed
  from this [OF lfu_new_wf [OF assms], of 0] show ?thesis
    by (simp add: lfu.faithful_def lfu_lookup_def LFUCache_new_def)
qed

theorem lfu_transparent_witness:
  "\<exists>c. lfu_serve_all (\<lambda>u. u @ ''!'') (LFUCache_new 1) 0 [''a'', ''a'', ''b'', ''a''] =
    Some (c, [''a!'', ''a!'', ''b!'', ''a!''])"
  using lfu_transparent [of 1 "\<lambda>u. u @ ''!''" "[''a'', ''a'', ''b'', ''a'']"] by simp

text \<open>C39. The replacement is the opposite of least frequently used (on a platform whose lists are
  rings): fill the cache with as many URLs as it has places, then ask for one of them, k times,
  and for no other; the next new URL evicts exactly the one that was asked for, and keeps all
  that never were.\<close>

theorem lfu_evicts_most_used:
  assumes "past_end lib = Some 0" "distinct (map fst ps)" "length ps = cap"
    and "u \<in> fst ` set ps" "0 < k" "k < 2147483648" "v \<notin> fst ` set ps"
  shows "\<exists>c. lfu_run lib (LFUCache_new cap) 0
      (map (\<lambda>(x, b). Add x b) ps @ replicate k (Find u) @ [Add v d]) = Some c \<and>
    lfu_lookup c = (map_of ps)(u := None, v \<mapsto> d)"
proof -
  have "0 < cap" using assms(3,4) by (cases ps) auto
  from filled_cache [OF this assms(2), of lib] assms(3) obtain c1 where
    c1: "lfu_run lib (LFUCache_new cap) 0 (map (\<lambda>(x, b). Add x b) ps) = Some c1" "lfu_wf c1" "only_zero c1"
      "lfu_lookup c1 = map_of ps" "length (lfu_map c1) = lfu_capacity c1" "\<forall>b \<in> dom (lfu_heap c1). b < length ps"
    by auto
  from assms(4) c1(4) have "lfu_lookup c1 u \<noteq> None" by (simp add: map_of_eq_None_iff)
  from zero_hot [OF c1(2,3) this] have "hot c1 u 0" .
  from hot_finds [OF assms(1) this, of k "length ps"] assms(6) obtain c2 where
    c2: "lfu_run lib c1 (length ps) (replicate k (Find u)) = Some c2" "hot c2 u (int k)" "lfu_lookup c2 = lfu_lookup c1"
      "dom (lfu_heap c2) = dom (lfu_heap c1)" "length (lfu_map c2) = lfu_capacity c2" "0 < k \<longrightarrow> hot_front c2 u"
    using c1(5) by auto
  have v: "lfu_victim c2 = Some u" using hot_victim [of c2 u] c2(5,6) assms(5) by simp
  have "lfu_heap c2 (length ps + k) = None" using c2(4) c1(6) by force
  moreover have "lfu_lookup c2 v = None" using c2(3) c1(4) assms(7) by (simp add: map_of_eq_None_iff)
  moreover have "lfu_wf c2" using c2(2) by (simp add: hot_def)
  ultimately obtain c where "LFUCache_add lib c2 (length ps + k) (int (length ps + k)) v d (int (length d)) = Some c"
    "lfu_lookup c = (map_of ps)(u := None, v \<mapsto> d)"
    using lfu_add_new [of c2 "length ps + k" v "int (length d)" d lib "int (length ps + k)"] c2(3) c1(4) v by auto
  then show ?thesis by (simp add: lfu_run_append c1(1) c2(1))
qed

theorem lfu_evicts_most_used_witness:
  "\<exists>c. lfu_run gnu (LFUCache_new 2) 0
      [Add ''a'' ''1'', Add ''b'' ''2'', Find ''a'', Find ''a'', Find ''a'', Add ''c'' ''3''] = Some c \<and>
    lfu_lookup c ''a'' = None \<and> lfu_lookup c ''b'' = Some ''2''"
  using lfu_evicts_most_used [of gnu "[(''a'', ''1''), (''b'', ''2'')]" 2 "''a''" 3 "''c''" "''3''"]
  by (auto simp: numeral_3_eq_3)

end
