(* ===== verification/Server_Cache.thy ===== *)
theory Server_Cache
  imports LRU_Cache LFU_Cache
begin

text \<open>
  The cache a server owns: an object of either class behind the pointer to
  \<^verbatim>\<open>CacheStrategy\<close>, and the virtual calls. \<open>lib\<close> is the platform, which only the LFU cache
  depends on: what advancing the end iterator of a list gives, and what an overflowing \<open>int\<close>.
\<close>

datatype cache = LRU LRUCache | LFU LFUCache

fun cache_find :: "platform \<Rightarrow> cache \<Rightarrow> string \<Rightarrow> int \<Rightarrow> (cache \<times> nat option) option" where
  "cache_find lib (LRU c) url now = map_option (\<lambda>(c, r). (LRU c, r)) (LRUCache_find c url now)"
| "cache_find lib (LFU c) url now = map_option (\<lambda>(c, r). (LFU c, r)) (LFUCache_find lib c url now)"

fun cache_add :: "platform \<Rightarrow> cache \<Rightarrow> nat \<Rightarrow> int \<Rightarrow> string \<Rightarrow> block \<Rightarrow> int \<Rightarrow> cache option" where
  "cache_add lib (LRU c) a now url data len = map_option LRU (LRUCache_add c a now url data len)"
| "cache_add lib (LFU c) a now url data len = map_option LFU (LFUCache_add lib c a now url data len)"

fun cache_remove :: "cache \<Rightarrow> string \<Rightarrow> cache option" where
  "cache_remove (LRU c) url = map_option LRU (LRUCache_remove c url)"
| "cache_remove (LFU c) url = map_option LFU (LFUCache_remove c url)"

text \<open>The element at an address, as the caller of \<open>find\<close> sees it.\<close>

fun cache_elem :: "cache \<Rightarrow> nat \<Rightarrow> cache_element option" where
  "cache_elem (LRU c) = heap c"
| "cache_elem (LFU c) = lfu_heap c"

definition cache_data :: "cache \<Rightarrow> nat \<Rightarrow> block option" where
  "cache_data c a = map_option ce_data (cache_elem c a)"

definition cache_used :: "cache \<Rightarrow> nat set" where
  "cache_used c = dom (cache_elem c)"

fun cache_lookup :: "cache \<Rightarrow> string \<Rightarrow> block option" where
  "cache_lookup (LRU c) = lru_lookup c"
| "cache_lookup (LFU c) = lfu_lookup c"

text \<open>The invariant: that of the class; the LFU cache also needs the platform \<open>gnu\<close>, whose lists are
  rings and whose \<open>int\<close> wraps around.\<close>

fun cache_ok :: "platform \<Rightarrow> cache \<Rightarrow> bool" where
  "cache_ok lib (LRU c) = lru_wf c"
| "cache_ok lib (LFU c) = (lfu_wf c \<and> lib = gnu)"

lemma cache_data_simps:
  "cache_data (LRU x) = lru_element x" "cache_data (LFU y) = lfu_element y"
  "cache_used (LRU x) = lru_used x" "cache_used (LFU y) = lfu_used y"
  by (auto simp: cache_data_def cache_used_def lru_element_def lfu_element_def lru_used_def lfu_used_def)

text \<open>Dispatch keeps the contract: the laws of the two classes give those of the pointer.\<close>

lemma dispatch_find:
  assumes "cache_ok lib c"
  shows "\<exists>c' r. cache_find lib c u now = Some (c', r) \<and> cache_ok lib c' \<and> cache_lookup c' = cache_lookup c \<and>
    cache_used c' = cache_used c \<and> (case r of None \<Rightarrow> cache_lookup c u = None
     | Some a \<Rightarrow> cache_lookup c u \<noteq> None \<and> cache_data c' a = cache_lookup c u)"
proof (cases c)
  case (LRU x)
  with assms have "lru_wf x" by simp
  from lru.find_law [OF this, of u now] obtain x' r where
    "LRUCache_find x u now = Some (x', r)" "lru_wf x'" "lru_lookup x' = lru_lookup x" "lru_used x' = lru_used x"
    "case r of None \<Rightarrow> lru_lookup x u = None | Some a \<Rightarrow> lru_lookup x u \<noteq> None \<and> lru_element x' a = lru_lookup x u"
    by auto
  then show ?thesis unfolding LRU
    by (intro exI [of _ "LRU x'"] exI [of _ r]) (simp add: cache_data_simps split: option.splits)
next
  case (LFU x)
  with assms have ok: "lfu_wf x" "lib = gnu" by simp_all
  from lfu.find_law [OF ok(1), of u now] obtain x' r where
    "LFUCache_find lib x u now = Some (x', r)" "lfu_wf x'" "lfu_lookup x' = lfu_lookup x" "lfu_used x' = lfu_used x"
    "case r of None \<Rightarrow> lfu_lookup x u = None | Some a \<Rightarrow> lfu_lookup x u \<noteq> None \<and> lfu_element x' a = lfu_lookup x u"
    using ok(2) by auto
  then show ?thesis using ok(2) unfolding LFU
    by (intro exI [of _ "LFU x'"] exI [of _ r]) (simp add: cache_data_simps split: option.splits)
qed

lemma dispatch_remove:
  assumes "cache_ok lib c"
  shows "\<exists>c'. cache_remove c u = Some c' \<and> cache_ok lib c' \<and> cache_lookup c' = (cache_lookup c)(u := None)"
proof (cases c)
  case (LRU x)
  with lru.remove_law [of x u] assms show ?thesis by auto
next
  case (LFU x)
  with lfu.remove_law [of x u] assms show ?thesis by auto
qed

lemma dispatch_add:
  assumes "cache_ok lib c" "a \<notin> cache_used c" "n = int (length d)"
  shows "\<exists>c'. cache_add lib c a now u d n = Some c' \<and> cache_ok lib c' \<and>
    cache_lookup c' u = (if cache_lookup c u = None then Some d else cache_lookup c u) \<and>
    (\<forall>u'. u' \<noteq> u \<longrightarrow> cache_lookup c' u' \<noteq> None \<longrightarrow> cache_lookup c' u' = cache_lookup c u')"
proof (cases c)
  case (LRU x)
  with assms have "lru_wf x" "a \<notin> lru_used x" by (simp_all add: cache_data_simps)
  from lru.add_law [OF this assms(3), of now u] obtain x' where
    "LRUCache_add x a now u d n = Some x'" "lru_wf x'"
    "lru_lookup x' u = (if lru_lookup x u = None then Some d else lru_lookup x u)"
    "\<forall>u'. u' \<noteq> u \<longrightarrow> lru_lookup x' u' \<noteq> None \<longrightarrow> lru_lookup x' u' = lru_lookup x u'" by auto
  then show ?thesis unfolding LRU by (intro exI [of _ "LRU x'"]) simp
next
  case (LFU x)
  with assms have ok: "lfu_wf x" "a \<notin> lfu_used x" "lib = gnu" by (simp_all add: cache_data_simps)
  from lfu.add_law [OF ok(1,2) assms(3), of now u] obtain x' where
    "LFUCache_add lib x a now u d n = Some x'" "lfu_wf x'"
    "lfu_lookup x' u = (if lfu_lookup x u = None then Some d else lfu_lookup x u)"
    "\<forall>u'. u' \<noteq> u \<longrightarrow> lfu_lookup x' u' \<noteq> None \<longrightarrow> lfu_lookup x' u' = lfu_lookup x u'" using ok(3) by auto
  then show ?thesis using ok(3) unfolding LFU by (intro exI [of _ "LFU x'"]) simp
qed

interpretation strategy: cache_strategy "cache_find lib" "cache_add lib" cache_remove
    cache_lookup cache_data cache_used "cache_ok lib" for lib
  by unfold_locales (fact dispatch_find, fact dispatch_add, fact dispatch_remove)

lemma cache_elem_len: "cache_ok lib c \<Longrightarrow> cache_elem c p = Some e \<Longrightarrow> ce_len e = int (length (ce_data e))"
  by (cases c) (auto simp: lru_wf_def lfu_wf_def)

text \<open>What a find gives to the handler.\<close>

lemma cache_find_elem:
  assumes "cache_ok lib c"
  shows "\<exists>c' r. cache_find lib c u now = Some (c', r) \<and> cache_ok lib c' \<and> cache_lookup c' = cache_lookup c \<and>
    cache_used c' = cache_used c \<and> (case r of None \<Rightarrow> cache_lookup c u = None
     | Some p \<Rightarrow> \<exists>e. cache_elem c' p = Some e \<and> cache_lookup c u = Some (ce_data e) \<and>
         ce_len e = int (length (ce_data e)))"
proof -
  from strategy.find_law [OF assms, of u now] obtain c' r where
    f: "cache_find lib c u now = Some (c', r)" "cache_ok lib c'" "cache_lookup c' = cache_lookup c"
      "cache_used c' = cache_used c" and
    r: "case r of None \<Rightarrow> cache_lookup c u = None
      | Some p \<Rightarrow> cache_lookup c u \<noteq> None \<and> cache_data c' p = cache_lookup c u" by blast
  have "case r of None \<Rightarrow> cache_lookup c u = None
     | Some p \<Rightarrow> \<exists>e. cache_elem c' p = Some e \<and> cache_lookup c u = Some (ce_data e) \<and>
         ce_len e = int (length (ce_data e))"
    using r cache_elem_len [OF f(2)] by (cases r) (auto simp: cache_data_def)
  with f show ?thesis by blast
qed

lemma new_cache_ok:
  assumes "0 < cap"
  shows "cache_ok lib (LRU (LRUCache_new cap))" "cache_lookup (LRU (LRUCache_new cap)) = Map.empty"
    "cache_used (LRU (LRUCache_new cap)) = {}" "cache_ok gnu (LFU (LFUCache_new cap))"
    "cache_lookup (LFU (LFUCache_new cap)) = Map.empty" "cache_used (LFU (LFUCache_new cap)) = {}"
  using new_wf [OF assms] lfu_new_wf [OF assms]
  by (simp_all add: cache_used_def lru_lookup_def lru_entries_def lfu_lookup_def LRUCache_new_def LFUCache_new_def fun_eq_iff)

text \<open>What adding for a URL may change: the new address, and other URLs may be evicted.\<close>

definition cache_extends :: "cache \<Rightarrow> cache \<Rightarrow> nat \<Rightarrow> string \<Rightarrow> bool" where
  "cache_extends c c' a url = (cache_used c' \<subseteq> insert a (cache_used c) \<and>
     (\<forall>u. u \<noteq> url \<longrightarrow> cache_lookup c' u \<noteq> None \<longrightarrow> cache_lookup c' u = cache_lookup c u))"

lemma cache_extends_same: "cache_used c' = cache_used c \<Longrightarrow> cache_lookup c' = cache_lookup c \<Longrightarrow> cache_extends c c' a url"
  by (auto simp: cache_extends_def)

lemma cache_add_used:
  "cache_add lib c a now u d n = Some c' \<Longrightarrow> cache_used c' \<subseteq> insert a (cache_used c)"
  using add_dom lfu_add_dom by (cases c) (auto simp: cache_used_def, blast+)

lemma cache_add_new:
  assumes "cache_ok lib c" "a \<notin> cache_used c" "cache_lookup c u = None"
  shows "\<exists>c'. cache_add lib c a now u d (int (length d)) = Some c' \<and> cache_ok lib c' \<and>
    cache_lookup c' u = Some d \<and> cache_extends c c' a u"
  using strategy.add_law [OF assms(1,2) refl, of now u d] assms(3)
  by (auto simp: cache_extends_def dest: cache_add_used)

end
