(* ===== verification/Client_Handler.thy ===== *)
theory Client_Handler
  imports Proxy_Utils Parse_Properties Server_Cache
begin

text \<open>
  \<open>ThreadPoolServer::handleClient\<close> and \<open>SemaphoreServer::datafromclient\<close>: one connection from
  the first byte to the close, with the cache of the server behind it. The record \<open>connection\<close> holds
  what the outside world does: the client's bytes, whether the origin server can be reached,
  its bytes, the socket buffers, the time and the address for a new cache element.
\<close>

subsection \<open>Receiving the request\<close>

datatype received = Message string | ExitWith int | WaitForClient

text \<open>\<open>strncat\<close> of n bytes of \<open>buf\<close> to the string \<open>m\<close> in a block of \<open>cap\<close> bytes.\<close>

definition strncat :: "nat \<Rightarrow> string \<Rightarrow> block \<Rightarrow> nat \<Rightarrow> string option" where
  "strncat cap m buf n = (let s = takeWhile (\<lambda>c. c \<noteq> NUL) (take n buf)
     in if length m + length s + 1 \<le> cap then Some (m @ s) else None)"

definition BUF_SIZE :: nat where
  "BUF_SIZE = 5000"

text \<open>
  \<open>M\<close> is \<open>MAX_BUFFER_SIZE\<close> and the size of the block at \<open>request_message\<close>; the array
  \<open>buf\<close> keeps its first size. Undefined: more bytes than \<open>buf\<close> has, a string that does not fit
  its block, an \<open>int\<close> overflow of \<open>M * 2\<close>. Receiving into zero bytes gives 0.
\<close>

function receive_loop ::
  "(nat \<Rightarrow> bool) \<Rightarrow> nat \<Rightarrow> nat \<Rightarrow> string \<Rightarrow> recv_event list \<Rightarrow> received option" where
  "receive_loop realloc_ok M tot m es =
    (if strstr m (CRLF @ CRLF) \<noteq> None \<or> M = 0 then Some (Message m)
     else case recv M es of
       None \<Rightarrow> Some WaitForClient
     | Some (Closed, es) \<Rightarrow> Some (Message m)
     | Some (RecvError, es) \<Rightarrow> Some (ExitWith 1)
     | Some (Data d, es) \<Rightarrow>
         if BUF_SIZE < length d then None
         else if tot + length d > M then
           (if 2147483647 < M * 2 then None
            else if \<not> realloc_ok (M * 2) then Some (ExitWith 1)
            else do {
              m \<leftarrow> strncat (M * 2) m d (length d);
              receive_loop realloc_ok (M * 2) (tot + length d) m es })
         else do {
           m \<leftarrow> strncat M m d (length d);
           receive_loop realloc_ok M (tot + length d) m es })"
  by pat_completeness auto
termination
  by (relation "measure (\<lambda>(_, _, _, _, es). weight es)") (auto dest: recv_weight)

declare receive_loop.simps [simp del]

subsection \<open>Serving it\<close>

record connection =
  client_in :: "recv_event list"
  client_ks :: "int list"
  connect_ok :: "string \<Rightarrow> string \<Rightarrow> bool"
  server_ks :: "int list"
  server_in :: "recv_event list"
  clock :: int
  fresh :: nat

datatype outcome = Served | Terminated int | Hanging

record reply =
  to_client :: block
  to_server :: "(string \<times> string \<times> block) option"
  ended :: outcome

text \<open>
  The miss branch. When the origin server cannot be reached the descriptor is -1, on which
  sending and receiving fail, and the connection is closed without an answer.
\<close>

definition fetch ::
  "platform \<Rightarrow> cache \<Rightarrow> connection \<Rightarrow> string \<Rightarrow> string \<Rightarrow> string \<Rightarrow> block \<Rightarrow> (cache \<times> reply) option" where
  "fetch lib c conn url ho po browser_req =
    (if \<not> connect_ok conn ho po
     then Some (c, \<lparr>to_client = [], to_server = None, ended = Served\<rparr>)
     else do {
       (sent, e, _) \<leftarrow> writeToServerSocket browser_req (int (length browser_req)) (server_ks conn);
       if e = SendBlocked
       then Some (c, \<lparr>to_client = [], to_server = Some (ho, po, sent), ended = Hanging\<rparr>)
       else do {
         (out, resp, e, _) \<leftarrow> writeToClient (server_in conn) (client_ks conn);
         c \<leftarrow> (case resp of None \<Rightarrow> Some c
           | Some d \<Rightarrow> cache_add lib c (fresh conn) (clock conn) url d (to_int32 (int (length d))));
         Some (c, \<lparr>to_client = out, to_server = Some (ho, po, sent),
           ended = (if e = Pending then Hanging else Served)\<rparr>) } })"

definition serve_message ::
  "platform \<Rightarrow> bool \<Rightarrow> (nat \<Rightarrow> bool) \<Rightarrow> ParsedRequest \<Rightarrow> cache \<Rightarrow> connection \<Rightarrow> string \<Rightarrow> (cache \<times> reply) option"
  where
  "serve_message lib einval realloc_ok junk c conn msg = do {
     (req, r) \<leftarrow> ParsedRequest_parse einval realloc_ok (ParsedRequest_create junk) msg (int (length msg));
     if r < 0 then Some (c, \<lparr>to_client = [], to_server = None, ended = Terminated 0\<rparr>)
     else do {
       let req = (if pr_port req = Null then req\<lparr>pr_port := Own ''80''\<rparr> else req);
       (req, browser_req) \<leftarrow> convertRequestToString realloc_ok req;
       ho \<leftarrow> deref req (pr_host req);
       pa \<leftarrow> deref req (pr_path req);
       po \<leftarrow> deref req (pr_port req);
       let url = ho @ pa;
       (c, hit) \<leftarrow> cache_find lib c url (clock conn);
       (c, rep) \<leftarrow> (case hit of
           Some p \<Rightarrow> do {
             e \<leftarrow> cache_elem c p;
             (out, _, _) \<leftarrow> writeToClientSocket (ce_data e) (ce_len e) (client_ks conn);
             Some (c, \<lparr>to_client = out, to_server = None, ended = Served\<rparr>) }
         | None \<Rightarrow> fetch lib c conn url ho po browser_req);
       if ended rep = Hanging then Some (c, rep) else do {
         _ \<leftarrow> ParsedRequest_destroy req;
         Some (c, rep) } } }"

definition handleClient ::
  "platform \<Rightarrow> bool \<Rightarrow> (nat \<Rightarrow> bool) \<Rightarrow> ParsedRequest \<Rightarrow> cache \<Rightarrow> connection \<Rightarrow> (cache \<times> reply) option" where
  "handleClient lib einval realloc_ok junk c conn = do {
     rv \<leftarrow> receive_loop realloc_ok BUF_SIZE 0 [] (client_in conn);
     case rv of
       ExitWith n \<Rightarrow> Some (c, \<lparr>to_client = [], to_server = None, ended = Terminated n\<rparr>)
     | WaitForClient \<Rightarrow> Some (c, \<lparr>to_client = [], to_server = None, ended = Hanging\<rparr>)
     | Message msg \<Rightarrow> serve_message lib einval realloc_ok junk c conn msg }"

text \<open>The member function of the semaphore server has the same body.\<close>

definition datafromclient ::
  "platform \<Rightarrow> bool \<Rightarrow> (nat \<Rightarrow> bool) \<Rightarrow> ParsedRequest \<Rightarrow> cache \<Rightarrow> connection \<Rightarrow> (cache \<times> reply) option" where
  "datafromclient = handleClient"

subsection \<open>The receive loop on short requests\<close>

lemma strncat_clean:
  assumes "NUL \<notin> set d"
  shows "strncat cap m d (length d) = (if length m + length d + 1 \<le> cap then Some (m @ d) else None)"
proof -
  have tw: "takeWhile (\<lambda>c. c \<noteq> NUL) d = d" using assms by (auto simp: takeWhile_eq_all_conv)
  show ?thesis by (simp only: strncat_def Let_def take_all [OF order_refl] tw)
qed

text \<open>One turn of the loop.\<close>

lemma receive_done: "sublist (CRLF @ CRLF) m \<Longrightarrow> receive_loop realloc_ok M tot m es = Some (Message m)"
  by (subst receive_loop.simps) (simp only: strstr_None_iff simp_thms if_True)

lemma receive_turn:
  assumes "\<not> sublist (CRLF @ CRLF) m" "0 < M"
  shows "recv M es = None \<Longrightarrow> receive_loop realloc_ok M tot m es = Some WaitForClient"
    and "recv M es = Some (Closed, es1) \<Longrightarrow> receive_loop realloc_ok M tot m es = Some (Message m)"
    and "recv M es = Some (RecvError, es1) \<Longrightarrow> receive_loop realloc_ok M tot m es = Some (ExitWith 1)"
    and "recv M es = Some (Data d, es1) \<Longrightarrow> length d \<le> BUF_SIZE \<Longrightarrow> tot + length d \<le> M \<Longrightarrow>
      receive_loop realloc_ok M tot m es =
        do { m \<leftarrow> strncat M m d (length d); receive_loop realloc_ok M (tot + length d) m es1 }"
    and "recv M es = Some (Data d, es1) \<Longrightarrow> length d \<le> BUF_SIZE \<Longrightarrow> M < tot + length d \<Longrightarrow>
      M * 2 \<le> 2147483647 \<Longrightarrow> realloc_ok (M * 2) \<Longrightarrow>
      receive_loop realloc_ok M tot m es =
        do { m \<leftarrow> strncat (M * 2) m d (length d);
             receive_loop realloc_ok (M * 2) (tot + length d) m es1 }"
    and "recv M es = Some (Data d, es1) \<Longrightarrow> BUF_SIZE < length d \<Longrightarrow>
      receive_loop realloc_ok M tot m es = None"
proof -
  have no: "strstr m (CRLF @ CRLF) = None" using assms(1) by (simp only: strstr_None_iff simp_thms)
  note r = receive_loop.simps [of realloc_ok M tot m es] no assms(2)
  show "recv M es = None \<Longrightarrow> receive_loop realloc_ok M tot m es = Some WaitForClient"
    "recv M es = Some (Closed, es1) \<Longrightarrow> receive_loop realloc_ok M tot m es = Some (Message m)"
    "recv M es = Some (RecvError, es1) \<Longrightarrow> receive_loop realloc_ok M tot m es = Some (ExitWith 1)"
    "recv M es = Some (Data d, es1) \<Longrightarrow> length d \<le> BUF_SIZE \<Longrightarrow> tot + length d \<le> M \<Longrightarrow>
      receive_loop realloc_ok M tot m es =
        do { m \<leftarrow> strncat M m d (length d); receive_loop realloc_ok M (tot + length d) m es1 }"
    "recv M es = Some (Data d, es1) \<Longrightarrow> length d \<le> BUF_SIZE \<Longrightarrow> M < tot + length d \<Longrightarrow>
      M * 2 \<le> 2147483647 \<Longrightarrow> realloc_ok (M * 2) \<Longrightarrow>
      receive_loop realloc_ok M tot m es =
        do { m \<leftarrow> strncat (M * 2) m d (length d);
             receive_loop realloc_ok (M * 2) (tot + length d) m es1 }"
    "recv M es = Some (Data d, es1) \<Longrightarrow> BUF_SIZE < length d \<Longrightarrow>
      receive_loop realloc_ok M tot m es = None"
    unfolding r(1) using r(2,3) by simp_all
qed

lemma receive_short:
  assumes "length m + length (stream es) < BUF_SIZE" "NUL \<notin> set (stream es)" "tot = length m"
  shows "\<exists>r. receive_loop realloc_ok BUF_SIZE tot m es = Some r \<and> (case r of
      Message x \<Rightarrow> prefix x (m @ stream es) \<and>
        (sublist (CRLF @ CRLF) x \<or> x = m @ stream es \<and> stream_end es = Clean)
    | ExitWith n \<Rightarrow> n = 1 \<and> stream_end es = Broken \<and> \<not> sublist (CRLF @ CRLF) (m @ stream es)
    | WaitForClient \<Rightarrow> stream_end es = Pending \<and> \<not> sublist (CRLF @ CRLF) (m @ stream es))"
  using assms
proof (induction "weight es" arbitrary: es m tot rule: less_induct)
  case less
  have pos: "0 < BUF_SIZE" by (simp add: BUF_SIZE_def)
  note rs = recv_stream [OF pos, of es]
  show ?case
  proof (cases "sublist (CRLF @ CRLF) m")
    case True
    with receive_done [OF True] show ?thesis by simp
  next
    case no: False
    note turn = receive_turn [OF no pos]
    show ?thesis
    proof (cases "recv BUF_SIZE es")
      case None
      with rs no turn(1) [OF None] show ?thesis by simp
    next
      case (Some p)
      obtain ev es1 where p: "p = (ev, es1)" by (cases p)
      show ?thesis
      proof (cases ev)
        case (Data d)
        with Some p have rc: "recv BUF_SIZE es = Some (Data d, es1)" by simp
        with rs have s: "stream es = d @ stream es1" "stream_end es1 = stream_end es"
          "length d \<le> BUF_SIZE" by simp_all
        have room: "tot + length d \<le> BUF_SIZE" "length m + length d + 1 \<le> BUF_SIZE"
          using less.prems(1,3) s(1) by auto
        have nd: "NUL \<notin> set d" using less.prems(2) s(1) by simp
        have step: "receive_loop realloc_ok BUF_SIZE tot m es
            = receive_loop realloc_ok BUF_SIZE (tot + length d) (m @ d) es1"
          using turn(4) [OF rc s(3) room(1)] strncat_clean [OF nd] room(2) by simp
        have w: "weight es1 < weight es" by (rule recv_weight [OF rc pos])
        have "length (m @ d) + length (stream es1) < BUF_SIZE" "NUL \<notin> set (stream es1)"
          "tot + length d = length (m @ d)" using less.prems s(1) by simp_all
        note ih = less.hyps [OF w this]
        have "(m @ d) @ stream es1 = m @ stream es" by (simp add: s(1))
        then show ?thesis using ih unfolding step s(2) by (simp only:)
      next
        case Closed
        with rs Some p no turn(2) [of es es1] show ?thesis by simp
      next
        case RecvError
        with rs Some p no turn(3) [of es es1] show ?thesis by simp
      qed
    qed
  qed
qed


subsection \<open>Where the header of a printed request ends\<close>

lemma cr_pos:
  assumes "prefix (a @ CR # b) (x @ y)" "CR \<notin> set x"
  shows "length x \<le> length a"
proof (rule ccontr)
  assume "\<not> length x \<le> length a"
  then have l: "length a < length x" by simp
  from assms(1) obtain z where "x @ y = (a @ CR # b) @ z" by (rule prefixE)
  then have "(x @ y) ! length a = ((a @ CR # b) @ z) ! length a" by simp
  with l have "x ! length a = CR" by (simp add: nth_append)
  with l assms(2) show False by (metis nth_mem)
qed

lemma prefix_split:
  assumes "prefix m (u @ R)" "length u \<le> length m"
  shows "\<exists>m'. m = u @ m' \<and> prefix m' R"
proof -
  have "prefix u (u @ R)" by simp
  from prefix_length_prefix [OF this assms] have "prefix u m" .
  then obtain m' where "m = u @ m'" by (rule prefixE)
  with assms(1) show ?thesis by auto
qed

lemma eoh_lines:
  assumes "list_all (\<lambda>l. l \<noteq> [] \<and> CR \<notin> set l) (x # ls)"
    and "prefix m (concat (map (\<lambda>l. l @ CRLF) (x # ls)) @ CRLF @ body)" "sublist EOH m"
  shows "prefix (concat (map (\<lambda>l. l @ CRLF) (x # ls)) @ CRLF) m"
  using assms
proof (induction ls arbitrary: x m)
  case Nil
  from Nil.prems(3) obtain a b where m: "m = a @ EOH @ b" by (auto simp: sublist_def)
  have "prefix (a @ CR # (LF # CRLF @ b)) (x @ CRLF @ CRLF @ body)" using Nil.prems(2) m by simp
  from cr_pos [OF this] Nil.prems(1) have "length x \<le> length a" by simp
  then have "length (x @ CRLF @ CRLF) \<le> length m" by (simp add: m)
  with prefix_split [of m "x @ CRLF @ CRLF" body] Nil.prems(2) show ?case by auto
next
  case (Cons y ls)
  let ?R = "concat (map (\<lambda>l. l @ CRLF) (y # ls)) @ CRLF @ body"
  from Cons.prems(3) obtain a b where m: "m = a @ EOH @ b" by (auto simp: sublist_def)
  have pm: "prefix m ((x @ CRLF) @ ?R)" using Cons.prems(2) by simp
  then have "prefix (a @ CR # (LF # CRLF @ b)) (x @ CRLF @ ?R)" unfolding m by simp
  from cr_pos [OF this] Cons.prems(1) have la: "length x \<le> length a" by simp
  then have "length (x @ CRLF) \<le> length m" by (simp add: m)
  from prefix_split [OF pm this] obtain m' where m': "m = (x @ CRLF) @ m'" "prefix m' ?R" by blast
  obtain c cs where y: "y = c # cs" "c \<noteq> CR" using Cons.prems(1) by (cases y) auto
  have "sublist EOH m'"
  proof (cases "length (x @ CRLF) \<le> length a")
    case True
    have "prefix a ((x @ CRLF) @ m')" using m m'(1) by (metis prefixI)
    from prefix_split [OF this True] obtain a' where "a = (x @ CRLF) @ a'" by blast
    with m m'(1) have "m' = a' @ EOH @ b" by simp
    then show ?thesis by (auto simp: sublist_def)
  next
    case False
    have "length x = length a \<or> length x + 1 = length a" using False la by auto
    then have False
    proof
      assume l: "length x = length a"
      from m m'(1) have "x @ CR # LF # m' = a @ CR # LF # CR # LF # b" by simp
      with l have "m' = CR # LF # b" by simp
      with m'(2) y show False by simp
    next
      assume l: "length x + 1 = length a"
      from m m'(1) have "(x @ [CR]) @ LF # m' = a @ CR # LF # CR # LF # b" by simp
      with l have "LF = CR" by (simp add: append_eq_append_conv del: append_assoc)
      then show False by simp
    qed
    then show ?thesis ..
  qed
  from Cons.IH [OF _ m'(2) this] Cons.prems(1) m'(1) show ?case by auto
qed

definition header_line :: "string \<times> string \<Rightarrow> string" where
  "header_line kv = fst kv @ '': '' @ snd kv"

lemma render_lines:
  "render r = concat (map (\<lambda>l. l @ CRLF) (render_line r # map header_line (rq_headers r))) @ CRLF"
proof -
  have "render_header = (\<lambda>kv. header_line kv @ CRLF)" by (auto simp: header_line_def fun_eq_iff)
  then show ?thesis by (simp add: render_def render_headers_def comp_def)
qed

lemma received_render:
  assumes "request_ok r" "prefix m (render r @ body)" "sublist EOH m"
  shows "prefix (render r) m"
proof -
  have "list_all (\<lambda>l. l \<noteq> [] \<and> CR \<notin> set l) (render_line r # map header_line (rq_headers r))"
    using assms(1) render_line_clean(2) [OF assms(1)]
    by (auto simp: list_all_iff request_ok_def header_ok_def header_line_def render_line_def)
  from eoh_lines [OF this _ assms(3), of body] assms(2) show ?thesis by (simp add: render_lines)
qed


subsection \<open>Serving a well-formed request\<close>

lemma destroy_defined:
  assumes "header_wf pr" "path_ok pr"
  shows "\<exists>pr'. ParsedRequest_destroy pr = Some pr'"
proof -
  have "header_wf (pr\<lparr>pr_buf := None, pr_path := Null\<rparr>)"
    using assms(1) by (simp add: header_wf_def split: option.splits)
  with assms(2) show ?thesis
    by (auto simp: ParsedRequest_destroy_def path_ok_def destroy_total Let_def split: cptr.splits)
qed

lemma length_concat_filter: "length (concat (map f (filter P xs))) \<le> length (concat (map f xs))"
  by (induction xs) auto

lemma forward_text_bound:
  "length (forward_text r) \<le> 2 * length (render r) + 50"
proof -
  let ?f = "filter (\<lambda>(k, v). k \<noteq> ''Host'' \<and> k \<noteq> ''Connection'') (rq_headers r)"
  have "length (concat (map render_header ?f)) \<le> length (concat (map render_header (rq_headers r)))"
    by (rule length_concat_filter)
  then show ?thesis
    by (simp add: forward_text_def render_headers_def forward_headers_def render_def render_line_def
        render_addr_def)
qed

definition port_of :: "request \<Rightarrow> string" where
  "port_of r = (case rq_port r of None \<Rightarrow> ''80'' | Some p \<Rightarrow> p)"

lemma request_of_port:
  assumes "request_of pr = Some r"
  shows "request_of (if pr_port pr = Null then pr\<lparr>pr_port := Own ''80''\<rparr> else pr)
    = Some (r\<lparr>rq_port := Some (port_of r)\<rparr>)"
proof -
  have dr: "deref (pr\<lparr>pr_port := x\<rparr>) p = deref pr p" for x p by (cases p) simp_all
  note d = request_ofD [OF assms]
  show ?thesis
  proof (cases "pr_port pr = Null")
    case True
    with d(1-5,7,8) show ?thesis
      by (cases r) (simp add: request_of_def dr port_of_def header_list_def)
  next
    case False
    with d(6) obtain p where "deref pr (pr_port pr) = Some p" "rq_port r = Some p" by blast
    with False assms show ?thesis by (cases r) (simp add: port_of_def)
  qed
qed

text \<open>From the message to the cache lookup.\<close>

lemma message_parsed:
  assumes ok: "request_ok r" and port: "port_ok einval r" and re: "\<forall>n. realloc_ok n"
    and len: "int (length (render r @ body)) \<le> MAX_REQ_LEN"
  shows "\<exists>pr req x. ParsedRequest_parse einval realloc_ok (ParsedRequest_create junk) (render r @ body)
      (int (length (render r @ body))) = Some (pr, 0) \<and> request_of pr = Some r \<and>
    convertRequestToString realloc_ok (if pr_port pr = Null then pr\<lparr>pr_port := Own ''80''\<rparr> else pr)
      = Some (req, forward_text r) \<and>
    deref req (pr_host req) = Some (rq_host r) \<and> deref req (pr_path req) = Some (rq_path r) \<and>
    deref req (pr_port req) = Some (port_of r) \<and> ParsedRequest_destroy req = Some x"
proof -
  have new: "pr_buf (ParsedRequest_create junk) = None" "path_ok (ParsedRequest_create junk)"
    by (simp_all add: ParsedRequest_create_def path_ok_def)
  from parse_render [OF new(1) create_wf create_empty ok port re len] obtain pr where
    p: "ParsedRequest_parse einval realloc_ok (ParsedRequest_create junk) (render r @ body)
      (int (length (render r @ body))) = Some (pr, 0)"
    "request_of pr = Some r" "header_wf pr" "pr_buf pr \<noteq> None" by blast
  from parse_wf [OF p(1) create_wf re new(2)] have po: "path_ok pr" by simp
  define req where "req = (if pr_port pr = Null then pr\<lparr>pr_port := Own ''80''\<rparr> else pr)"
  let ?r = "r\<lparr>rq_port := Some (port_of r)\<rparr>"
  have rq: "request_of req = Some ?r" unfolding req_def by (rule request_of_port [OF p(2)])
  have q: "header_wf req" "pr_buf req \<noteq> None" "path_ok req" "pr_port req \<noteq> Null"
    using p(3,4) po by (auto simp: req_def header_wf_def path_ok_def split: option.splits)
  have nul: "NUL \<notin> set (rq_method ?r)" "NUL \<notin> set (rq_path ?r)" "NUL \<notin> set (rq_version ?r)"
    "NUL \<notin> set (rq_host ?r)" "nul_free_headers (rq_headers ?r)"
    using ok by (auto simp: request_ok_def nul_free_headers_def header_ok_def list_all_iff)
  have ft: "forward_text ?r = forward_text r" by (simp add: forward_text_def)
  have "length (forward_text ?r) < 2147483647"
    using forward_text_bound [of r] len unfolding ft by (simp add: MAX_REQ_LEN_def)
  from convert_spec [OF rq q(1,2) re nul this] obtain req2 hs n u where
    cv: "convertRequestToString realloc_ok req = Some (req2, forward_text r)" "header_wf req2"
    and r2: "req2 = req\<lparr>pr_headers := hs, pr_headerslen := n, pr_headersused := u\<rparr>"
    unfolding ft by blast
  have po2: "path_ok req2" using q(3) by (simp add: r2 path_ok_def)
  from destroy_defined [OF cv(2) po2] obtain x where x: "ParsedRequest_destroy req2 = Some x" by blast
  note d = request_ofD [OF rq]
  have dr: "deref req2 (pr_host req2) = Some (rq_host r)" "deref req2 (pr_path req2) = Some (rq_path r)"
    "deref req2 (pr_port req2) = Some (port_of r)"
    using d(3,4) d(6) [OF q(4)] by (auto simp: r2 deref_headers)
  show ?thesis
    unfolding req_def [symmetric] using p(1,2) cv(1) dr x by (intro exI [of _ pr] exI [of _ req2] exI [of _ x])
      (simp add: req_def)
qed

lemma serve_message_parsed:
  assumes ok: "request_ok r" and port: "port_ok einval r" and re: "\<forall>n. realloc_ok n"
    and len: "int (length (render r @ body)) \<le> MAX_REQ_LEN"
  shows "\<exists>req x. serve_message lib einval realloc_ok junk c conn (render r @ body) = do {
       (c, hit) \<leftarrow> cache_find lib c (rq_host r @ rq_path r) (clock conn);
       (c, rep) \<leftarrow> (case hit of
           Some p \<Rightarrow> do {
             e \<leftarrow> cache_elem c p;
             (out, _, _) \<leftarrow> writeToClientSocket (ce_data e) (ce_len e) (client_ks conn);
             Some (c, \<lparr>to_client = out, to_server = None, ended = Served\<rparr>) }
         | None \<Rightarrow> fetch lib c conn (rq_host r @ rq_path r) (rq_host r) (port_of r) (forward_text r));
       if ended rep = Hanging then Some (c, rep) else do {
         _ \<leftarrow> ParsedRequest_destroy req;
         Some (c, rep) } } \<and> ParsedRequest_destroy req = Some x"
proof -
  from message_parsed [OF assms, of junk] obtain pr req x where
    p: "ParsedRequest_parse einval realloc_ok (ParsedRequest_create junk) (render r @ body)
        (int (length (render r @ body))) = Some (pr, 0)"
      "convertRequestToString realloc_ok (if pr_port pr = Null then pr\<lparr>pr_port := Own ''80''\<rparr> else pr)
        = Some (req, forward_text r)"
      "deref req (pr_host req) = Some (rq_host r)" "deref req (pr_path req) = Some (rq_path r)"
      "deref req (pr_port req) = Some (port_of r)" "ParsedRequest_destroy req = Some x" by blast
  show ?thesis
    unfolding serve_message_def p(1)
    by (intro exI [of _ req] exI [of _ x]) (simp add: p(2-) Let_def)
qed


lemma fetch_spec:
  assumes wf: "cache_ok lib c" and fr: "fresh conn \<notin> cache_used c" and miss: "cache_lookup c url = None"
    and conn: "connect_ok conn ho po" "generous (server_ks conn) (length req)"
    and srv: "stream_end (server_in conn) = Clean" "length (stream (server_in conn)) < 2147483648"
    and cl: "generous (client_ks conn) (length (stream (server_in conn)))"
  shows "\<exists>c'. fetch lib c conn url ho po req = Some (c', \<lparr>to_client = stream (server_in conn),
      to_server = Some (ho, po, req), ended = Served\<rparr>) \<and> cache_ok lib c' \<and>
    cache_lookup c' url = Some (stream (server_in conn)) \<and> cache_extends c c' (fresh conn) url"
proof -
  let ?d = "stream (server_in conn)"
  from writeToSocket_complete [of 0 "int (length req)" req "server_ks conn" 0] conn(2) obtain ks1 where
    w: "writeToServerSocket req (int (length req)) (server_ks conn) = Some (req, Sent, ks1)"
    by (auto simp: writeToServerSocket_def)
  from relay_spec [of "server_in conn" "[]" "[]" "client_ks conn" 0] cl srv(1) obtain ks2 where
    rl: "writeToClient (server_in conn) (client_ks conn) = Some (?d, Some ?d, Clean, ks2)"
    by (auto simp: writeToClient_def)
  have i: "to_int32 (int (length ?d)) = int (length ?d)" using srv(2) by (simp add: to_int32_id)
  from cache_add_new [OF wf fr miss, of "clock conn" ?d] obtain c' where
    c': "cache_add lib c (fresh conn) (clock conn) url ?d (int (length ?d)) = Some c'" "cache_ok lib c'"
      "cache_lookup c' url = Some ?d" "cache_extends c c' (fresh conn) url" by blast
  have "fetch lib c conn url ho po req = Some (c', \<lparr>to_client = ?d,
      to_server = Some (ho, po, req), ended = Served\<rparr>)"
    using conn(1) w rl c'(1) i by (simp add: fetch_def)
  then show ?thesis using c'(2-) by blast
qed

lemma receive_render:
  assumes ok: "request_ok r"
    and cin: "prefix (render r) (stream (client_in conn))" "length (stream (client_in conn)) < BUF_SIZE"
      "NUL \<notin> set (stream (client_in conn))"
  shows "\<exists>body. receive_loop realloc_ok BUF_SIZE 0 [] (client_in conn) = Some (Message (render r @ body)) \<and>
    length (render r @ body) < BUF_SIZE"
proof -
  obtain b0 where b0: "stream (client_in conn) = render r @ b0" using cin(1) by (rule prefixE)
  have eoh: "sublist EOH (render r @ b0)"
    using render_eoh [of r "rq_headers r" b0] by (simp add: render_def)
  from receive_short [of "[]" "client_in conn" 0 realloc_ok, unfolded append_Nil list.size add_0]
    cin(2,3) obtain rv where
    rv: "receive_loop realloc_ok BUF_SIZE 0 [] (client_in conn) = Some rv" and
    cs: "case rv of Message x \<Rightarrow> prefix x (stream (client_in conn)) \<and>
        (sublist EOH x \<or> x = stream (client_in conn) \<and> stream_end (client_in conn) = Clean)
      | ExitWith n \<Rightarrow> n = 1 \<and> stream_end (client_in conn) = Broken \<and> \<not> sublist EOH (stream (client_in conn))
      | WaitForClient \<Rightarrow> stream_end (client_in conn) = Pending \<and> \<not> sublist EOH (stream (client_in conn))"
    by blast
  from cs eoh b0 obtain m where m: "rv = Message m" "prefix m (render r @ b0)" "sublist EOH m"
    by (cases rv) auto
  from received_render [OF ok m(2,3)] obtain body where body: "m = render r @ body" by (rule prefixE)
  have "length m \<le> length (stream (client_in conn))" using m(2) b0 prefix_length_le by metis
  with rv m(1) body cin(2) show ?thesis by auto
qed

lemma handleClient_message:
  assumes "request_ok r" "prefix (render r) (stream (client_in conn))"
    "length (stream (client_in conn)) < BUF_SIZE" "NUL \<notin> set (stream (client_in conn))"
  shows "\<exists>body. handleClient lib einval realloc_ok junk c conn =
      serve_message lib einval realloc_ok junk c conn (render r @ body) \<and>
    length (render r @ body) < BUF_SIZE"
  using receive_render [OF assms, of realloc_ok] by (auto simp: handleClient_def)

lemma handleClient_spec:
  assumes wf: "cache_ok lib c" and fr: "cache_lookup c url = None \<Longrightarrow> fresh conn \<notin> cache_used c"
    and ok: "request_ok r" and port: "port_ok einval r" and re: "\<forall>n. realloc_ok n"
    and cin: "prefix (render r) (stream (client_in conn))" "length (stream (client_in conn)) < BUF_SIZE"
      "NUL \<notin> set (stream (client_in conn))"
    and url: "url = rq_host r @ rq_path r"
    and srv: "connect_ok conn (rq_host r) (port_of r)"
      "generous (server_ks conn) (length (forward_text r))" "stream_end (server_in conn) = Clean"
      "length (stream (server_in conn)) < 2147483648"
    and ans: "answer = (case cache_lookup c url of None \<Rightarrow> stream (server_in conn) | Some d \<Rightarrow> d)"
    and cl: "generous (client_ks conn) (length answer)"
  shows "\<exists>c'. handleClient lib einval realloc_ok junk c conn = Some (c', \<lparr>to_client = answer,
      to_server = (if cache_lookup c url = None then Some (rq_host r, port_of r, forward_text r) else None),
      ended = Served\<rparr>) \<and> cache_ok lib c' \<and> cache_lookup c' url = Some answer \<and>
    cache_extends c c' (fresh conn) url"
proof -
  from handleClient_message [OF ok cin] obtain body where
    b: "handleClient lib einval realloc_ok junk c conn =
      serve_message lib einval realloc_ok junk c conn (render r @ body)"
      "length (render r @ body) < BUF_SIZE" by blast
  have "int (length (render r @ body)) \<le> MAX_REQ_LEN"
    using b(2) by (simp add: BUF_SIZE_def MAX_REQ_LEN_def)
  from serve_message_parsed [OF ok port re this] obtain req x where
    sm: "serve_message lib einval realloc_ok junk c conn (render r @ body) = do {
       (c, hit) \<leftarrow> cache_find lib c url (clock conn);
       (c, rep) \<leftarrow> (case hit of
           Some p \<Rightarrow> do {
             e \<leftarrow> cache_elem c p;
             (out, _, _) \<leftarrow> writeToClientSocket (ce_data e) (ce_len e) (client_ks conn);
             Some (c, \<lparr>to_client = out, to_server = None, ended = Served\<rparr>) }
         | None \<Rightarrow> fetch lib c conn url (rq_host r) (port_of r) (forward_text r));
       if ended rep = Hanging then Some (c, rep) else do {
         _ \<leftarrow> ParsedRequest_destroy req;
         Some (c, rep) } }" and x: "ParsedRequest_destroy req = Some x" unfolding url by blast
  from cache_find_elem [OF wf, of url "clock conn"] obtain c1 hit where
    f: "cache_find lib c url (clock conn) = Some (c1, hit)" "cache_ok lib c1"
      "cache_lookup c1 = cache_lookup c" "cache_used c1 = cache_used c" and
    el: "case hit of None \<Rightarrow> cache_lookup c url = None
      | Some p \<Rightarrow> \<exists>e. cache_elem c1 p = Some e \<and> cache_lookup c url = Some (ce_data e) \<and>
          ce_len e = int (length (ce_data e))" by blast
  show ?thesis
  proof (cases hit)
    case (Some p)
    with el obtain e where e: "cache_elem c1 p = Some e" "cache_lookup c url = Some (ce_data e)"
      "ce_len e = int (length (ce_data e))" by auto
    from writeToClientSocket_complete [of "client_ks conn" "ce_data e" 0] cl e(2) ans obtain ks where
      "writeToClientSocket (ce_data e) (int (length (ce_data e))) (client_ks conn) = Some (ce_data e, Sent, ks)"
      by auto
    then show ?thesis
      unfolding b(1) sm f(1) using Some e ans x f(2-4) by (simp add: cache_extends_same)
  next
    case None
    with el have lk: "cache_lookup c url = None" by simp
    have "fresh conn \<notin> cache_used c1" using fr [OF lk] f(4) by simp
    moreover have "cache_lookup c1 url = None" using lk f(3) by simp
    moreover have "generous (client_ks conn) (length (stream (server_in conn)))" using cl ans lk by simp
    ultimately obtain c' where "fetch lib c1 conn url (rq_host r) (port_of r) (forward_text r) =
        Some (c', \<lparr>to_client = stream (server_in conn),
          to_server = Some (rq_host r, port_of r, forward_text r), ended = Served\<rparr>)"
      "cache_ok lib c'" "cache_lookup c' url = Some (stream (server_in conn))"
      "cache_extends c1 c' (fresh conn) url"
      using fetch_spec [OF f(2) _ _ srv] by blast
    moreover from this(4) have "cache_extends c c' (fresh conn) url"
      using f(3,4) by (simp add: cache_extends_def)
    ultimately show ?thesis
      unfolding b(1) sm f(1) using None lk ans x by simp
  qed
qed


subsection \<open>Properties\<close>

text \<open>C3. End to end, from bytes to bytes: a client sends a well-formed request (in any split
  into packets, with any NUL-free text behind it, fewer than 5000 bytes in all), the server has
  either cache (the LFU cache on the platform \<open>gnu\<close>), the sockets work, and the origin server sends
  fewer than 2 ^ 31 bytes and closes. Then the handler
  is free of undefined behaviour and ends normally; on a cache hit the client gets exactly the
  cached bytes and the origin server is not contacted; on a miss the server at the request's
  host and port (80 when none is given) gets exactly the rewritten request, the client gets
  exactly the bytes the server sent, and they are what the cache holds for that URL
  afterwards. Whatever else the cache still holds is unchanged.\<close>

theorem handle_client_end_to_end:
  assumes "cache_ok lib c" "fresh conn \<notin> cache_used c"
    and "request_ok r" "port_ok einval r" "\<forall>n. realloc_ok n"
    and "prefix (render r) (stream (client_in conn))" "length (stream (client_in conn)) < BUF_SIZE"
      "NUL \<notin> set (stream (client_in conn))"
    and "url = rq_host r @ rq_path r"
    and "connect_ok conn (rq_host r) (port_of r)"
      "generous (server_ks conn) (length (forward_text r))" "stream_end (server_in conn) = Clean"
      "length (stream (server_in conn)) < 2147483648"
    and "answer = (case cache_lookup c url of None \<Rightarrow> stream (server_in conn) | Some d \<Rightarrow> d)"
    and "generous (client_ks conn) (length answer)"
  shows "\<exists>c'. handleClient lib einval realloc_ok junk c conn = Some (c', \<lparr>to_client = answer,
      to_server = (if cache_lookup c url = None then Some (rq_host r, port_of r, forward_text r) else None),
      ended = Served\<rparr>) \<and> cache_ok lib c' \<and> cache_lookup c' url = Some answer \<and>
    (\<forall>u. u \<noteq> url \<longrightarrow> cache_lookup c' u \<noteq> None \<longrightarrow> cache_lookup c' u = cache_lookup c u)"
  using handleClient_spec [OF assms(1) _ assms(3-), of junk] assms(2) unfolding cache_extends_def by blast

text \<open>The examples: one client request in two packets, one server response.\<close>

definition example_request :: "string option \<Rightarrow> request" where
  "example_request p = \<lparr>rq_method = ''GET'', rq_protocol = ''http'', rq_host = ''h'', rq_port = p,
     rq_path = ''/x'', rq_version = ''HTTP/1.0'', rq_headers = []\<rparr>"

definition example_conn :: "string option \<Rightarrow> nat \<Rightarrow> block \<Rightarrow> connection" where
  "example_conn p a d = \<lparr>client_in = [Data ''GET '', Data (drop 4 (render (example_request p)))],
     client_ks = replicate 9 100, connect_ok = (\<lambda>_ _. True), server_ks = replicate 100 100,
     server_in = [Data d, Closed], clock = 0, fresh = a\<rparr>"

lemma example_ok:
  "request_ok (example_request None)" "request_ok (example_request (Some ''81''))"
  by (simp_all add: example_request_def request_ok_def eval_nat_numeral)

lemma example_port: "port_ok False r"
  by (simp add: port_ok_def split: option.splits)

lemma example_stream:
  assumes "p = None \<or> p = Some ''81''"
  shows "stream (client_in (example_conn p a d)) = render (example_request p)"
    "length (render (example_request p)) < BUF_SIZE" "NUL \<notin> set (render (example_request p))"
    "length (forward_text (example_request p)) \<le> 100"
  using assms by (auto simp: example_conn_def example_request_def render_def render_line_def
      render_addr_def render_headers_def BUF_SIZE_def forward_text_def forward_headers_def)

theorem handle_client_end_to_end_witness:
  "\<exists>c. handleClient standard False (\<lambda>_. True) (zeroed) (LRU (LRUCache_new 2)) (example_conn None 0 ''hello'') =
    Some (c, \<lparr>to_client = ''hello'', to_server = Some (''h'', ''80'', forward_text (example_request None)),
      ended = Served\<rparr>)"
proof -
  let ?r = "example_request None" and ?conn = "example_conn None 0 ''hello''"
  have e: "cache_lookup (LRU (LRUCache_new 2)) u = None" for u
    using new_cache_ok(2) [of 2] by simp
  have w: "cache_ok standard (LRU (LRUCache_new 2))" "0 \<notin> cache_used (LRU (LRUCache_new 2))"
    using new_cache_ok(1,3) [of 2] by simp_all
  have "\<exists>c'. handleClient standard False (\<lambda>_. True) zeroed (LRU (LRUCache_new 2)) ?conn = Some (c', \<lparr>to_client = ''hello'',
      to_server = (if cache_lookup (LRU (LRUCache_new 2)) ''h/x'' = None
        then Some (rq_host ?r, port_of ?r, forward_text ?r) else None),
      ended = Served\<rparr>) \<and> cache_ok standard c' \<and> cache_lookup c' ''h/x'' = Some ''hello'' \<and>
    (\<forall>u. u \<noteq> ''h/x'' \<longrightarrow> cache_lookup c' u \<noteq> None \<longrightarrow> cache_lookup c' u = cache_lookup (LRU (LRUCache_new 2)) u)"
    by (rule handle_client_end_to_end)
      (use example_stream(1) [of None 0 "''hello''"] example_stream(2-4) [of None] example_ok(1) e w in
        \<open>simp_all add: example_port example_request_def example_conn_def generous_def\<close>)
  then show ?thesis unfolding e by (auto simp: example_request_def port_of_def)
qed

text \<open>The receive loop on requests below its first buffer size: whatever the packets are, no
  byte is written outside a buffer, and the loop ends with a prefix of the client's bytes that
  contains an empty line or, when the client closes first, with all of them; it keeps waiting
  only when the request is incomplete, and a broken connection exits the process with code 1.\<close>

theorem receive_loop_short_safe:
  assumes "length (stream es) < BUF_SIZE" "NUL \<notin> set (stream es)"
  shows "\<exists>r. receive_loop realloc_ok BUF_SIZE 0 [] es = Some r \<and> (case r of
      Message x \<Rightarrow> prefix x (stream es) \<and> (sublist EOH x \<or> x = stream es \<and> stream_end es = Clean)
    | ExitWith n \<Rightarrow> n = 1 \<and> stream_end es = Broken \<and> \<not> sublist EOH (stream es)
    | WaitForClient \<Rightarrow> stream_end es = Pending \<and> \<not> sublist EOH (stream es))"
  using receive_short [of "[]" es 0 realloc_ok, unfolded append_Nil list.size add_0] assms by blast

theorem receive_loop_short_safe_witness:
  "\<exists>x. receive_loop (\<lambda>_. False) BUF_SIZE 0 [] [Data ''ab'', Data ''c'', Closed] = Some (Message x) \<and>
    prefix x ''abc''"
proof -
  let ?es = "[Data ''ab'', Data ''c'', Closed]"
  have "length (stream ?es) < BUF_SIZE" "NUL \<notin> set (stream ?es)" by (simp_all add: BUF_SIZE_def)
  from receive_loop_short_safe [OF this, of "\<lambda>_. False"] obtain r where
    r: "receive_loop (\<lambda>_. False) BUF_SIZE 0 [] ?es = Some r" and
    cs: "case r of
      Message x \<Rightarrow> prefix x (stream ?es) \<and> (sublist EOH x \<or> x = stream ?es \<and> stream_end ?es = Clean)
    | ExitWith n \<Rightarrow> n = 1 \<and> stream_end ?es = Broken \<and> \<not> sublist EOH (stream ?es)
    | WaitForClient \<Rightarrow> stream_end ?es = Pending \<and> \<not> sublist EOH (stream ?es)" by blast
  from cs have "\<exists>x. r = Message x \<and> prefix x ''abc''" by (cases r) simp_all
  with r show ?thesis by blast
qed

text \<open>A client that disconnects before its request is complete, after any number of packets
  and even without having sent a byte, terminates the whole proxy process: the parser rejects
  what has arrived and the handler calls \<open>exit(0)\<close>.\<close>

theorem early_disconnect_terminates_server:
  assumes "length (stream (client_in conn)) < BUF_SIZE" "NUL \<notin> set (stream (client_in conn))"
    and "stream_end (client_in conn) = Clean" "\<not> sublist EOH (stream (client_in conn))"
  shows "handleClient lib einval realloc_ok junk c conn =
    Some (c, \<lparr>to_client = [], to_server = None, ended = Terminated 0\<rparr>)"
proof -
  let ?x = "stream (client_in conn)"
  from receive_short [of "[]" "client_in conn" 0 realloc_ok, unfolded append_Nil list.size add_0] assms(1,2)
  obtain rv where rv: "receive_loop realloc_ok BUF_SIZE 0 [] (client_in conn) = Some rv" and
    cs: "case rv of Message x \<Rightarrow> prefix x ?x \<and> (sublist EOH x \<or> x = ?x \<and> stream_end (client_in conn) = Clean)
      | ExitWith n \<Rightarrow> n = 1 \<and> stream_end (client_in conn) = Broken \<and> \<not> sublist EOH ?x
      | WaitForClient \<Rightarrow> stream_end (client_in conn) = Pending \<and> \<not> sublist EOH ?x" by blast
  have sub: "prefix x ?x \<Longrightarrow> \<not> sublist EOH x" for x
    using assms(4) by (meson prefix_imp_sublist sublist_order.order.trans)
  from cs assms(3) sub have m: "rv = Message ?x" by (cases rv) auto
  have "str_at (?x @ [NUL]) 0 = Some ?x"
    using str_at_append [of 0 "[]" ?x "[]"] assms(2) by simp
  then have "ParsedRequest_parse einval realloc_ok (ParsedRequest_create junk) ?x (int (length ?x))
      = Some (ParsedRequest_create junk, -1)"
    using assms(4) by (auto simp: ParsedRequest_parse_def Let_def strstr_None_iff ParsedRequest_create_def
        cong: if_cong)
  then show ?thesis by (simp add: handleClient_def rv m serve_message_def)
qed

theorem early_disconnect_terminates_server_witness:
  "handleClient standard False (\<lambda>_. True) zeroed (LRU (LRUCache_new 2)) ((example_conn None 0 [])\<lparr>client_in := [Closed]\<rparr>) =
    Some (LRU (LRUCache_new 2), \<lparr>to_client = [], to_server = None, ended = Terminated 0\<rparr>)"
  by (rule early_disconnect_terminates_server) (simp_all add: BUF_SIZE_def)


text \<open>A connection on which the request r is sent and everything works.\<close>

definition works :: "connection \<Rightarrow> request \<Rightarrow> bool" where
  "works conn r = (request_ok r \<and> prefix (render r) (stream (client_in conn)) \<and>
     length (stream (client_in conn)) < BUF_SIZE \<and> NUL \<notin> set (stream (client_in conn)) \<and>
     connect_ok conn (rq_host r) (port_of r) \<and>
     generous (server_ks conn) (length (forward_text r)) \<and> stream_end (server_in conn) = Clean \<and>
     length (stream (server_in conn)) < 2147483648)"

text \<open>The cache key is host and path without the port. After a request to one port of a host
  has been answered and cached, a request for the same path at another port of that host is
  answered with the first server's response and never reaches its own server.\<close>

theorem cache_key_ignores_port:
  assumes "cache_ok lib c" "fresh conn1 \<notin> cache_used c" "cache_lookup c (rq_host r1 @ rq_path r1) = None"
    and "works conn1 r1" "works conn2 r2" "port_ok einval r1" "port_ok einval r2"
    and "rq_host r2 = rq_host r1" "rq_path r2 = rq_path r1" "rq_port r2 \<noteq> rq_port r1"
    and "generous (client_ks conn1) (length (stream (server_in conn1)))"
      "generous (client_ks conn2) (length (stream (server_in conn1)))"
  shows "\<exists>c1 c2. handleClient lib einval (\<lambda>_. True) junk c conn1 = Some (c1, \<lparr>to_client = stream (server_in conn1),
      to_server = Some (rq_host r1, port_of r1, forward_text r1), ended = Served\<rparr>) \<and>
    handleClient lib einval (\<lambda>_. True) junk c1 conn2 = Some (c2, \<lparr>to_client = stream (server_in conn1),
      to_server = None, ended = Served\<rparr>)"
proof -
  let ?d = "stream (server_in conn1)" and ?u = "rq_host r1 @ rq_path r1"
  note w1 = assms(4) [unfolded works_def] and w2 = assms(5) [unfolded works_def]
  have "\<exists>c1. handleClient lib einval (\<lambda>_. True) junk c conn1 = Some (c1, \<lparr>to_client = ?d,
      to_server = (if cache_lookup c ?u = None then Some (rq_host r1, port_of r1, forward_text r1) else None),
      ended = Served\<rparr>) \<and> cache_ok lib c1 \<and> cache_lookup c1 ?u = Some ?d \<and>
    cache_extends c c1 (fresh conn1) ?u"
    by (rule handleClient_spec) (use assms w1 in simp_all)
  then obtain c1 where c1: "handleClient lib einval (\<lambda>_. True) junk c conn1 = Some (c1, \<lparr>to_client = ?d,
      to_server = Some (rq_host r1, port_of r1, forward_text r1), ended = Served\<rparr>)" "cache_ok lib c1"
    "cache_lookup c1 ?u = Some ?d" using assms(3) by auto
  have "\<exists>c2. handleClient lib einval (\<lambda>_. True) junk c1 conn2 = Some (c2, \<lparr>to_client = ?d,
      to_server = (if cache_lookup c1 ?u = None then Some (rq_host r2, port_of r2, forward_text r2) else None),
      ended = Served\<rparr>) \<and> cache_ok lib c2 \<and> cache_lookup c2 ?u = Some ?d \<and>
    cache_extends c1 c2 (fresh conn2) ?u"
    by (rule handleClient_spec) (use assms w2 c1 in simp_all)
  with c1 show ?thesis by auto
qed

lemma example_works:
  assumes "p = None \<or> p = Some ''81''" "length d < 9"
  shows "works (example_conn p a d) (example_request p)"
    "generous (client_ks (example_conn p a d)) 8"
proof -
  have "request_ok (example_request p)" using example_ok assms(1) by auto
  then show "works (example_conn p a d) (example_request p)"
    unfolding works_def
    using example_stream(1) [OF assms(1), of a d] example_stream(2-4) [OF assms(1)] assms(2)
    by (simp add: example_conn_def generous_def)
  show "generous (client_ks (example_conn p a d)) 8" by (simp add: example_conn_def generous_def)
qed

theorem cache_key_ignores_port_witness:
  "\<exists>c1 c2. handleClient standard False (\<lambda>_. True) zeroed (LRU (LRUCache_new 2)) (example_conn None 0 ''port80'') =
      Some (c1, \<lparr>to_client = ''port80'',
        to_server = Some (''h'', ''80'', forward_text (example_request None)), ended = Served\<rparr>) \<and>
    handleClient standard False (\<lambda>_. True) zeroed c1 (example_conn (Some ''81'') 1 ''port81'') =
      Some (c2, \<lparr>to_client = ''port80'', to_server = None, ended = Served\<rparr>)"
proof -
  have w: "cache_ok standard (LRU (LRUCache_new 2))" "fresh (example_conn None 0 ''port80'') \<notin> cache_used (LRU (LRUCache_new 2))"
    using new_cache_ok(1,3) [of 2] by simp_all
  have e: "cache_lookup (LRU (LRUCache_new 2)) u = None" for u
    using new_cache_ok(2) [of 2] by simp
  have x1: "works (example_conn None 0 ''port80'') (example_request None)"
    and x2: "works (example_conn (Some ''81'') 1 ''port81'') (example_request (Some ''81''))"
    by (rule example_works, simp_all)+
  have q: "rq_host (example_request (Some ''81'')) = rq_host (example_request None)"
    "rq_path (example_request (Some ''81'')) = rq_path (example_request None)"
    "rq_port (example_request (Some ''81'')) \<noteq> rq_port (example_request None)"
    by (simp_all add: example_request_def)
  have s: "stream (server_in (example_conn None 0 ''port80'')) = ''port80''" by (simp add: example_conn_def)
  have g: "generous (client_ks (example_conn p a d)) (length ''port80'')" for p a d
    by (simp add: example_conn_def generous_def)
  from cache_key_ignores_port [OF w e x1 x2 example_port example_port q, unfolded s, OF g g, of zeroed]
  show ?thesis by (simp add: example_request_def port_of_def)
qed

text \<open>The heap block is one byte short: 5000 bytes in one packet without an empty line are not
  more than \<open>MAX_BUFFER_SIZE\<close>, so the block is not enlarged, and \<open>strncat\<close> writes its
  terminating NUL behind it.\<close>

theorem receive_full_buffer_overflows:
  assumes "length d = BUF_SIZE" "NUL \<notin> set d"
  shows "receive_loop realloc_ok BUF_SIZE 0 [] (Data d # es) = None"
proof -
  have pos: "0 < BUF_SIZE" by (simp add: BUF_SIZE_def)
  have ne: "d \<noteq> []" using assms(1) pos by auto
  then have r: "recv BUF_SIZE (Data d # es) = Some (Data d, es)" using assms(1) by simp
  have "\<not> sublist EOH []" by simp
  from receive_turn(4) [OF this pos r] strncat_clean [OF assms(2), of BUF_SIZE "[]"] assms(1)
  show ?thesis by simp
qed

theorem receive_full_buffer_overflows_witness:
  "receive_loop (\<lambda>_. True) BUF_SIZE 0 [] [Data (replicate BUF_SIZE (CHR ''x''))] = None"
  by (rule receive_full_buffer_overflows) (simp_all add: BUF_SIZE_def)

lemma no_cr_no_eoh: "CR \<notin> set s \<Longrightarrow> \<not> sublist EOH s"
  by (auto simp: sublist_def)

text \<open>After the block has been enlarged, \<open>recv\<close> is called with the enlarged size but the
  array \<open>buf\<close> on the stack still has 5000 bytes: a client that sends more than 5000 bytes, in
  two packets, and then a packet larger than \<open>buf\<close>, overwrites the stack.\<close>

theorem receive_overflows_stack:
  assumes "d1 \<noteq> []" "length d1 < BUF_SIZE" "length d2 \<le> BUF_SIZE" "BUF_SIZE < length d1 + length d2"
    and "NUL \<notin> set (d1 @ d2)" "\<not> sublist EOH (d1 @ d2)"
    and "BUF_SIZE < length d3" "length d3 \<le> 2 * BUF_SIZE" "realloc_ok (BUF_SIZE * 2)"
  shows "receive_loop realloc_ok BUF_SIZE 0 [] (Data d1 # Data d2 # Data d3 # es) = None"
proof -
  have pos: "0 < BUF_SIZE" and b: "BUF_SIZE * 2 \<le> 2147483647" by (simp_all add: BUF_SIZE_def)
  have n1: "NUL \<notin> set d1" "NUL \<notin> set d2" using assms(5) by auto
  have s1: "\<not> sublist EOH d1" using assms(6) by (meson prefix_imp_sublist prefixI sublist_order.order.trans)
  have ne2: "d2 \<noteq> []" using assms(2,4) by auto
  have r1: "recv BUF_SIZE (Data d1 # Data d2 # Data d3 # es) = Some (Data d1, Data d2 # Data d3 # es)"
    using assms(1,2) by simp
  have r2: "recv BUF_SIZE (Data d2 # Data d3 # es) = Some (Data d2, Data d3 # es)"
    using ne2 assms(3) by simp
  have r3: "recv (BUF_SIZE * 2) (Data d3 # es) = Some (Data d3, es)" using assms(7,8) by auto
  have "\<not> sublist EOH []" by simp
  from receive_turn(4) [OF this pos r1, of 0 realloc_ok] strncat_clean [OF n1(1), of BUF_SIZE "[]"] assms(2)
  have "receive_loop realloc_ok BUF_SIZE 0 [] (Data d1 # Data d2 # Data d3 # es)
      = receive_loop realloc_ok BUF_SIZE (length d1) d1 (Data d2 # Data d3 # es)" by simp
  also have "\<dots> = receive_loop realloc_ok (BUF_SIZE * 2) (length d1 + length d2) (d1 @ d2) (Data d3 # es)"
    using receive_turn(5) [OF s1 pos r2 assms(3,4) b, of realloc_ok] assms(2,3,9)
      strncat_clean [OF n1(2), of "BUF_SIZE * 2" d1] by simp
  also have "\<dots> = None"
    using receive_turn(6) [OF assms(6) _ r3 assms(7)] pos by simp
  finally show ?thesis .
qed

theorem receive_overflows_stack_witness:
  "receive_loop (\<lambda>_. True) BUF_SIZE 0 []
    [Data (replicate 4999 (CHR ''x'')), Data (replicate 2 (CHR ''x'')), Data (replicate 6000 (CHR ''x''))] = None"
proof (rule receive_overflows_stack)
  show "\<not> sublist EOH (replicate 4999 (CHR ''x'') @ replicate 2 (CHR ''x''))"
    by (rule no_cr_no_eoh) (simp add: set_replicate_conv_if)
qed (simp_all only: length_replicate set_append set_replicate_conv_if BUF_SIZE_def,
    simp_all add: set_replicate_conv_if)

end
