(* ===== verification/Shared_Cache.thy ===== *)
theory Shared_Cache
  imports Server_Cache
begin

text \<open>
  The handlers of all worker threads on the one cache of the server: the part of
  \<open>ThreadPoolServer::handleClient\<close> from the lookup to the end, with what other threads do in
  between. \<open>find\<close> and \<open>add\<close> hold the mutex of the cache and are one step each; the pointer that
  \<open>find\<close> returns is used after the mutex has been released. An address that was freed may be
  given out again by \<open>new\<close>.
\<close>

subsection \<open>States and steps\<close>

text \<open>
  A handler has parsed a request for a URL, sends the element at an address to its client, or
  relays the response of the origin server; in between it has no request.
\<close>

datatype handler = Ready | Parsed string | Sending string nat | Relaying string

text \<open>
  \<open>undefined_use\<close>: some handler has read a freed element, or a call on the cache was undefined.
  \<open>sent\<close> records for every request that was answered its URL and the bytes; \<open>calls_since\<close> is a
  ghost counter for each thread: the calls on the cache by others since its own last one.
\<close>

record shared =
  sh_cache :: cache
  sh_pc :: "nat \<Rightarrow> handler"
  undefined_use :: bool
  sent :: "(string \<times> block) list"
  calls_since :: "nat \<Rightarrow> nat"

definition shared_init :: "cache \<Rightarrow> shared" where
  "shared_init c = \<lparr>sh_cache = c, sh_pc = (\<lambda>_. Ready), undefined_use = False, sent = [], calls_since = (\<lambda>_. 0)\<rparr>"

definition count_call :: "nat \<Rightarrow> (nat \<Rightarrow> nat) \<Rightarrow> nat \<Rightarrow> nat" where
  "count_call w f = (\<lambda>v. if v = w then 0 else f v + 1)"

text \<open>
  \<open>origin\<close> is what the origin servers answer to each URL. The steps that only a peer makes possible
  are \<open>parsed\<close> (\<open>recv\<close> until the request is complete), \<open>send_element\<close> and the relays: \<open>recv\<close> and
  \<open>send\<close> block until the peer acts, which it may never do. \<open>waits_for_peer\<close> tells where; only
  \<open>find\<close> depends on nobody.
\<close>

fun waits_for_peer :: "handler \<Rightarrow> bool" where
  "waits_for_peer (Parsed u) = False"
| "waits_for_peer _ = True"

inductive shared_step ::
  "platform \<Rightarrow> (string \<Rightarrow> block) \<Rightarrow> nat \<Rightarrow> shared \<Rightarrow> nat \<Rightarrow> shared \<Rightarrow> bool" for lib origin n where
  parsed: "w < n \<Longrightarrow> sh_pc s w = Ready \<Longrightarrow>
    shared_step lib origin n s w (s\<lparr>sh_pc := (sh_pc s)(w := Parsed u)\<rparr>)"
| find_hit: "w < n \<Longrightarrow> sh_pc s w = Parsed u \<Longrightarrow> cache_find lib (sh_cache s) u now = Some (c, Some p) \<Longrightarrow>
    shared_step lib origin n s w (s\<lparr>sh_cache := c, sh_pc := (sh_pc s)(w := Sending u p),
      calls_since := count_call w (calls_since s)\<rparr>)"
| find_miss: "w < n \<Longrightarrow> sh_pc s w = Parsed u \<Longrightarrow> cache_find lib (sh_cache s) u now = Some (c, None) \<Longrightarrow>
    shared_step lib origin n s w (s\<lparr>sh_cache := c, sh_pc := (sh_pc s)(w := Relaying u),
      calls_since := count_call w (calls_since s)\<rparr>)"
| find_undefined: "w < n \<Longrightarrow> sh_pc s w = Parsed u \<Longrightarrow> cache_find lib (sh_cache s) u now = None \<Longrightarrow>
    shared_step lib origin n s w (s\<lparr>undefined_use := True\<rparr>)"
| send_element: "w < n \<Longrightarrow> sh_pc s w = Sending u p \<Longrightarrow> cache_elem (sh_cache s) p = Some e \<Longrightarrow>
    shared_step lib origin n s w (s\<lparr>sh_pc := (sh_pc s)(w := Ready), sent := (u, ce_data e) # sent s\<rparr>)"
| send_freed: "w < n \<Longrightarrow> sh_pc s w = Sending u p \<Longrightarrow> cache_elem (sh_cache s) p = None \<Longrightarrow>
    shared_step lib origin n s w (s\<lparr>undefined_use := True\<rparr>)"
| relay_add: "w < n \<Longrightarrow> sh_pc s w = Relaying u \<Longrightarrow> a \<notin> cache_used (sh_cache s) \<Longrightarrow>
    cache_add lib (sh_cache s) a now u (origin u) (int (length (origin u))) = Some c \<Longrightarrow>
    shared_step lib origin n s w (s\<lparr>sh_cache := c, sh_pc := (sh_pc s)(w := Ready), sent := (u, origin u) # sent s,
      calls_since := count_call w (calls_since s)\<rparr>)"
| add_undefined: "w < n \<Longrightarrow> sh_pc s w = Relaying u \<Longrightarrow> a \<notin> cache_used (sh_cache s) \<Longrightarrow>
    cache_add lib (sh_cache s) a now u (origin u) (int (length (origin u))) = None \<Longrightarrow>
    shared_step lib origin n s w (s\<lparr>undefined_use := True\<rparr>)"
| relay_fails: "w < n \<Longrightarrow> sh_pc s w = Relaying u \<Longrightarrow>
    shared_step lib origin n s w (s\<lparr>sh_pc := (sh_pc s)(w := Ready)\<rparr>)"

inductive shared_reach :: "platform \<Rightarrow> (string \<Rightarrow> block) \<Rightarrow> nat \<Rightarrow> cache \<Rightarrow> shared \<Rightarrow> bool"
  for lib origin n c0 where
  start: "shared_reach lib origin n c0 (shared_init c0)"
| step: "shared_reach lib origin n c0 s \<Longrightarrow> shared_step lib origin n s w s' \<Longrightarrow> shared_reach lib origin n c0 s'"

inductive_cases shared_stepE: "shared_step lib origin n s w s'"

subsection \<open>The cache stays faithful\<close>

lemma find_faithful:
  assumes "cache_ok lib c" "strategy.faithful origin c" "cache_find lib c u now = Some (c', r)"
  shows "cache_ok lib c'" "strategy.faithful origin c'"
    "r = Some p \<Longrightarrow> \<exists>e. cache_elem c' p = Some e \<and> ce_data e = origin u"
proof -
  from cache_find_elem [OF assms(1), of u now] assms(3)
  have f: "cache_ok lib c'" "cache_lookup c' = cache_lookup c" and
    r: "case r of None \<Rightarrow> cache_lookup c u = None
     | Some p \<Rightarrow> \<exists>e. cache_elem c' p = Some e \<and> cache_lookup c u = Some (ce_data e) \<and> ce_len e = int (length (ce_data e))"
    by auto
  show "cache_ok lib c'" by (rule f)
  show "strategy.faithful origin c'" using assms(2) f(2) by (simp add: strategy.faithful_def)
  show "r = Some p \<Longrightarrow> \<exists>e. cache_elem c' p = Some e \<and> ce_data e = origin u"
    using r assms(2) by (auto simp: strategy.faithful_def)
qed

lemma add_faithful:
  assumes "cache_ok lib c" "strategy.faithful origin c" "a \<notin> cache_used c"
  shows "\<exists>c'. cache_add lib c a now u (origin u) (int (length (origin u))) = Some c' \<and> cache_ok lib c' \<and>
    strategy.faithful origin c'"
proof -
  from strategy.add_law [OF assms(1,3) refl, of now u "origin u"] obtain c' where
    c': "cache_add lib c a now u (origin u) (int (length (origin u))) = Some c'" "cache_ok lib c'"
      "cache_lookup c' u = (if cache_lookup c u = None then Some (origin u) else cache_lookup c u)"
      "\<forall>u'. u' \<noteq> u \<longrightarrow> cache_lookup c' u' \<noteq> None \<longrightarrow> cache_lookup c' u' = cache_lookup c u'" by blast
  have "strategy.faithful origin c'" unfolding strategy.faithful_def
  proof (intro allI impI)
    fix v d assume "cache_lookup c' v = Some d"
    with c'(3,4) assms(2) show "d = origin v"
      by (cases "v = u") (auto simp: strategy.faithful_def split: if_splits)
  qed
  with c' show ?thesis by blast
qed

lemma shared_faithful:
  assumes "shared_reach lib origin n c0 s" "cache_ok lib c0" "strategy.faithful origin c0"
  shows "cache_ok lib (sh_cache s) \<and> strategy.faithful origin (sh_cache s)"
  using assms(1)
proof (induction rule: shared_reach.induct)
  case start
  then show ?case using assms(2,3) by (simp add: shared_init_def)
next
  case (step s w s')
  from step.hyps(2) show ?case
  proof (cases rule: shared_step.cases)
    case (find_hit u now c p)
    then show ?thesis using find_faithful(1,2) [of lib "sh_cache s" origin u now c "Some p"] step.IH by simp
  next
    case (find_miss u now c)
    then show ?thesis using find_faithful(1,2) [of lib "sh_cache s" origin u now c None] step.IH by simp
  next
    case (relay_add u a now c)
    then show ?thesis using add_faithful [of lib "sh_cache s" origin a now u] step.IH by simp
  qed (use step.IH in simp_all)
qed

subsection \<open>How long an element of the LRU cache lives\<close>

text \<open>An element is among the k most recent ones, for a URL and with its data.\<close>

definition recent :: "nat \<Rightarrow> LRUCache \<Rightarrow> nat \<Rightarrow> string \<Rightarrow> block \<Rightarrow> bool" where
  "recent k c p u d = (p \<in> set (take k (cache_list c)) \<and>
     (\<exists>e. heap c p = Some e \<and> ce_url e = u \<and> ce_data e = d))"

lemma take_removeAll_mem: "p \<in> set (take k xs) \<Longrightarrow> p \<noteq> a \<Longrightarrow> p \<in> set (take k (removeAll a xs))"
proof (induction xs arbitrary: k)
  case (Cons x xs)
  then obtain m where k: "k = Suc m" by (cases k) auto
  show ?case
  proof (cases "p = x")
    case True
    with Cons.prems k show ?thesis by simp
  next
    case False
    with Cons.prems k have "p \<in> set (take m (removeAll a xs))" by (intro Cons.IH) auto
    moreover have "set (take m (removeAll a xs)) \<subseteq> set (take k (removeAll a xs))"
      unfolding k by (rule set_take_subset_set_take) simp
    ultimately show ?thesis using k by (auto split: if_splits)
  qed
qed simp

lemma take_front: "p \<in> set (take k xs) \<Longrightarrow> p \<in> set (take (Suc k) (a # removeAll a xs))"
  by (cases "p = a") (auto intro: take_removeAll_mem)

lemma take_mono: "k \<le> m \<Longrightarrow> p \<in> set (take k xs) \<Longrightarrow> p \<in> set (take m xs)"
  by (rule subsetD [OF set_take_subset_set_take])

text \<open>Moving another element to the front moves this one back by at most one place.\<close>

lemma recent_move:
  assumes "recent k c p u d" "LRUCache_moveToFront c a = Some c'"
  shows "recent (Suc k) c' p u d"
  using assms take_front [of p k "cache_list c" a]
  by (auto simp: recent_def LRUCache_moveToFront_def split: if_splits)

lemma recent_find:
  assumes "recent k c p u d" "LRUCache_find c v now = Some (c', r)"
  shows "recent (Suc k) c' p u d"
proof (cases "cache_map c v")
  case None
  then have "c' = c" using assms(2) by (simp add: LRUCache_find_def)
  with assms(1) take_mono [of k "Suc k" p "cache_list c"] show ?thesis by (auto simp: recent_def)
next
  case (Some a)
  then obtain c1 e where c1: "LRUCache_moveToFront c a = Some c1" "heap c1 a = Some e"
    "c' = c1\<lparr>heap := (heap c1)(a \<mapsto> e\<lparr>ce_time := now\<rparr>)\<rparr>"
    using assms(2) by (auto simp: LRUCache_find_def split: bind_splits)
  from recent_move [OF assms(1) c1(1)] c1(2,3) show ?thesis by (auto simp: recent_def)
qed

lemma recent_evict:
  assumes "recent k c p u d" "k < length (cache_list c)" "lru_wf c" "LRUCache_evict c = Some c'"
  shows "recent k c' p u d"
proof -
  have p: "p \<in> set (take k (butlast (cache_list c)))"
    using assms(1,2) by (simp add: recent_def take_butlast)
  have "cache_list c \<noteq> []" using assms(2) by auto
  then have "distinct (butlast (cache_list c) @ [last (cache_list c)])"
    using lru_wfD(1) [OF assms(3)] by simp
  then have "p \<noteq> last (cache_list c)" using p by (auto dest: in_set_takeD)
  then show ?thesis using assms(1,4) p
    by (auto simp: recent_def LRUCache_evict_def Let_def split: if_splits bind_splits)
qed

lemma recent_add:
  assumes "recent k c p u d" "k < capacity c" "lru_wf c" "a \<notin> dom (heap c)"
    and "LRUCache_add c a now v b n = Some c'"
  shows "recent (Suc k) c' p u d"
proof (cases "cache_map c v")
  case (Some q)
  with assms(5) have "LRUCache_moveToFront c q = Some c'" by (simp add: LRUCache_add_def)
  from recent_move [OF assms(1) this] show ?thesis .
next
  case None
  let ?full = "capacity c \<le> length (cache_list c)"
  from None assms(5) obtain c1 where c1: "(if ?full then LRUCache_evict c else Some c) = Some c1"
    and c': "c' = c1\<lparr>heap := (heap c1)(a \<mapsto> \<lparr>ce_data = take (nat n) b, ce_len = n, ce_url = v, ce_time = now\<rparr>),
        cache_list := a # cache_list c1, cache_map := (cache_map c1)(v \<mapsto> a)\<rparr>"
    by (auto simp: LRUCache_add_def split: bind_splits if_splits)
  have "recent k c1 p u d"
    using c1 recent_evict [OF assms(1) _ assms(3), of c1] assms(1,2) by (auto split: if_splits)
  moreover have "p \<noteq> a" using assms(1,4) by (auto simp: recent_def)
  ultimately show ?thesis by (auto simp: recent_def c')
qed

text \<open>The invariant: an element a handler still sends is among the most recent ones.\<close>

definition sending_recent :: "(string \<Rightarrow> block) \<Rightarrow> nat \<Rightarrow> nat \<Rightarrow> shared \<Rightarrow> bool" where
  "sending_recent origin n cap s = (\<exists>c. sh_cache s = LRU c \<and> capacity c = cap \<and>
     (\<forall>w < n. \<forall>u p. sh_pc s w = Sending u p \<longrightarrow> calls_since s w < cap \<longrightarrow>
       recent (Suc (calls_since s w)) c p u (origin u)))"

lemma find_LRU:
  assumes "cache_find lib (LRU c) u now = Some (c', r)" "lru_wf c"
  shows "\<exists>x. c' = LRU x \<and> LRUCache_find c u now = Some (x, r) \<and> capacity x = capacity c"
  using assms find_spec [OF assms(2), of u now] by auto

lemma add_LRU:
  assumes "cache_add lib (LRU c) a now u d (int (length d)) = Some c'" "lru_wf c" "a \<notin> dom (heap c)"
  shows "\<exists>x. c' = LRU x \<and> LRUCache_add c a now u d (int (length d)) = Some x \<and> capacity x = capacity c"
  using assms add_spec [OF assms(2,3) refl, of now u d] by auto

lemma found_recent:
  assumes "cache_find lib (LRU c) u now = Some (LRU x, Some p)" "lru_wf c" "strategy.faithful origin (LRU c)"
  shows "recent 1 x p u (origin u)"
proof -
  have f: "LRUCache_find c u now = Some (x, Some p)" using assms(1) by auto
  from find_faithful(3) [OF _ assms(3,1) refl] assms(2) obtain e where
    e: "heap x p = Some e" "ce_data e = origin u" by auto
  from find_spec [OF assms(2), of u now] f have "cache_map c u = Some p"
    "\<forall>a. cache_map c u = Some a \<longrightarrow> (\<exists>e. heap x a = Some e \<and> ce_url e = u)" by auto
  with e(1) have "ce_url e = u" by auto
  moreover have "p \<in> set (take 1 (cache_list x))"
    using f by (auto simp: LRUCache_find_def LRUCache_moveToFront_def split: option.splits bind_splits if_splits)
  ultimately show ?thesis using e by (auto simp: recent_def)
qed

lemma recent_find_step:
  assumes "sending_recent origin n cap s" "cache_ok lib (sh_cache s)" "strategy.faithful origin (sh_cache s)"
    and "cache_find lib (sh_cache s) u now = Some (c, r)"
    and "\<forall>p. pc = Sending u p \<longrightarrow> r = Some p" "\<forall>v p. pc = Sending v p \<longrightarrow> v = u"
  shows "sending_recent origin n cap (s\<lparr>sh_cache := c, sh_pc := (sh_pc s)(w := pc),
      calls_since := count_call w (calls_since s)\<rparr>)"
proof -
  from assms(1) obtain x where x: "sh_cache s = LRU x" "capacity x = cap" and
    rec: "\<And>v u p. v < n \<Longrightarrow> sh_pc s v = Sending u p \<Longrightarrow> calls_since s v < cap \<Longrightarrow>
      recent (Suc (calls_since s v)) x p u (origin u)" by (auto simp: sending_recent_def)
  have wf: "lru_wf x" using assms(2) x(1) by simp
  from find_LRU [OF assms(4) [unfolded x(1)] wf] x(2) obtain y where
    y: "c = LRU y" "LRUCache_find x u now = Some (y, r)" "capacity y = cap" by blast
  have "recent (Suc (count_call w (calls_since s) v)) y p u' (origin u')"
    if v: "v < n" "((sh_pc s)(w := pc)) v = Sending u' p" "count_call w (calls_since s) v < cap" for v u' p
  proof (cases "v = w")
    case True
    with v assms(5,6) have "pc = Sending u p" "u' = u" "r = Some p" by auto
    with found_recent [of lib x u now y p origin] assms(3,4) x(1) y(1) wf True
    show ?thesis by (simp add: count_call_def)
  next
    case False
    with v rec [of v u' p] have "recent (Suc (calls_since s v)) x p u' (origin u')"
      by (simp add: count_call_def)
    from recent_find [OF this y(2)] False show ?thesis by (simp add: count_call_def)
  qed
  with y show ?thesis by (simp add: sending_recent_def)
qed

lemma recent_add_step:
  assumes "sending_recent origin n cap s" "cache_ok lib (sh_cache s)" "a \<notin> cache_used (sh_cache s)"
    and "cache_add lib (sh_cache s) a now u d (int (length d)) = Some c"
  shows "sending_recent origin n cap (s\<lparr>sh_cache := c, sh_pc := (sh_pc s)(w := Ready), sent := out,
      calls_since := count_call w (calls_since s)\<rparr>)"
proof -
  from assms(1) obtain x where x: "sh_cache s = LRU x" "capacity x = cap" and
    rec: "\<And>v u p. v < n \<Longrightarrow> sh_pc s v = Sending u p \<Longrightarrow> calls_since s v < cap \<Longrightarrow>
      recent (Suc (calls_since s v)) x p u (origin u)" by (auto simp: sending_recent_def)
  have wf: "lru_wf x" and a: "a \<notin> dom (heap x)" using assms(2,3) x(1) by (simp_all add: cache_used_def)
  from add_LRU [OF assms(4) [unfolded x(1)] wf a] x(2) obtain y where
    y: "c = LRU y" "LRUCache_add x a now u d (int (length d)) = Some y" "capacity y = cap" by blast
  have "recent (Suc (count_call w (calls_since s) v)) y p u' (origin u')"
    if v: "v < n" "((sh_pc s)(w := Ready)) v = Sending u' p" "count_call w (calls_since s) v < cap" for v u' p
  proof -
    from v have "v \<noteq> w" by auto
    with v rec [of v u' p] have r: "recent (Suc (calls_since s v)) x p u' (origin u')"
      and k: "Suc (calls_since s v) < capacity x" by (simp_all add: count_call_def x(2))
    from recent_add [OF r k wf a y(2)] \<open>v \<noteq> w\<close> show ?thesis by (simp add: count_call_def)
  qed
  with y show ?thesis by (simp add: sending_recent_def)
qed

lemma shared_recent:
  assumes "shared_reach lib origin n (LRU (LRUCache_new cap)) s" "0 < cap"
  shows "sending_recent origin n cap s"
  using assms(1)
proof (induction rule: shared_reach.induct)
  case start
  then show ?case by (simp add: sending_recent_def shared_init_def LRUCache_new_def)
next
  case (step s w s')
  have e: "cache_ok lib (LRU (LRUCache_new cap))" "strategy.faithful origin (LRU (LRUCache_new cap))"
    using new_cache_ok [OF assms(2)] by (simp_all add: strategy.faithful_def)
  note ok = shared_faithful [OF step.hyps(1) e]
  from step.hyps(2) show ?case
  proof (cases rule: shared_step.cases)
    case (find_hit u now c p)
    then show ?thesis using recent_find_step [OF step.IH _ _ find_hit(4)] ok by simp
  next
    case (find_miss u now c)
    then show ?thesis using recent_find_step [OF step.IH _ _ find_miss(4)] ok by simp
  next
    case (relay_add u a now c)
    then show ?thesis using recent_add_step [OF step.IH _ relay_add(4,5)] ok by simp
  qed (use step.IH in \<open>auto simp: sending_recent_def\<close>)
qed

subsection \<open>Runs in which one thread sends slowly\<close>

lemma reach_step2:
  assumes "shared_reach lib origin n c0 s" "shared_step lib origin n s w s1" "shared_step lib origin n s1 w s2"
  shows "shared_reach lib origin n c0 s2"
  using shared_reach.step [OF shared_reach.step [OF assms(1,2)] assms(3)] .

text \<open>A thread serves one request, on an LRU cache, while the others stand still.\<close>

lemma one_request:
  assumes "shared_reach lib origin n c0 s" "sh_cache s = LRU c" "lru_wf c" "w < n" "sh_pc s w = Ready"
    and "a \<notin> dom (heap c)" "lru_request c a now u (origin u) = Some c'"
  shows "\<exists>s'. shared_reach lib origin n c0 s' \<and> sh_cache s' = LRU c' \<and> sh_pc s' = sh_pc s \<and>
    undefined_use s' = undefined_use s"
proof -
  let ?s1 = "s\<lparr>sh_pc := (sh_pc s)(w := Parsed u)\<rparr>"
  have r1: "shared_reach lib origin n c0 ?s1"
    by (rule shared_reach.step [OF assms(1) shared_step.parsed [OF assms(4,5)]])
  from find_spec [OF assms(3), of u now] obtain c1 where
    c1: "LRUCache_find c u now = Some (c1, cache_map c u)" "dom (heap c1) = dom (heap c)"
      "\<forall>a. cache_map c u = Some a \<longrightarrow> (\<exists>e. heap c1 a = Some e)" by blast
  have f: "cache_find lib (sh_cache ?s1) u now = Some (LRU c1, cache_map c u)" using assms(2) c1(1) by simp
  have pc: "sh_pc ?s1 w = Parsed u" and idle: "(sh_pc s)(w := Ready) = sh_pc s" using assms(5) by auto
  show ?thesis
  proof (cases "cache_map c u")
    case (Some p)
    let ?s2 = "?s1\<lparr>sh_cache := LRU c1, sh_pc := (sh_pc ?s1)(w := Sending u p),
      calls_since := count_call w (calls_since ?s1)\<rparr>"
    from c1(3) Some obtain e where e: "cache_elem (sh_cache ?s2) p = Some e" by auto
    let ?s3 = "?s2\<lparr>sh_pc := (sh_pc ?s2)(w := Ready), sent := (u, ce_data e) # sent ?s2\<rparr>"
    have "shared_step lib origin n ?s2 w ?s3" by (rule shared_step.send_element [OF assms(4) _ e]) simp
    from reach_step2 [OF r1 shared_step.find_hit [OF assms(4) pc f [unfolded Some]] this]
    have "shared_reach lib origin n c0 ?s3" .
    moreover have "c' = c1" using assms(7) c1(1) Some by (simp add: lru_request_def)
    ultimately show ?thesis using idle by (intro exI [of _ ?s3]) simp
  next
    case None
    let ?s2 = "?s1\<lparr>sh_cache := LRU c1, sh_pc := (sh_pc ?s1)(w := Relaying u),
      calls_since := count_call w (calls_since ?s1)\<rparr>"
    have add: "cache_add lib (sh_cache ?s2) a now u (origin u) (int (length (origin u))) = Some (LRU c')"
      using assms(7) c1(1) None by (simp add: lru_request_def)
    let ?s3 = "?s2\<lparr>sh_cache := LRU c', sh_pc := (sh_pc ?s2)(w := Ready), sent := (u, origin u) # sent ?s2,
      calls_since := count_call w (calls_since ?s2)\<rparr>"
    have "shared_step lib origin n ?s2 w ?s3"
      by (rule shared_step.relay_add [where a = a and now = now])
        (use assms(4,6) c1(2) add in \<open>simp_all add: cache_used_def\<close>)
    from reach_step2 [OF r1 shared_step.find_miss [OF assms(4) pc f [unfolded None]] this]
    show ?thesis using idle by (intro exI [of _ ?s3]) simp
  qed
qed

lemma many_requests:
  assumes "shared_reach lib origin n c0 s" "sh_cache s = LRU c" "lru_wf c" "w < n" "sh_pc s w = Ready"
    and "\<forall>b \<in> dom (heap c). b < a"
  shows "\<exists>s' c'. shared_reach lib origin n c0 s' \<and> lru_run c a (map (\<lambda>u. (u, origin u)) us) = Some c' \<and>
    lru_wf c' \<and> sh_cache s' = LRU c' \<and> sh_pc s' = sh_pc s \<and> undefined_use s' = undefined_use s"
  using assms
proof (induction us arbitrary: s c a)
  case Nil
  then show ?case by auto
next
  case (Cons u us)
  from request_spec [OF Cons.prems(3,6), of "int a" u "origin u"] obtain c1 where
    c1: "lru_request c a (int a) u (origin u) = Some c1" "lru_wf c1" "\<forall>b \<in> dom (heap c1). b < Suc a" by blast
  from Cons.prems(6) have "a \<notin> dom (heap c)" by auto
  from one_request [OF Cons.prems(1-5) this c1(1)] obtain s1 where
    s1: "shared_reach lib origin n c0 s1" "sh_cache s1 = LRU c1" "sh_pc s1 = sh_pc s"
      "undefined_use s1 = undefined_use s" by blast
  have "sh_pc s1 w = Ready" using s1(3) Cons.prems(5) by simp
  from Cons.IH [OF s1(1,2) c1(2) Cons.prems(4) this c1(3)] s1(3,4) c1(1) show ?case by auto
qed

subsection \<open>Properties\<close>

lemma new_faithful: "strategy.faithful origin (LRU (LRUCache_new cap))"
  by (simp add: strategy.faithful_def lru_lookup_def lru_entries_def LRUCache_new_def)



lemma added_element:
  assumes "LRUCache_add c a now u d (int (length d)) = Some c'" "cache_map c u = None"
  shows "\<exists>e. heap c' a = Some e \<and> ce_data e = d"
  using assms by (auto simp: LRUCache_add_def split: bind_splits if_splits)

text \<open>A cache with one element, at address 0.\<close>

definition one_cached :: "nat \<Rightarrow> string \<Rightarrow> block \<Rightarrow> int \<Rightarrow> LRUCache" where
  "one_cached cap u d now = \<lparr>capacity = cap, cache_list = [0], cache_map = [u \<mapsto> 0],
     heap = [0 \<mapsto> \<lparr>ce_data = d, ce_len = int (length d), ce_url = u, ce_time = now\<rparr>]\<rparr>"

lemma one_cached_facts:
  "0 < cap \<Longrightarrow> lru_request (LRUCache_new cap) 0 now u d = Some (one_cached cap u d now)"
  "LRUCache_find (one_cached cap u d now) u t = Some (one_cached cap u d t, Some 0)"
  "0 < cap \<Longrightarrow> lru_wf (one_cached cap u d now)"
  "dom (heap (one_cached cap u d now)) = {0}" "capacity (one_cached cap u d now) = cap"
  by (auto simp: one_cached_def lru_request_def LRUCache_find_def LRUCache_add_def LRUCache_new_def
      LRUCache_moveToFront_def lru_wf_def split: if_splits)

text \<open>A thread has found a response and starts to send it; then another serves as many other URLs as
  the cache has places.\<close>

lemma fresh_sender:
  assumes "0 < cap"
  shows "\<exists>s. shared_reach lib origin 2 (LRU (LRUCache_new cap)) s \<and>
    sh_cache s = LRU (one_cached cap u (origin u) 1) \<and> sh_pc s = (\<lambda>_. Ready)(0 := Sending u 0) \<and>
    calls_since s 0 = 0 \<and> \<not> undefined_use s"
proof -
  let ?c0 = "LRUCache_new cap" and ?one = "one_cached cap u (origin u)"
  from one_request [OF shared_reach.start, of "LRU ?c0" ?c0 1 2 0 0 u origin "?one 0" lib] assms
  obtain s1 where s1: "shared_reach lib origin 2 (LRU ?c0) s1" "sh_cache s1 = LRU (?one 0)"
    "sh_pc s1 = (\<lambda>_. Ready)" "\<not> undefined_use s1"
    using new_wf [OF assms] one_cached_facts(1) [OF assms] by (auto simp: shared_init_def LRUCache_new_def)
  let ?s2 = "s1\<lparr>sh_pc := (sh_pc s1)(0 := Parsed u)\<rparr>"
  let ?s3 = "?s2\<lparr>sh_cache := LRU (?one 1), sh_pc := (sh_pc ?s2)(0 := Sending u 0),
    calls_since := count_call 0 (calls_since ?s2)\<rparr>"
  have "shared_step lib origin 2 s1 0 ?s2" by (rule shared_step.parsed) (simp_all add: s1(3))
  moreover have "shared_step lib origin 2 ?s2 0 ?s3"
    by (rule shared_step.find_hit [where now = 1]) (simp_all add: s1(2) one_cached_facts(2))
  ultimately have "shared_reach lib origin 2 (LRU ?c0) ?s3" by (rule reach_step2 [OF s1(1)])
  then show ?thesis using s1(3,4) by (intro exI [of _ ?s3]) (simp add: count_call_def)
qed

lemma slow_sender:
  assumes "0 < length us" "distinct us" "u \<notin> set us"
  shows "\<exists>s c. shared_reach lib origin 2 (LRU (LRUCache_new (length us))) s \<and> sh_cache s = LRU c \<and> lru_wf c \<and>
    sh_pc s 0 = Sending u 0 \<and> sh_pc s 1 = Ready \<and> heap c 0 = None \<and>
    set (map fst (lru_entries c)) = set us \<and> \<not> undefined_use s"
proof -
  let ?rs = "map (\<lambda>u. (u, origin u)) us" and ?one = "one_cached (length us) u (origin u)"
  note one = one_cached_facts(3) [OF assms(1)] one_cached_facts(2,4,5)
  from fresh_sender [OF assms(1), of lib origin u] obtain s1 where
    s1: "shared_reach lib origin 2 (LRU (LRUCache_new (length us))) s1" "sh_cache s1 = LRU (?one 1)"
      "sh_pc s1 = (\<lambda>_. Ready)(0 := Sending u 0)" "\<not> undefined_use s1" by blast
  have d: "\<forall>b \<in> dom (heap (?one now)). b < 1" for now using one(3) by simp
  obtain s c where s: "shared_reach lib origin 2 (LRU (LRUCache_new (length us))) s"
    "lru_run (?one 1) 1 ?rs = Some c" "lru_wf c" "sh_cache s = LRU c" "sh_pc s = sh_pc s1" "\<not> undefined_use s"
    using many_requests [OF s1(1,2), of 1 1 us] one(1) d s1(3,4) by auto
  have dist: "distinct (map fst ?rs)" "u \<notin> fst ` set ?rs" using assms(2,3) by (auto simp: comp_def)
  from found_then_freed [OF one(1) d one(2) _ dist, of 0 1] s(2) one(4)
  have "heap c 0 = None" "map fst (lru_entries c) = rev us" by (auto simp: comp_def)
  with s s1(3) show ?thesis by (intro exI [of _ s] exI [of _ c]) simp
qed

text \<open>C35. Beyond that window the cache of a running server hands one client's response to another, or
  reads freed memory: for every capacity and any distinct URLs u, v and as many others as the
  cache has places, two threads can reach a state in which the handler of u has sent the
  response for v, the address of its element having been given out again, and one in which it
  has read a freed element.\<close>

theorem shared_cache_crosses_responses:
  assumes "distinct (u # v # us)" "us \<noteq> []"
  shows "(\<exists>s. shared_reach lib origin 2 (LRU (LRUCache_new (length us))) s \<and> (u, origin v) \<in> set (sent s) \<and>
      \<not> undefined_use s) \<and>
    (\<exists>s. shared_reach lib origin 2 (LRU (LRUCache_new (length us))) s \<and> undefined_use s)"
proof -
  let ?c0 = "LRU (LRUCache_new (length us))"
  from slow_sender [of us u lib origin] assms obtain s c where
    s: "shared_reach lib origin 2 ?c0 s" "sh_cache s = LRU c" "lru_wf c" "sh_pc s 0 = Sending u 0"
      "sh_pc s 1 = Ready" "heap c 0 = None" "set (map fst (lru_entries c)) = set us" "\<not> undefined_use s" by auto
  have "shared_step lib origin 2 s 0 (s\<lparr>undefined_use := True\<rparr>)"
    by (rule shared_step.send_freed [where p = 0]) (simp_all add: s(2,4,6))
  from shared_reach.step [OF s(1) this]
  have "\<exists>s. shared_reach lib origin 2 ?c0 s \<and> undefined_use s" by (intro exI conjI) (assumption, simp)
  note undef = this
  have new: "cache_map c v = None" using lru_entries_key [OF s(3), of v] s(7) assms(1) by auto
  from find_spec [OF s(3), of v 0] obtain c1 where
    c1: "LRUCache_find c v 0 = Some (c1, None)" "lru_wf c1" "dom (heap c1) = dom (heap c)" "cache_map c1 = cache_map c"
    using new by auto
  from add_spec [OF c1(2) _ refl, of 0 0 v "origin v"] c1(3) s(6) obtain c2 where
    c2: "LRUCache_add c1 0 0 v (origin v) (int (length (origin v))) = Some c2" by auto
  from added_element [OF this] c1(4) new obtain e where e: "heap c2 0 = Some e" "ce_data e = origin v" by auto
  have "lru_request c 0 0 v (origin v) = Some c2" using c1(1) c2 by (simp add: lru_request_def)
  from one_request [OF s(1-3) _ s(5) _ this] s(6) obtain t where
    t: "shared_reach lib origin 2 ?c0 t" "sh_cache t = LRU c2" "sh_pc t = sh_pc s" "\<not> undefined_use t"
    using s(8) by auto
  have "shared_step lib origin 2 t 0 (t\<lparr>sh_pc := (sh_pc t)(0 := Ready), sent := (u, ce_data e) # sent t\<rparr>)"
    by (rule shared_step.send_element [where p = 0]) (simp_all add: t(2,3) s(4) e(1))
  from shared_reach.step [OF t(1) this] e(2) t(4)
  have "\<exists>s. shared_reach lib origin 2 ?c0 s \<and> (u, origin v) \<in> set (sent s) \<and> \<not> undefined_use s"
    by (intro exI conjI) (assumption, simp_all)
  with undef show ?thesis by blast
qed



theorem shared_cache_crosses_responses_witness:
  "\<exists>s. shared_reach standard (\<lambda>u. u @ ''!'') 2 (LRU (LRUCache_new 1)) s \<and> (''mine'', ''yours!'') \<in> set (sent s)"
  using shared_cache_crosses_responses [of "''mine''" "''yours''" "[''x'']" standard "\<lambda>u. u @ ''!''"] by auto

end
