(* ===== verification/Working_Set.thy ===== *)
theory Working_Set
  imports Shared_Cache
begin

text \<open>
  When the cache has places for all URLs that are asked for, nothing is ever evicted, and then
  the elements that handlers hold across the lock stay allocated however long they send.
\<close>

subsection \<open>Calls that free nothing\<close>

fun cache_capacity :: "cache \<Rightarrow> nat" where
  "cache_capacity (LRU c) = capacity c"
| "cache_capacity (LFU c) = lfu_capacity c"

fun has_room :: "cache \<Rightarrow> bool" where
  "has_room (LRU c) = (length (cache_list c) < capacity c)"
| "has_room (LFU c) = (length (lfu_map c) < lfu_capacity c)"

text \<open>Every element stays allocated with its data.\<close>

definition keeps :: "cache \<Rightarrow> cache \<Rightarrow> bool" where
  "keeps c c' = (cache_capacity c' = cache_capacity c \<and>
     (\<forall>p e. cache_elem c p = Some e \<longrightarrow> (\<exists>e'. cache_elem c' p = Some e' \<and> ce_data e' = ce_data e)))"

lemma increment_capacity: "incrementFrequency lib c u = Some c' \<Longrightarrow> lfu_capacity c' = lfu_capacity c"
  by (auto simp: incrementFrequency_def Let_def split: bind_splits if_splits)

lemma find_keeps: "cache_find lib c u now = Some (c', r) \<Longrightarrow> keeps c c'"
proof (cases c)
  case (LRU x)
  assume "cache_find lib c u now = Some (c', r)"
  then show ?thesis unfolding LRU
    by (auto simp: keeps_def LRUCache_find_def LRUCache_moveToFront_def split: option.splits bind_splits if_splits)
next
  case (LFU x)
  assume "cache_find lib c u now = Some (c', r)"
  then show ?thesis unfolding LFU
    by (auto simp: keeps_def LFUCache_find_def increment_heap increment_capacity split: option.splits bind_splits)
qed

lemma lru_add_keeps:
  assumes "LRUCache_add c a now u d n = Some c'" "heap c a = None"
    and "cache_map c u \<noteq> None \<or> length (cache_list c) < capacity c"
  shows "keeps (LRU c) (LRU c')"
  using assms by (auto simp: keeps_def LRUCache_add_def LRUCache_moveToFront_def split: option.splits if_splits)

lemma lfu_add_keeps:
  assumes "LFUCache_add lib c a now u d n = Some c'" "lfu_heap c a = None"
    and "map_of (lfu_map c) u \<noteq> None \<or> length (lfu_map c) < lfu_capacity c"
  shows "keeps (LFU c) (LFU c')"
proof (cases "map_of (lfu_map c) u")
  case (Some x)
  with assms(1) have "incrementFrequency lib c u = Some c'" by (simp add: LFUCache_add_def)
  then show ?thesis by (simp add: keeps_def increment_heap increment_capacity)
next
  case None
  with assms show ?thesis by (auto simp: keeps_def LFUCache_add_def Let_def split: if_splits)
qed

lemma lookup_map:
  assumes "cache_ok lib (LRU c)" shows "lru_lookup c u \<noteq> None \<longleftrightarrow> cache_map c u \<noteq> None"
  using lru_entries_key [of c u] assms by (force simp: lru_lookup_def map_of_eq_None_iff)

lemma add_keeps:
  assumes "cache_add lib c a now u d n = Some c'" "a \<notin> cache_used c" "cache_ok lib c"
    and "cache_lookup c u \<noteq> None \<or> has_room c"
  shows "keeps c c'"
proof (cases c)
  case (LRU x)
  with assms lookup_map [of lib x u] show ?thesis
    by (auto simp: cache_used_def domIff intro!: lru_add_keeps)
next
  case (LFU x)
  with assms lookup_None [of x u] show ?thesis
    by (auto simp: cache_used_def domIff intro!: lfu_add_keeps)
qed

lemma room_left:
  assumes "cache_ok lib c" "cache_lookup c u = None" "dom (cache_lookup c) \<subseteq> U" "u \<in> U"
    and "finite U" "card U \<le> cache_capacity c"
  shows "has_room c"
proof -
  have less: "card (dom (cache_lookup c)) < cache_capacity c"
  proof -
    have "dom (cache_lookup c) \<subset> U" using assms(2-4) by auto
    from psubset_card_mono [OF assms(5) this] assms(6) show ?thesis by simp
  qed
  show ?thesis
  proof (cases c)
    case (LRU x)
    with assms(1) have wf: "lru_wf x" by simp
    have "card (dom (lru_lookup x)) = length (lru_entries x)"
      using distinct_card [OF lru_entries_distinct [OF wf]] by (simp add: lru_lookup_def dom_map_of_conv_image_fst)
    with less LRU show ?thesis by (simp add: lru_entries_def)
  next
    case (LFU x)
    with assms(1) have wf: "lfu_wf x" by simp
    have "dom (lfu_lookup x) = dom (map_of (lfu_map x))"
      using lookup_None [OF wf] by (simp add: dom_def)
    then have "card (dom (lfu_lookup x)) = length (lfu_map x)"
      using distinct_card [OF lfu_wfD(2) [OF wf]] by (simp add: dom_map_of_conv_image_fst)
    with less LFU show ?thesis by simp
  qed
qed

lemma add_dom_lookup:
  assumes "cache_add lib c a now u d (int (length d)) = Some c'" "cache_ok lib c" "a \<notin> cache_used c"
  shows "dom (cache_lookup c') \<subseteq> insert u (dom (cache_lookup c))"
proof
  fix v assume "v \<in> dom (cache_lookup c')"
  with strategy.add_law [OF assms(2,3) refl, of now u d] assms(1)
  show "v \<in> insert u (dom (cache_lookup c))" by (cases "v = u") auto
qed

subsection \<open>Handlers on such a cache\<close>

fun handler_url :: "handler \<Rightarrow> string option" where
  "handler_url Ready = None"
| "handler_url (Parsed u) = Some u"
| "handler_url (Sending u p) = Some u"
| "handler_url (Relaying u) = Some u"

lemma handler_url_None [simp]: "handler_url h = None \<longleftrightarrow> h = Ready"
  by (cases h) auto

text \<open>A step of a handler changes no other handler.\<close>

lemma shared_step_local:
  assumes "shared_step lib origin n h w h'"
  shows "w < n" "v \<noteq> w \<Longrightarrow> sh_pc h' v = sh_pc h v"
  using assms by (cases rule: shared_step.cases; simp)+

text \<open>Until it ends, a handler serves one URL.\<close>

lemma handler_url_kept:
  assumes "shared_step lib origin n h w h'" "sh_pc h w \<noteq> Ready" "sh_pc h' w \<noteq> Ready"
  shows "handler_url (sh_pc h' w) = handler_url (sh_pc h w)"
  using assms by (cases rule: shared_step.cases) auto

text \<open>What a handler has in its hands is the response for its URL.\<close>

fun holds_response :: "(string \<Rightarrow> block) \<Rightarrow> cache \<Rightarrow> handler \<Rightarrow> bool" where
  "holds_response origin c (Sending u p) = (\<exists>e. cache_elem c p = Some e \<and> ce_data e = origin u)"
| "holds_response origin c _ = True"

lemma holds_response_kept: "holds_response origin c h \<Longrightarrow> keeps c c' \<Longrightarrow> holds_response origin c' h"
  by (cases h; fastforce simp: keeps_def)

definition fits :: "platform \<Rightarrow> (string \<Rightarrow> block) \<Rightarrow> string set \<Rightarrow> shared \<Rightarrow> bool" where
  "fits lib origin U s = (cache_ok lib (sh_cache s) \<and> strategy.faithful origin (sh_cache s) \<and>
     dom (cache_lookup (sh_cache s)) \<subseteq> U \<and> finite U \<and> card U \<le> cache_capacity (sh_cache s) \<and>
     (\<forall>w. set_option (handler_url (sh_pc s w)) \<subseteq> U \<and> holds_response origin (sh_cache s) (sh_pc s w)) \<and>
     \<not> undefined_use s)"

text \<open>A call on the cache by thread w, after which it is at h.\<close>

lemma fits_call:
  assumes "fits lib origin U s" "cache_ok lib c" "strategy.faithful origin c" "keeps (sh_cache s) c"
    and "dom (cache_lookup c) \<subseteq> U" "set_option (handler_url h) \<subseteq> U" "holds_response origin c h"
  shows "fits lib origin U (s\<lparr>sh_cache := c, sh_pc := (sh_pc s)(w := h), sent := out, calls_since := k\<rparr>)"
  using assms holds_response_kept [OF _ assms(4)] by (auto simp: fits_def keeps_def)

lemma fits_find:
  assumes "fits lib origin U s" "cache_find lib (sh_cache s) u now = Some (c, r)"
  shows "cache_ok lib c" "strategy.faithful origin c" "keeps (sh_cache s) c" "dom (cache_lookup c) \<subseteq> U"
    "r = Some p \<Longrightarrow> \<exists>e. cache_elem c p = Some e \<and> ce_data e = origin u"
proof -
  from assms(1) have ok: "cache_ok lib (sh_cache s)" "strategy.faithful origin (sh_cache s)"
    "dom (cache_lookup (sh_cache s)) \<subseteq> U" by (simp_all add: fits_def)
  note f = find_faithful [OF ok(1,2) assms(2)]
  show "cache_ok lib c" "strategy.faithful origin c" using f(1,2) .
  show "keeps (sh_cache s) c" by (rule find_keeps [OF assms(2)])
  show "dom (cache_lookup c) \<subseteq> U" using cache_find_elem [OF ok(1), of u now] assms(2) ok(3) by auto
  show "r = Some p \<Longrightarrow> \<exists>e. cache_elem c p = Some e \<and> ce_data e = origin u" by (rule f(3))
qed

lemma fits_add:
  assumes "fits lib origin U s" "a \<notin> cache_used (sh_cache s)" "u \<in> U"
    and "cache_add lib (sh_cache s) a now u (origin u) (int (length (origin u))) = Some c"
  shows "cache_ok lib c" "strategy.faithful origin c" "keeps (sh_cache s) c" "dom (cache_lookup c) \<subseteq> U"
proof -
  from assms(1) have ok: "cache_ok lib (sh_cache s)" "strategy.faithful origin (sh_cache s)"
    "dom (cache_lookup (sh_cache s)) \<subseteq> U" "finite U" "card U \<le> cache_capacity (sh_cache s)"
    by (simp_all add: fits_def)
  from add_faithful [OF ok(1,2) assms(2), of now u] assms(4)
  show "cache_ok lib c" "strategy.faithful origin c" by auto
  show "keeps (sh_cache s) c"
    using add_keeps [OF assms(4,2) ok(1)] room_left [OF ok(1) _ ok(3) assms(3) ok(4,5)] by blast
  show "dom (cache_lookup c) \<subseteq> U" using add_dom_lookup [OF assms(4) ok(1) assms(2)] ok(3) assms(3) by blast
qed

text \<open>
  One step of a handler whose requests are for URLs in U: the cache still fits, and what a
  client is sent is the response for the URL of its handler.
\<close>

lemma fits_step:
  assumes "shared_step lib origin n s w s'" "fits lib origin U s"
    and "sh_pc s w = Ready \<Longrightarrow> set_option (handler_url (sh_pc s' w)) \<subseteq> U"
  shows "fits lib origin U s'" "sent s' \<noteq> sent s \<Longrightarrow>
    \<exists>u. handler_url (sh_pc s w) = Some u \<and> sent s' = (u, origin u) # sent s"
proof -
  have pcs: "set_option (handler_url (sh_pc s v)) \<subseteq> U" "holds_response origin (sh_cache s) (sh_pc s v)" for v
    using assms(2) by (simp_all add: fits_def)
  have same: "fits lib origin U (s\<lparr>sh_pc := (sh_pc s)(w := h), sent := out\<rparr>)"
    if "set_option (handler_url h) \<subseteq> U" "holds_response origin (sh_cache s) h" for h out
    using assms(2) that by (auto simp: fits_def)
  have no: False if "sh_pc s w = Sending u p" "cache_elem (sh_cache s) p = None" for u p
    using pcs(2) [of w] that by simp
  have ok: "cache_ok lib (sh_cache s)" "strategy.faithful origin (sh_cache s)"
    using assms(2) by (simp_all add: fits_def)
  have "fits lib origin U s' \<and> (sent s' \<noteq> sent s \<longrightarrow>
    (\<exists>u. handler_url (sh_pc s w) = Some u \<and> sent s' = (u, origin u) # sent s))"
    using assms(1)
  proof (cases rule: shared_step.cases)
    case (parsed u)
    then show ?thesis using same [of "Parsed u" "sent s"] assms(3) by simp
  next
    case (find_hit u now c p)
    note f = fits_find [OF assms(2) find_hit(4)]
    from fits_call [OF assms(2) f(1-4), where h = "Sending u p" and w = w and out = "sent s" and k = "count_call w (calls_since s)"] f(5) pcs(1) [of w]
    show ?thesis by (simp add: find_hit(1,3))
  next
    case (find_miss u now c)
    note f = fits_find [OF assms(2) find_miss(4)]
    from fits_call [OF assms(2) f(1-4), where h = "Relaying u" and w = w and out = "sent s" and k = "count_call w (calls_since s)"] pcs(1) [of w]
    show ?thesis by (simp add: find_miss(1,3))
  next
    case (find_undefined u now)
    with cache_find_elem [OF ok(1), of u now] show ?thesis by simp
  next
    case (send_element u p e)
    then show ?thesis using same [of Ready "(u, ce_data e) # sent s"] pcs(2) [of w] by simp
  next
    case (send_freed u p)
    then show ?thesis using no by blast
  next
    case (relay_add u a now c)
    have "u \<in> U" using pcs(1) [of w] relay_add(3) by simp
    note f = fits_add [OF assms(2) relay_add(4) this relay_add(5)]
    from fits_call [OF assms(2) f, where h = Ready and w = w and out = "(u, origin u) # sent s" and k = "count_call w (calls_since s)"]
    show ?thesis by (simp add: relay_add(1,3))
  next
    case (add_undefined u a now)
    with add_faithful [OF ok add_undefined(4), of now u] show ?thesis by simp
  next
    case (relay_fails u)
    then show ?thesis using same [of Ready "sent s"] by simp
  qed
  then show "fits lib origin U s'" "sent s' \<noteq> sent s \<Longrightarrow>
    \<exists>u. handler_url (sh_pc s w) = Some u \<and> sent s' = (u, origin u) # sent s" by simp_all
qed

text \<open>The cache is empty at first, and has places for all the URLs that clients ask for.\<close>

definition roomy :: "platform \<Rightarrow> (nat \<Rightarrow> string option) \<Rightarrow> cache \<Rightarrow> string set \<Rightarrow> bool" where
  "roomy lib url c U = (cache_ok lib c \<and> cache_lookup c = Map.empty \<and> finite U \<and>
     card U \<le> cache_capacity c \<and> (\<forall>t. set_option (url t) \<subseteq> U))"

text \<open>A busy handler can always move.\<close>

lemma handler_can_move:
  assumes "w < n" "sh_pc h w \<noteq> Ready"
  shows "\<exists>h'. shared_step lib origin n h w h'"
proof (cases "sh_pc h w")
  case Ready
  with assms(2) show ?thesis by simp
next
  case (Parsed u)
  show ?thesis
  proof (cases "cache_find lib (sh_cache h) u 0")
    case None
    from shared_step.find_undefined [OF assms(1) Parsed this] show ?thesis by blast
  next
    case (Some x)
    obtain c r where x: "x = (c, r)" by (cases x)
    show ?thesis
    proof (cases r)
      case None
      from shared_step.find_miss [OF assms(1) Parsed Some [unfolded x None]] show ?thesis by blast
    next
      case r: (Some p)
      from shared_step.find_hit [OF assms(1) Parsed Some [unfolded x r]] show ?thesis by blast
    qed
  qed
next
  case (Sending u p)
  show ?thesis
    using shared_step.send_freed [OF assms(1) Sending] shared_step.send_element [OF assms(1) Sending]
    by (cases "cache_elem (sh_cache h) p") blast+
next
  case (Relaying u)
  from shared_step.relay_fails [OF assms(1) this] show ?thesis by blast
qed

end
