(* ===== verification/Thread_Pool.thy ===== *)
theory Thread_Pool
  imports Prelude "HOL-Library.Multiset"
begin

text \<open>
  \<^verbatim>\<open>ThreadPool.cpp\<close> as a step relation: n workers, the thread that owns the pool,
  \<open>queueMutex\<close>, the two condition variables and the task queue. What happens between two
  points where another thread can interfere is one step. Waiting on a condition variable is
  three steps: the test under the mutex, blocking (which releases it), and waking up, after
  which the mutex is taken and the test repeated. The owner's program is the one of
  \<^verbatim>\<open>ThreadPoolServer.cpp\<close>: wait for the workers, enqueue one task per connection, and
  in the end the destructor. Tasks are named by numbers; \<open>enqueued\<close>, \<open>started\<close> and \<open>finished\<close>
  are ghost fields that record the history.
\<close>

subsection \<open>States and steps\<close>

datatype worker = Starting | AtLoop | Holding | ToBlock | Waiting | Running nat | Exited

datatype owner = WaitReady | BlockedReady | Serving | Notifying | Stopping | Joining | Joined

record pool =
  pc :: "nat \<Rightarrow> worker"
  owner_at :: owner
  tasks :: "nat list"
  queueMutex :: "nat option"
  readyThreads :: nat
  stop :: bool
  enqueued :: "nat list"
  started :: "nat list"
  finished :: "nat list"

datatype action = Spurious | Worker nat | Owner

definition pool_init :: pool where
  "pool_init = \<lparr>pc = (\<lambda>_. Starting), owner_at = WaitReady, tasks = [], queueMutex = None,
     readyThreads = 0, stop = False, enqueued = [], started = [], finished = []\<rparr>"

text \<open>The lambda that the constructor starts in every thread.\<close>

inductive worker_step :: "nat \<Rightarrow> pool \<Rightarrow> nat \<Rightarrow> pool \<Rightarrow> bool" for n where
  count_ready: "w < n \<Longrightarrow> pc s w = Starting \<Longrightarrow> queueMutex s = None \<Longrightarrow>
    worker_step n s w (s\<lparr>pc := (pc s)(w := AtLoop), readyThreads := readyThreads s + 1,
      owner_at := (if owner_at s = BlockedReady then WaitReady else owner_at s)\<rparr>)"
| acquire: "w < n \<Longrightarrow> pc s w = AtLoop \<Longrightarrow> queueMutex s = None \<Longrightarrow>
    worker_step n s w (s\<lparr>pc := (pc s)(w := Holding), queueMutex := Some w\<rparr>)"
| nothing_to_do: "w < n \<Longrightarrow> pc s w = Holding \<Longrightarrow> \<not> stop s \<Longrightarrow> tasks s = [] \<Longrightarrow>
    worker_step n s w (s\<lparr>pc := (pc s)(w := ToBlock)\<rparr>)"
| block: "w < n \<Longrightarrow> pc s w = ToBlock \<Longrightarrow>
    worker_step n s w (s\<lparr>pc := (pc s)(w := Waiting), queueMutex := None\<rparr>)"
| leave: "w < n \<Longrightarrow> pc s w = Holding \<Longrightarrow> stop s \<Longrightarrow> tasks s = [] \<Longrightarrow>
    worker_step n s w (s\<lparr>pc := (pc s)(w := Exited), queueMutex := None\<rparr>)"
| pop: "w < n \<Longrightarrow> pc s w = Holding \<Longrightarrow> tasks s = t # ts \<Longrightarrow>
    worker_step n s w (s\<lparr>pc := (pc s)(w := Running t), queueMutex := None, tasks := ts,
      started := started s @ [t]\<rparr>)"
| finish: "w < n \<Longrightarrow> pc s w = Running t \<Longrightarrow>
    worker_step n s w (s\<lparr>pc := (pc s)(w := AtLoop), finished := finished s @ [t]\<rparr>)"

text \<open>\<open>waitForThreads\<close>, \<open>enqueue\<close> and the destructor, which sets \<open>stop\<close> without the mutex.\<close>

inductive owner_step :: "nat \<Rightarrow> pool \<Rightarrow> pool \<Rightarrow> bool" for n where
  all_ready: "owner_at s = WaitReady \<Longrightarrow> queueMutex s = None \<Longrightarrow> readyThreads s = n \<Longrightarrow>
    owner_step n s (s\<lparr>owner_at := Serving\<rparr>)"
| not_ready: "owner_at s = WaitReady \<Longrightarrow> queueMutex s = None \<Longrightarrow> readyThreads s \<noteq> n \<Longrightarrow>
    owner_step n s (s\<lparr>owner_at := BlockedReady\<rparr>)"
| emplace: "owner_at s = Serving \<Longrightarrow> queueMutex s = None \<Longrightarrow>
    owner_step n s (s\<lparr>owner_at := Notifying, tasks := tasks s @ [t], enqueued := enqueued s @ [t]\<rparr>)"
| notify_one: "owner_at s = Notifying \<Longrightarrow> w < n \<Longrightarrow> pc s w = Waiting \<Longrightarrow>
    owner_step n s (s\<lparr>owner_at := Serving, pc := (pc s)(w := AtLoop)\<rparr>)"
| notify_none: "owner_at s = Notifying \<Longrightarrow> \<forall>w < n. pc s w \<noteq> Waiting \<Longrightarrow>
    owner_step n s (s\<lparr>owner_at := Serving\<rparr>)"
| set_stop: "owner_at s = Serving \<Longrightarrow> owner_step n s (s\<lparr>owner_at := Stopping, stop := True\<rparr>)"
| notify_all: "owner_at s = Stopping \<Longrightarrow>
    owner_step n s (s\<lparr>owner_at := Joining, pc := (\<lambda>w. if pc s w = Waiting then AtLoop else pc s w)\<rparr>)"
| joined: "owner_at s = Joining \<Longrightarrow> \<forall>w < n. pc s w = Exited \<Longrightarrow>
    owner_step n s (s\<lparr>owner_at := Joined\<rparr>)"

inductive pool_step :: "nat \<Rightarrow> pool \<Rightarrow> action \<Rightarrow> pool \<Rightarrow> bool" for n where
  worker: "worker_step n s w s' \<Longrightarrow> pool_step n s (Worker w) s'"
| owner: "owner_step n s s' \<Longrightarrow> pool_step n s Owner s'"
| wake_worker: "w < n \<Longrightarrow> pc s w = Waiting \<Longrightarrow>
    pool_step n s Spurious (s\<lparr>pc := (pc s)(w := AtLoop)\<rparr>)"
| wake_owner: "owner_at s = BlockedReady \<Longrightarrow> pool_step n s Spurious (s\<lparr>owner_at := WaitReady\<rparr>)"

inductive pool_reach :: "nat \<Rightarrow> pool \<Rightarrow> bool" for n where
  init: "pool_reach n pool_init"
| step: "pool_reach n s \<Longrightarrow> pool_step n s a s' \<Longrightarrow> pool_reach n s'"

inductive_cases worker_stepE: "worker_step n s w s'"
inductive_cases owner_stepE: "owner_step n s s'"
inductive_cases pool_stepE: "pool_step n s a s'"

subsection \<open>The invariant\<close>

fun critical :: "worker \<Rightarrow> bool" where
  "critical Holding = True"
| "critical ToBlock = True"
| "critical _ = False"

definition locked :: "nat \<Rightarrow> pool \<Rightarrow> bool" where
  "locked n s = ((\<forall>w < n. critical (pc s w) \<longleftrightarrow> queueMutex s = Some w) \<and>
     (\<forall>w. queueMutex s = Some w \<longrightarrow> w < n))"

fun held :: "worker \<Rightarrow> nat multiset" where
  "held (Running t) = {#t#}"
| "held _ = {#}"

definition running :: "nat \<Rightarrow> (nat \<Rightarrow> worker) \<Rightarrow> nat multiset" where
  "running n f = (\<Sum>w < n. held (f w))"

definition history :: "nat \<Rightarrow> pool \<Rightarrow> bool" where
  "history n s = (enqueued s = started s @ tasks s \<and> mset (started s) = mset (finished s) + running n (pc s))"

definition phases :: "nat \<Rightarrow> pool \<Rightarrow> bool" where
  "phases n s = ((stop s \<longleftrightarrow> owner_at s \<in> {Stopping, Joining, Joined}) \<and>
     (\<forall>w < n. pc s w = ToBlock \<longrightarrow> tasks s = []) \<and>
     (\<forall>w < n. pc s w = Exited \<longrightarrow> stop s \<and> tasks s = []) \<and>
     (owner_at s = Joined \<longrightarrow> (\<forall>w < n. pc s w = Exited)))"

fun begun :: "worker \<Rightarrow> nat" where
  "begun Starting = 0"
| "begun _ = 1"

definition nready :: "nat \<Rightarrow> (nat \<Rightarrow> worker) \<Rightarrow> nat" where
  "nready n f = (\<Sum>w < n. begun (f w))"

definition ready_count :: "nat \<Rightarrow> pool \<Rightarrow> bool" where
  "ready_count n s = (readyThreads s = nready n (pc s) \<and>
     (owner_at s \<notin> {WaitReady, BlockedReady} \<longrightarrow> readyThreads s = n))"

text \<open>
  As long as some worker waits, every queued task has a worker on its way to the queue; the one
  that was just put there may still lack its notification.
\<close>

fun heading :: "worker \<Rightarrow> nat" where
  "heading Starting = 1"
| "heading AtLoop = 1"
| "heading Holding = 1"
| "heading _ = 0"

definition nheading :: "nat \<Rightarrow> (nat \<Rightarrow> worker) \<Rightarrow> nat" where
  "nheading n f = (\<Sum>w < n. heading (f w))"

definition attended :: "nat \<Rightarrow> pool \<Rightarrow> bool" where
  "attended n s = ((\<exists>w < n. pc s w = Waiting) \<longrightarrow>
     length (tasks s) \<le> nheading n (pc s) + (if owner_at s = Notifying then 1 else 0))"


lemma running_upd: "w < n \<Longrightarrow> running n (f(w := x)) + held (f w) = running n f + held x"
  unfolding running_def by (rule sum_fun_upd)

lemma running_same:
  assumes "w < n" "held (f w) = {#}" "held x = {#}"
  shows "running n (f(w := x)) = running n f"
  using running_upd [OF assms(1), of f x] assms(2,3) by simp

lemma running_wake:
  "running n (\<lambda>w. if f w = Waiting then AtLoop else f w) = running n f"
  unfolding running_def by (intro sum.cong) auto

lemma locked_step:
  assumes "pool_step n s a s'" "locked n s"
  shows "locked n s'"
  using assms(1)
proof (cases rule: pool_step.cases)
  case (worker w)
  from this(2) show ?thesis
    by (cases rule: worker_step.cases) (use assms(2) in \<open>simp_all add: locked_def, fastforce+\<close>)
next
  case owner
  from this(2) show ?thesis
    by (cases rule: owner_step.cases) (use assms(2) in \<open>auto simp: locked_def\<close>)
qed (use assms(2) in \<open>auto simp: locked_def\<close>)

lemma history_step:
  assumes "pool_step n s a s'" "history n s"
  shows "history n s'"
  using assms(1)
proof (elim pool_stepE worker_stepE owner_stepE)
  fix w t ts assume s': "s' = s\<lparr>pc := (pc s)(w := Running t), queueMutex := None, tasks := ts,
      started := started s @ [t]\<rparr>" "w < n" "pc s w = Holding" "tasks s = t # ts"
  then show "history n s'"
    using assms(2) running_upd [of w n "pc s" "Running t"] by (simp add: history_def)
next
  fix w t assume s': "s' = s\<lparr>pc := (pc s)(w := AtLoop), finished := finished s @ [t]\<rparr>"
    "w < n" "pc s w = Running t"
  then show "history n s'"
    using assms(2) running_upd [of w n "pc s" AtLoop] by (simp add: history_def)
qed (use assms(2) in \<open>simp_all add: history_def running_same running_wake\<close>)

lemma phases_step:
  assumes "pool_step n s a s'" "phases n s" "locked n s"
  shows "phases n s'"
  using assms(1)
proof (cases rule: pool_step.cases)
  case (worker w)
  from this(2) show ?thesis
    by (cases rule: worker_step.cases) (use assms(2,3) in \<open>auto simp: phases_def locked_def\<close>)
next
  case owner
  from this(2) show ?thesis
    by (cases rule: owner_step.cases) (use assms(2,3) in \<open>auto simp: phases_def locked_def\<close>)
qed (use assms(2) in \<open>auto simp: phases_def\<close>)


lemma nready_upd: "w < n \<Longrightarrow> nready n (f(w := x)) + begun (f w) = nready n f + begun x"
  unfolding nready_def by (rule sum_fun_upd)

lemma nready_same: "w < n \<Longrightarrow> begun (f w) = 1 \<Longrightarrow> begun x = 1 \<Longrightarrow> nready n (f(w := x)) = nready n f"
  using nready_upd [of w n f x] by simp

lemma nready_wake: "nready n (\<lambda>w. if f w = Waiting then AtLoop else f w) = nready n f"
  unfolding nready_def by (intro sum.cong) auto

lemma begun_le: "begun x \<le> 1"
  by (cases x) auto

lemma nready_full: "nready n f = n \<Longrightarrow> w < n \<Longrightarrow> f w \<noteq> Starting"
proof
  assume n: "nready n f = n" "w < n" "f w = Starting"
  have "nready n f + 1 = nready n (f(w := AtLoop))" using nready_upd [OF n(2), of f AtLoop] n(3) by simp
  also have "\<dots> \<le> (\<Sum>w < n. 1)" unfolding nready_def by (intro sum_mono begun_le)
  finally show False using n(1) by simp
qed

lemma nready_le: "nready n f \<le> n"
  using sum_mono [of "{..<n}" "\<lambda>w. begun (f w)" "\<lambda>_. 1"] begun_le by (simp add: nready_def)

lemma ready_count_step:
  assumes "pool_step n s a s'" "ready_count n s"
  shows "ready_count n s'"
  using assms(1)
proof (cases rule: pool_step.cases)
  case (worker w)
  from this(2) show ?thesis
  proof (cases rule: worker_step.cases)
    case count_ready
    with nready_upd [of w n "pc s" AtLoop] nready_le [of n "(pc s)(w := AtLoop)"] assms(2)
    show ?thesis by (auto simp: ready_count_def)
  qed (use assms(2) in \<open>auto simp: ready_count_def nready_same\<close>)
next
  case owner
  from this(2) show ?thesis
    by (cases rule: owner_step.cases)
      (use assms(2) in \<open>auto simp: ready_count_def nready_same nready_wake\<close>)
qed (use assms(2) in \<open>auto simp: ready_count_def nready_same\<close>)

lemma nheading_upd: "w < n \<Longrightarrow> nheading n (f(w := x)) + heading (f w) = nheading n f + heading x"
  unfolding nheading_def by (rule sum_fun_upd)

lemma heading_exists: "0 < nheading n f \<Longrightarrow> \<exists>w < n. f w \<in> {Starting, AtLoop, Holding}"
proof (rule ccontr)
  assume "0 < nheading n f" and no: "\<not> (\<exists>w < n. f w \<in> {Starting, AtLoop, Holding})"
  have "heading (f w) = 0" if "w < n" for w using no that by (cases "f w") auto
  then have "nheading n f = 0" by (simp add: nheading_def)
  with \<open>0 < nheading n f\<close> show False by simp
qed

text \<open>A step that makes no worker wait, with as many tasks for those that are on their way.\<close>

lemma attended_upd:
  assumes "attended n s" "w < n" "x \<noteq> Waiting" "heading (pc s w) + length (tasks s') \<le> heading x + length (tasks s)"
    and "pc s' = (pc s)(w := x)" "owner_at s = Notifying \<longrightarrow> owner_at s' = Notifying"
  shows "attended n s'"
  unfolding attended_def
proof
  assume "\<exists>v < n. pc s' v = Waiting"
  then have "\<exists>v < n. pc s v = Waiting" using assms(3,5) by (auto split: if_splits)
  with assms(1) have "length (tasks s) \<le> nheading n (pc s) + (if owner_at s = Notifying then 1 else 0)"
    by (simp add: attended_def)
  with nheading_upd [OF assms(2), of "pc s" x] assms(4-6)
  show "length (tasks s') \<le> nheading n (pc s') + (if owner_at s' = Notifying then 1 else 0)"
    by (auto split: if_splits)
qed

lemma attended_step:
  assumes "pool_step n s a s'" "attended n s" "phases n s"
  shows "attended n s'"
  using assms(1)
proof (cases rule: pool_step.cases)
  case (worker w)
  from this(2) show ?thesis
  proof (cases rule: worker_step.cases)
    case block
    with assms(3) show ?thesis by (simp add: attended_def phases_def)
  next
    case nothing_to_do
    then show ?thesis by (simp add: attended_def)
  next
    case leave
    then show ?thesis by (simp add: attended_def)
  qed (use assms(2) attended_upd [OF assms(2), of w _ s'] in auto)
next
  case owner
  from this(2) show ?thesis
  proof (cases rule: owner_step.cases)
    case (emplace t)
    with assms(2) show ?thesis by (auto simp: attended_def)
  next
    case (notify_one w)
    have "nheading n (pc s') = nheading n (pc s) + 1"
      using nheading_upd [OF notify_one(3), of "pc s" AtLoop] notify_one by simp
    with notify_one assms(2) show ?thesis by (auto simp: attended_def)
  qed (use assms(2) in \<open>auto simp: attended_def\<close>)
next
  case (wake_worker w)
  then show ?thesis using attended_upd [OF assms(2), of w AtLoop s'] by auto
next
  case wake_owner
  with assms(2) show ?thesis by (auto simp: attended_def)
qed

definition pool_inv :: "nat \<Rightarrow> pool \<Rightarrow> bool" where
  "pool_inv n s = (locked n s \<and> history n s \<and> phases n s \<and> ready_count n s \<and>
     attended n s)"

lemma pool_init_inv: "pool_inv n pool_init"
  by (auto simp: pool_inv_def pool_init_def locked_def history_def phases_def ready_count_def
      attended_def running_def nready_def)

lemma pool_invD:
  assumes "pool_inv n s"
  shows "locked n s" "history n s" "phases n s" "ready_count n s" "attended n s"
  using assms by (simp_all add: pool_inv_def)

lemma reach_inv: "pool_reach n s \<Longrightarrow> pool_inv n s"
proof (induction rule: pool_reach.induct)
  case init
  show ?case by (rule pool_init_inv)
next
  case (step s a s')
  note i = pool_invD [OF step.IH]
  from locked_step [OF step.hyps(2) i(1)] history_step [OF step.hyps(2) i(2)]
    phases_step [OF step.hyps(2) i(3,1)] ready_count_step [OF step.hyps(2) i(4)]
    attended_step [OF step.hyps(2) i(5) i(3)] show ?case by (simp add: pool_inv_def)
qed

subsection \<open>Properties\<close>

text \<open>C15. First in, first out, and exactly once: in every reachable state of the pool, whatever
  the interleaving, the tasks enqueued are those that were started, in the order they were
  enqueued, followed by those still in the queue; and every started task is either finished
  or being run by exactly one worker.\<close>

theorem pool_fifo_exactly_once:
  assumes "pool_reach n s"
  shows "enqueued s = started s @ tasks s \<and> mset (started s) = mset (finished s) + running n (pc s)"
  using pool_invD(2) [OF reach_inv [OF assms]] by (simp add: history_def)

text \<open>\<open>waitForThreads\<close> is a barrier: once it has returned, every worker has started and the
  counter equals the number of threads.\<close>

theorem pool_ready_barrier:
  assumes "pool_reach n s" "owner_at s \<notin> {WaitReady, BlockedReady}"
  shows "readyThreads s = n \<and> (\<forall>w < n. pc s w \<noteq> Starting)"
proof -
  from pool_invD(4) [OF reach_inv [OF assms(1)]] assms(2)
  have "readyThreads s = n" "nready n (pc s) = n" by (auto simp: ready_count_def)
  with nready_full show ?thesis by blast
qed

text \<open>The steps that the worker holding the mutex, and one that is neither asleep nor gone, can take.\<close>

lemma holder_moves:
  assumes "w < n" "critical (pc s w)" "tasks s \<noteq> []"
  shows "\<exists>s'. worker_step n s w s'"
proof -
  obtain t ts where ts: "tasks s = t # ts" using assms(3) by (cases "tasks s") auto
  from assms(2) consider "pc s w = Holding" | "pc s w = ToBlock" by (cases "pc s w") auto
  then show ?thesis
    using worker_step.pop [OF assms(1) _ ts] worker_step.block [OF assms(1)] by cases blast+
qed

lemma awake_moves:
  assumes "w < n" "pc s w \<noteq> Waiting" "pc s w \<noteq> Exited" "\<not> critical (pc s w)" "queueMutex s = None"
  shows "\<exists>s'. worker_step n s w s'"
proof -
  from assms(2-4) consider "pc s w = Starting" | "pc s w = AtLoop" | t where "pc s w = Running t"
    by (cases "pc s w") auto
  then show ?thesis
    using worker_step.count_ready [OF assms(1) _ assms(5)] worker_step.acquire [OF assms(1) _ assms(5)]
      worker_step.finish [OF assms(1)] by cases blast+
qed

text \<open>While a task is queued and the owner is not about to notify, some worker that does not run a
  task can take a step, unless all run one.\<close>

lemma thread_comes:
  assumes "pool_reach n s" "tasks s \<noteq> []" "owner_at s \<noteq> Notifying"
    and "v < n" "\<And>t. pc s v \<noteq> Running t"
  shows "\<exists>w < n. (\<forall>t. pc s w \<noteq> Running t) \<and> (\<exists>s'. worker_step n s w s')"
proof (cases "queueMutex s")
  case (Some w)
  with pool_invD(1) [OF reach_inv [OF assms(1)]] have w: "w < n" "critical (pc s w)" by (auto simp: locked_def)
  then have "\<forall>t. pc s w \<noteq> Running t" by auto
  with holder_moves [OF w assms(2)] w(1) show ?thesis by blast
next
  case None
  note i = pool_invD [OF reach_inv [OF assms(1)]]
  have nc: "\<not> critical (pc s w)" if "w < n" for w using i(1) that None by (simp add: locked_def)
  have "\<exists>w < n. pc s w \<noteq> Waiting \<and> (\<forall>t. pc s w \<noteq> Running t)"
  proof (cases "pc s v = Waiting")
    case True
    with assms(3,4) i(5) have "length (tasks s) \<le> nheading n (pc s)" by (auto simp: attended_def)
    moreover have "0 < length (tasks s)" using assms(2) by simp
    ultimately have "0 < nheading n (pc s)" by linarith
    from heading_exists [OF this] show ?thesis by auto
  qed (use assms(4,5) in blast)
  then obtain w where w: "w < n" "pc s w \<noteq> Waiting" "\<forall>t. pc s w \<noteq> Running t" by blast
  have "pc s w \<noteq> Exited" using i(3) w(1) assms(2) by (auto simp: phases_def)
  from awake_moves [OF w(1,2) this nc [OF w(1)] None] w show ?thesis by blast
qed

lemma notifier_moves:
  "owner_at s = Notifying \<Longrightarrow> \<exists>s'. owner_step n s s' \<and> enqueued s' = enqueued s \<and> stop s' = stop s"
proof (cases "\<forall>w < n. pc s w \<noteq> Waiting")
  case True
  assume "owner_at s = Notifying"
  from notify_none [OF this True] show ?thesis by (intro exI conjI) (assumption, simp_all)
next
  case False
  assume o: "owner_at s = Notifying"
  from False obtain w where "w < n" "pc s w = Waiting" by blast
  from notify_one [OF o this] show ?thesis by (intro exI conjI) (assumption, simp_all)
qed

text \<open>No task is stranded: in every reachable state in which the queue is not empty and not all
  threads run tasks, some thread can take a step of its own program (not merely a spurious
  wake-up, and not the return from a task), so an enqueued task is never lost between the test
  of a worker and the notification of the owner.\<close>

theorem pool_no_task_stranded:
  assumes "pool_reach n s" "tasks s \<noteq> []" "v < n" "\<And>t. pc s v \<noteq> Running t"
  shows "\<exists>a s'. pool_step n s a s' \<and> a \<noteq> Spurious \<and> (\<forall>w t. a = Worker w \<longrightarrow> pc s w \<noteq> Running t)"
proof (cases "owner_at s = Notifying")
  case True
  from notifier_moves [OF this, of n] show ?thesis using pool_step.owner by blast
next
  case False
  from thread_comes [OF assms(1,2) this assms(3,4)] show ?thesis using pool_step.worker by blast
qed

text \<open>C33. The destructor drains the pool: when it returns (every worker joined), the queue is
  empty, every worker has left its loop, and every task ever enqueued has been run to its
  end, exactly once.\<close>

theorem pool_destructor_drains:
  assumes "pool_reach n s" "0 < n" "owner_at s = Joined"
  shows "tasks s = [] \<and> mset (finished s) = mset (enqueued s) \<and> (\<forall>w < n. pc s w = Exited)"
proof -
  note i = pool_invD [OF reach_inv [OF assms(1)]]
  from i(3) assms(2,3) have e: "\<forall>w < n. pc s w = Exited" "tasks s = []" by (auto simp: phases_def)
  then have "running n (pc s) = {#}" by (auto simp: running_def)
  with i(2) e show ?thesis by (auto simp: history_def)
qed

text \<open>Runs for the examples: a pool with one thread, up to the point where the worker has found
  nothing to do.\<close>

definition idle_worker :: "worker \<Rightarrow> owner \<Rightarrow> pool" where
  "idle_worker x a = \<lparr>pc = (\<lambda>_. Starting)(0 := x), owner_at = a, tasks = [],
     queueMutex = (if critical x then Some 0 else None), readyThreads = 1, stop = False,
     enqueued = [], started = [], finished = []\<rparr>"

lemma reach_worker: "pool_reach n s \<Longrightarrow> worker_step n s w s' \<Longrightarrow> pool_reach n s'"
  by (rule pool_reach.step [OF _ pool_step.worker])

lemma reach_owner: "pool_reach n s \<Longrightarrow> owner_step n s s' \<Longrightarrow> pool_reach n s'"
  by (rule pool_reach.step [OF _ pool_step.owner])

lemma reach_serving: "pool_reach 1 (idle_worker AtLoop Serving)"
proof -
  have "worker_step 1 pool_init 0 (pool_init\<lparr>pc := (pc pool_init)(0 := AtLoop),
      readyThreads := readyThreads pool_init + 1,
      owner_at := (if owner_at pool_init = BlockedReady then WaitReady else owner_at pool_init)\<rparr>)"
    by (rule worker_step.count_ready) (simp_all add: pool_init_def)
  from reach_worker [OF pool_reach.init this]
  have "pool_reach 1 (idle_worker AtLoop WaitReady)" by (simp add: pool_init_def idle_worker_def)
  moreover have "owner_step 1 (idle_worker AtLoop WaitReady)
      ((idle_worker AtLoop WaitReady)\<lparr>owner_at := Serving\<rparr>)"
    by (rule owner_step.all_ready) (simp_all add: idle_worker_def)
  ultimately have "pool_reach 1 ((idle_worker AtLoop WaitReady)\<lparr>owner_at := Serving\<rparr>)"
    by (rule reach_owner)
  then show ?thesis by (simp add: idle_worker_def)
qed

lemma reach_holding: "pool_reach 1 (idle_worker Holding Serving)"
proof -
  have "worker_step 1 (idle_worker AtLoop Serving) 0
      ((idle_worker AtLoop Serving)\<lparr>pc := (pc (idle_worker AtLoop Serving))(0 := Holding), queueMutex := Some 0\<rparr>)"
    by (rule worker_step.acquire) (simp_all add: idle_worker_def pool_init_def)
  from reach_worker [OF reach_serving this] show ?thesis by (simp add: idle_worker_def)
qed

lemma reach_to_block: "pool_reach 1 (idle_worker ToBlock Serving)"
proof -
  have "worker_step 1 (idle_worker Holding Serving) 0
      ((idle_worker Holding Serving)\<lparr>pc := (pc (idle_worker Holding Serving))(0 := ToBlock)\<rparr>)"
    by (rule worker_step.nothing_to_do) (simp_all add: idle_worker_def pool_init_def)
  from reach_worker [OF reach_holding this] show ?thesis by (simp add: idle_worker_def)
qed

text \<open>C40. Lost wake-up in the destructor: it sets \<open>stop\<close> without holding \<open>queueMutex\<close>, so it can
  do so between a worker's test of the condition and the moment the worker blocks. The
  notification then finds nobody waiting, the worker blocks, and the pool is stuck: the owner
  waits in \<open>join\<close>, the worker on the condition variable, and the only steps left are spurious
  wake-ups. The destructor's return is not guaranteed.\<close>

theorem pool_destructor_lost_wakeup:
  "\<exists>s. pool_reach 1 s \<and> stop s \<and> owner_at s = Joining \<and> pc s 0 = Waiting \<and> tasks s = [] \<and>
    {a. \<exists>s'. pool_step 1 s a s'} = {Spurious}"
proof -
  let ?s1 = "(idle_worker ToBlock Serving)\<lparr>owner_at := Stopping, stop := True\<rparr>"
  let ?s2 = "?s1\<lparr>owner_at := Joining, pc := (\<lambda>w. if pc ?s1 w = Waiting then AtLoop else pc ?s1 w)\<rparr>"
  let ?s3 = "?s2\<lparr>pc := (pc ?s2)(0 := Waiting), queueMutex := None\<rparr>"
  have "owner_step 1 (idle_worker ToBlock Serving) ?s1"
    by (rule owner_step.set_stop) (simp add: idle_worker_def)
  note r1 = reach_owner [OF reach_to_block this]
  have "owner_step 1 ?s1 ?s2" by (rule owner_step.notify_all) simp
  note r2 = reach_owner [OF r1 this]
  have "worker_step 1 ?s2 0 ?s3"
    by (rule worker_step.block) (simp_all add: idle_worker_def)
  note r3 = reach_worker [OF r2 this]
  have "\<not> worker_step 1 ?s3 w s'" for w s'
    by (auto elim!: worker_step.cases simp: idle_worker_def)
  moreover have "\<not> owner_step 1 ?s3 s'" for s'
    by (auto elim!: owner_step.cases simp: idle_worker_def)
  moreover have "pool_step 1 ?s3 Spurious (?s3\<lparr>pc := (pc ?s3)(0 := AtLoop)\<rparr>)"
    by (rule pool_step.wake_worker) simp_all
  ultimately have "{a. \<exists>s'. pool_step 1 ?s3 a s'} = {Spurious}"
    by (auto elim: pool_step.cases)
  moreover have "stop ?s3" "owner_at ?s3 = Joining" "pc ?s3 0 = Waiting" "tasks ?s3 = []"
    by (simp_all add: idle_worker_def pool_init_def)
  ultimately show ?thesis using r3 by blast
qed


text \<open>A run with one task that ends with the join.\<close>

definition after_run :: "worker \<Rightarrow> owner \<Rightarrow> nat list \<Rightarrow> nat list \<Rightarrow> nat list \<Rightarrow> pool" where
  "after_run x a q st fi = \<lparr>pc = (\<lambda>_. Starting)(0 := x), owner_at = a, tasks = q,
     queueMutex = (if critical x then Some 0 else None), readyThreads = 1,
     stop = (a \<in> {Stopping, Joining, Joined}), enqueued = st @ q, started = st, finished = fi\<rparr>"

lemma reach_queued: "pool_reach 1 (after_run AtLoop Notifying [7] [] [])"
proof -
  let ?s = "idle_worker AtLoop Serving"
  have "owner_step 1 ?s (?s\<lparr>owner_at := Notifying, tasks := tasks ?s @ [7], enqueued := enqueued ?s @ [7]\<rparr>)"
    by (rule owner_step.emplace) (simp_all add: idle_worker_def)
  from reach_owner [OF reach_serving this] show ?thesis
    by (simp add: idle_worker_def after_run_def)
qed

lemma reach_running: "pool_reach 1 (after_run (Running 7) Serving [] [7] [])"
proof -
  let ?s = "after_run AtLoop Notifying [7] [] []"
  let ?s1 = "?s\<lparr>owner_at := Serving\<rparr>"
  have "owner_step 1 ?s ?s1"
    by (rule owner_step.notify_none) (simp_all add: after_run_def)
  note r1 = reach_owner [OF reach_queued this]
  let ?s2 = "?s1\<lparr>pc := (pc ?s1)(0 := Holding), queueMutex := Some 0\<rparr>"
  have "worker_step 1 ?s1 0 ?s2" by (rule worker_step.acquire) (simp_all add: after_run_def)
  note r2 = reach_worker [OF r1 this]
  have "worker_step 1 ?s2 0 (?s2\<lparr>pc := (pc ?s2)(0 := Running 7), queueMutex := None, tasks := [],
      started := started ?s2 @ [7]\<rparr>)"
    by (rule worker_step.pop) (simp_all add: after_run_def)
  from reach_worker [OF r2 this] show ?thesis by (simp add: after_run_def)
qed

lemma reach_joined: "pool_reach 1 (after_run Exited Joined [] [7] [7])"
proof -
  let ?s = "after_run (Running 7) Serving [] [7] []"
  let ?s1 = "?s\<lparr>pc := (pc ?s)(0 := AtLoop), finished := finished ?s @ [7]\<rparr>"
  have "worker_step 1 ?s 0 ?s1" by (rule worker_step.finish) (simp_all add: after_run_def)
  note r1 = reach_worker [OF reach_running this]
  let ?s2 = "?s1\<lparr>owner_at := Stopping, stop := True\<rparr>"
  have "owner_step 1 ?s1 ?s2" by (rule owner_step.set_stop) (simp add: after_run_def)
  note r2 = reach_owner [OF r1 this]
  let ?s3 = "?s2\<lparr>owner_at := Joining, pc := (\<lambda>w. if pc ?s2 w = Waiting then AtLoop else pc ?s2 w)\<rparr>"
  have "owner_step 1 ?s2 ?s3" by (rule owner_step.notify_all) simp
  note r3 = reach_owner [OF r2 this]
  let ?s4 = "?s3\<lparr>pc := (pc ?s3)(0 := Holding), queueMutex := Some 0\<rparr>"
  have "worker_step 1 ?s3 0 ?s4" by (rule worker_step.acquire) (simp_all add: after_run_def)
  note r4 = reach_worker [OF r3 this]
  let ?s5 = "?s4\<lparr>pc := (pc ?s4)(0 := Exited), queueMutex := None\<rparr>"
  have "worker_step 1 ?s4 0 ?s5" by (rule worker_step.leave) (simp_all add: after_run_def)
  note r5 = reach_worker [OF r4 this]
  have "owner_step 1 ?s5 (?s5\<lparr>owner_at := Joined\<rparr>)" by (rule owner_step.joined) simp_all
  from reach_owner [OF r5 this] show ?thesis
    by (simp add: after_run_def fun_upd_def if_distrib cong: if_cong)
qed

text \<open>Runs of a pool with n threads: the first ones run the tasks r, the tasks q are queued.\<close>

definition busy :: "nat \<Rightarrow> nat list \<Rightarrow> nat list \<Rightarrow> pool" where
  "busy n r q = \<lparr>pc = (\<lambda>w. if w < length r then Running (r ! w) else if w < n then AtLoop else Starting),
     owner_at = Serving, tasks = q, queueMutex = None, readyThreads = n, stop = False,
     enqueued = r @ q, started = r, finished = []\<rparr>"

lemma reach_counted:
  "k \<le> n \<Longrightarrow> pool_reach n (pool_init\<lparr>pc := (\<lambda>w. if w < k then AtLoop else Starting), readyThreads := k\<rparr>)"
proof (induction k)
  case 0
  have "pool_init\<lparr>pc := (\<lambda>w. if w < 0 then AtLoop else Starting), readyThreads := 0\<rparr> = pool_init"
    by (simp add: pool_init_def)
  then show ?case by (simp only: pool_reach.init)
next
  case (Suc k)
  let ?s = "pool_init\<lparr>pc := (\<lambda>w. if w < k then AtLoop else Starting), readyThreads := k\<rparr>"
  have "worker_step n ?s k (?s\<lparr>pc := (pc ?s)(k := AtLoop), readyThreads := readyThreads ?s + 1,
      owner_at := (if owner_at ?s = BlockedReady then WaitReady else owner_at ?s)\<rparr>)"
    by (rule worker_step.count_ready) (use Suc in \<open>simp_all add: pool_init_def\<close>)
  moreover have "(pc ?s)(k := AtLoop) = (\<lambda>w. if w < Suc k then AtLoop else Starting)"
    by (auto simp: less_Suc_eq)
  ultimately show ?case using reach_worker [OF Suc.IH] Suc.prems by (simp add: pool_init_def)
qed

lemma reach_idle: "pool_reach n (busy n [] [])"
proof -
  let ?s = "pool_init\<lparr>pc := (\<lambda>w. if w < n then AtLoop else Starting), readyThreads := n\<rparr>"
  have "owner_step n ?s (?s\<lparr>owner_at := Serving\<rparr>)" by (rule owner_step.all_ready) (simp_all add: pool_init_def)
  from reach_owner [OF reach_counted [OF le_refl] this] show ?thesis by (simp add: busy_def pool_init_def)
qed

lemma reach_filled: "pool_reach n (busy n [] q)"
proof (induction q rule: rev_induct)
  case Nil
  show ?case by (rule reach_idle)
next
  case (snoc t q)
  let ?s = "busy n [] q"
  let ?s1 = "?s\<lparr>owner_at := Notifying, tasks := tasks ?s @ [t], enqueued := enqueued ?s @ [t]\<rparr>"
  have "owner_step n ?s ?s1" by (rule owner_step.emplace) (simp_all add: busy_def)
  note r = reach_owner [OF snoc this]
  have "owner_step n ?s1 (?s1\<lparr>owner_at := Serving\<rparr>)" by (rule owner_step.notify_none) (simp_all add: busy_def)
  from reach_owner [OF r this] show ?case by (simp add: busy_def)
qed

lemma reach_busy: "length r \<le> n \<Longrightarrow> pool_reach n (busy n r q)"
proof (induction r arbitrary: q rule: rev_induct)
  case Nil
  show ?case by (rule reach_filled)
next
  case (snoc t r)
  let ?s = "busy n r (t # q)" and ?w = "length r"
  let ?s1 = "?s\<lparr>pc := (pc ?s)(?w := Holding), queueMutex := Some ?w\<rparr>"
  have w: "?w < n" using snoc.prems by simp
  have "worker_step n ?s ?w ?s1" by (rule worker_step.acquire) (use w in \<open>simp_all add: busy_def\<close>)
  note r = reach_worker [OF snoc.IH [OF less_imp_le [OF w]] this]
  have "worker_step n ?s1 ?w (?s1\<lparr>pc := (pc ?s1)(?w := Running t), queueMutex := None, tasks := q,
      started := started ?s1 @ [t]\<rparr>)"
    by (rule worker_step.pop) (use w in \<open>simp_all add: busy_def\<close>)
  moreover have "(pc ?s)(?w := Running t) = pc (busy n (r @ [t]) q)"
    by (auto simp: busy_def nth_append fun_eq_iff)
  ultimately show ?case using reach_worker [OF r] by (simp add: busy_def)
qed

theorem pool_destructor_drains_witness:
  "\<exists>s. pool_reach 1 s \<and> owner_at s = Joined \<and> enqueued s = [7] \<and> mset (finished s) = {#7#}"
  using pool_destructor_drains [OF reach_joined] reach_joined
  by (intro exI [of _ "after_run Exited Joined [] [7] [7]"]) (simp add: after_run_def)

theorem pool_fifo_exactly_once_witness:
  "\<exists>s. pool_reach 1 s \<and> started s = [7] \<and> mset [7] = mset (finished s) + running 1 (pc s)"
  using pool_fifo_exactly_once [OF reach_running] reach_running
  by (intro exI [of _ "after_run (Running 7) Serving [] [7] []"]) (simp add: after_run_def)

theorem pool_ready_barrier_witness:
  "\<exists>s. pool_reach 1 s \<and> owner_at s = Serving \<and> readyThreads s = 1 \<and> pc s 0 \<noteq> Starting"
  using pool_ready_barrier [OF reach_serving] reach_serving
  by (intro exI [of _ "idle_worker AtLoop Serving"]) (simp add: idle_worker_def)

theorem pool_no_task_stranded_witness:
  "\<exists>s a s'. pool_reach 1 s \<and> tasks s = [7] \<and> pool_step 1 s a s' \<and> a \<noteq> Spurious"
proof -
  have "\<exists>a s'. pool_step 1 (after_run AtLoop Notifying [7] [] []) a s' \<and> a \<noteq> Spurious \<and>
      (\<forall>w t. a = Worker w \<longrightarrow> pc (after_run AtLoop Notifying [7] [] []) w \<noteq> Running t)"
    by (rule pool_no_task_stranded [OF reach_queued, of 0]) (simp_all add: after_run_def)
  moreover have "tasks (after_run AtLoop Notifying [7] [] []) = [7]" by (simp add: after_run_def)
  ultimately show ?thesis using reach_queued by blast
qed

end
