(* ===== verification/Pooled_Server.thy ===== *)
theory Pooled_Server
  imports Working_Set Thread_Pool
begin

text \<open>
  \<open>ThreadPoolServer\<close> at work: the threads of the pool (\<open>Thread_Pool\<close>) run the handlers of the
  connections (\<open>Shared_Cache\<close>) as their tasks. A task is the number of a connection; \<open>url\<close> gives
  host and path of its request, or \<open>None\<close> when the request does not parse, and then the handler
  calls \<open>exit\<close>. The state is the product of the two, a thread that runs a task takes steps of its
  handler, and it can only return from the task when its handler has come to its end.

  The steps say what a thread does next, not that it does it in time: \<open>recv\<close> and \<open>send\<close> block
  until the peer acts, which it may never do. \<open>in_io\<close> names the threads that are in such a call.
\<close>

subsection \<open>States and steps\<close>

text \<open>
  \<open>px_ended\<close>: the handler of this thread has come to its end. \<open>outcome\<close> records for every
  connection that was handled the bytes its client got, or \<open>None\<close> when the exchange with the
  origin server failed.
\<close>

record proxy =
  px_pool :: pool
  px_handlers :: shared
  px_ended :: "nat \<Rightarrow> bool"
  outcome :: "(nat \<times> block option) list"
  px_exited :: bool

definition proxy_init :: "cache \<Rightarrow> proxy" where
  "proxy_init c = \<lparr>px_pool = pool_init, px_handlers = shared_init c, px_ended = (\<lambda>_. False),
     outcome = [], px_exited = False\<rparr>"

definition newly_sent :: "shared \<Rightarrow> shared \<Rightarrow> block option" where
  "newly_sent h h' = (if sent h' = sent h then None else Some (snd (hd (sent h'))))"

inductive server_step ::
  "platform \<Rightarrow> (string \<Rightarrow> block) \<Rightarrow> nat \<Rightarrow> (nat \<Rightarrow> string option) \<Rightarrow> proxy \<Rightarrow> action \<Rightarrow> proxy \<Rightarrow> bool"
  for lib origin n url where
  pool_moves: "\<not> px_exited s \<Longrightarrow> pool_step n (px_pool s) a p \<Longrightarrow>
    (\<And>w t. a = Worker w \<Longrightarrow> pc (px_pool s) w \<noteq> Running t) \<Longrightarrow>
    server_step lib origin n url s a (s\<lparr>px_pool := p\<rparr>)"
| handler_returns: "\<not> px_exited s \<Longrightarrow> pc (px_pool s) w = Running t \<Longrightarrow> px_ended s w \<Longrightarrow>
    worker_step n (px_pool s) w p \<Longrightarrow>
    server_step lib origin n url s (Worker w) (s\<lparr>px_pool := p, px_ended := (px_ended s)(w := False)\<rparr>)"
| bad_request: "\<not> px_exited s \<Longrightarrow> w < n \<Longrightarrow> pc (px_pool s) w = Running t \<Longrightarrow> \<not> px_ended s w \<Longrightarrow>
    sh_pc (px_handlers s) w = Ready \<Longrightarrow> url t = None \<Longrightarrow>
    server_step lib origin n url s (Worker w) (s\<lparr>px_exited := True\<rparr>)"
| reads_request: "\<not> px_exited s \<Longrightarrow> pc (px_pool s) w = Running t \<Longrightarrow> \<not> px_ended s w \<Longrightarrow>
    sh_pc (px_handlers s) w = Ready \<Longrightarrow> url t = Some u \<Longrightarrow>
    shared_step lib origin n (px_handlers s) w h \<Longrightarrow> sh_pc h w = Parsed u \<Longrightarrow>
    server_step lib origin n url s (Worker w) (s\<lparr>px_handlers := h\<rparr>)"
| handler_moves: "\<not> px_exited s \<Longrightarrow> pc (px_pool s) w = Running t \<Longrightarrow> sh_pc (px_handlers s) w \<noteq> Ready \<Longrightarrow>
    shared_step lib origin n (px_handlers s) w h \<Longrightarrow> sh_pc h w \<noteq> Ready \<Longrightarrow>
    server_step lib origin n url s (Worker w) (s\<lparr>px_handlers := h\<rparr>)"
| handler_ends: "\<not> px_exited s \<Longrightarrow> pc (px_pool s) w = Running t \<Longrightarrow> sh_pc (px_handlers s) w \<noteq> Ready \<Longrightarrow>
    shared_step lib origin n (px_handlers s) w h \<Longrightarrow> sh_pc h w = Ready \<Longrightarrow>
    server_step lib origin n url s (Worker w) (s\<lparr>px_handlers := h, px_ended := (px_ended s)(w := True),
      outcome := (t, newly_sent (px_handlers s) h) # outcome s\<rparr>)"

inductive server_reach ::
  "platform \<Rightarrow> (string \<Rightarrow> block) \<Rightarrow> nat \<Rightarrow> (nat \<Rightarrow> string option) \<Rightarrow> cache \<Rightarrow> proxy \<Rightarrow> bool"
  for lib origin n url c0 where
  server_start: "server_reach lib origin n url c0 (proxy_init c0)"
| server_next: "server_reach lib origin n url c0 s \<Longrightarrow> server_step lib origin n url s a s' \<Longrightarrow>
    server_reach lib origin n url c0 s'"

inductive_cases server_stepE: "server_step lib origin n url s a s'"

text \<open>
  The threads that wait for a peer: for a client that has yet to send its request or to read its
  response, or for an origin server. The steps of these threads are \<open>bad_request\<close>, \<open>reads_request\<close>
  and those that send or relay, and they happen only when the peer acts.
\<close>

definition in_io :: "nat \<Rightarrow> proxy \<Rightarrow> nat set" where
  "in_io n s = {w. w < n \<and> (\<exists>t. pc (px_pool s) w = Running t) \<and> \<not> px_ended s w \<and>
     waits_for_peer (sh_pc (px_handlers s) w)}"

subsection \<open>The components of a run are runs of the components\<close>

lemma server_pool_step:
  assumes "server_step lib origin n url s a s'"
  shows "px_pool s' = px_pool s \<or> pool_step n (px_pool s) a (px_pool s')"
  using assms by (cases rule: server_step.cases) (auto intro: pool_step.worker)

lemma server_pool: "server_reach lib origin n url c0 s \<Longrightarrow> pool_reach n (px_pool s)"
proof (induction rule: server_reach.induct)
  case server_start
  then show ?case by (simp add: proxy_init_def pool_reach.init)
next
  case (server_next s a s')
  from server_pool_step [OF server_next.hyps(2)] server_next.IH show ?case
    by (metis pool_reach.step)
qed

lemma server_handlers_step:
  assumes "server_step lib origin n url s a s'"
  shows "px_handlers s' = px_handlers s \<or> (\<exists>w. shared_step lib origin n (px_handlers s) w (px_handlers s'))"
  using assms by (cases rule: server_step.cases) auto

lemma server_handlers: "server_reach lib origin n url c0 s \<Longrightarrow> shared_reach lib origin n c0 (px_handlers s)"
proof (induction rule: server_reach.induct)
  case server_start
  then show ?case by (simp add: proxy_init_def shared_reach.start)
next
  case (server_next s a s')
  from server_handlers_step [OF server_next.hyps(2)] server_next.IH show ?case
    by (metis shared_reach.step)
qed

text \<open>A step of the pool keeps the tasks that other threads run.\<close>

lemma pool_step_running:
  assumes "pool_step n p a p'" "a \<noteq> Worker v"
  shows "pc p v = Running t \<longleftrightarrow> pc p' v = Running t"
  using assms(1)
proof (cases rule: pool_step.cases)
  case (worker w)
  from this(2) show ?thesis using assms(2) worker(1) by (cases rule: worker_step.cases) auto
next
  case owner
  from this(2) show ?thesis by (cases rule: owner_step.cases) auto
qed auto

subsection \<open>The handlers belong to the tasks\<close>

text \<open>A handler that is busy serves the task of its thread; one that has ended belongs to one.\<close>

definition coupled :: "(nat \<Rightarrow> string option) \<Rightarrow> worker \<Rightarrow> handler \<Rightarrow> bool \<Rightarrow> bool" where
  "coupled url x h ended = ((h \<noteq> Ready \<longrightarrow> \<not> ended \<and> (\<exists>t. x = Running t \<and> url t = handler_url h)) \<and>
     (ended \<longrightarrow> (\<exists>t. x = Running t)))"

definition in_step :: "(nat \<Rightarrow> string option) \<Rightarrow> proxy \<Rightarrow> bool" where
  "in_step url s = (\<forall>w. coupled url (pc (px_pool s) w) (sh_pc (px_handlers s) w) (px_ended s w))"

lemma coupledD:
  assumes "coupled url x h ended"
  shows "h \<noteq> Ready \<Longrightarrow> \<not> ended" "h \<noteq> Ready \<Longrightarrow> \<exists>t. x = Running t \<and> url t = handler_url h"
    "ended \<Longrightarrow> h = Ready" "ended \<Longrightarrow> \<exists>t. x = Running t"
  using assms by (auto simp: coupled_def)

lemma in_step_step:
  assumes "server_step lib origin n url s a s'" "in_step url s"
  shows "in_step url s'"
proof -
  have c: "coupled url (pc (px_pool s) v) (sh_pc (px_handlers s) v) (px_ended s v)" for v
    using assms(2) by (simp add: in_step_def)
  have "coupled url (pc (px_pool s') v) (sh_pc (px_handlers s') v) (px_ended s' v)" for v
    using assms(1)
  proof (cases rule: server_step.cases)
    case (pool_moves p)
    have "pc p v = Running t" if "pc (px_pool s) v = Running t" for t
      using pool_step_running [OF pool_moves(3), of v t] pool_moves(4) [of v t] that by blast
    then show ?thesis using c [of v] by (auto simp: coupled_def pool_moves(1))
  next
    case (handler_returns w t p)
    have "pc p v = Running t'" if "pc (px_pool s) v = Running t'" "v \<noteq> w" for t'
      using pool_step_running [OF pool_step.worker [OF handler_returns(6)], of v t'] that by simp
    then show ?thesis using c [of v] coupledD(3) [OF c] handler_returns(5)
      by (cases "v = w") (auto simp: coupled_def handler_returns(2))
  next
    case (bad_request w t)
    then show ?thesis using c [of v] by simp
  next
    case (reads_request w t u h)
    then show ?thesis using c [of v] shared_step_local(2) [OF reads_request(8), of v]
      by (cases "v = w") (auto simp: coupled_def)
  next
    case (handler_moves w t h)
    then show ?thesis
      using c [of v] shared_step_local(2) [OF handler_moves(6), of v] handler_url_kept [OF handler_moves(6,5,7)]
      by (cases "v = w") (auto simp: coupled_def)
  next
    case (handler_ends w t h)
    then show ?thesis using c [of v] shared_step_local(2) [OF handler_ends(6), of v]
      by (cases "v = w") (auto simp: coupled_def)
  qed
  then show ?thesis by (simp add: in_step_def)
qed

subsection \<open>Every connection once\<close>

definition at_end :: "nat \<Rightarrow> proxy \<Rightarrow> nat multiset" where
  "at_end n s = (\<Sum>w < n. if px_ended s w then held (pc (px_pool s) w) else {#})"

definition counted :: "nat \<Rightarrow> proxy \<Rightarrow> bool" where
  "counted n s = (mset (map fst (outcome s)) = mset (finished (px_pool s)) + at_end n s)"

lemma at_end_changes:
  assumes "w < n" "\<forall>v. v \<noteq> w \<longrightarrow> px_ended s' v = px_ended s v \<and>
      (px_ended s v \<longrightarrow> pc (px_pool s') v = pc (px_pool s) v)"
  shows "at_end n s' + (if px_ended s w then held (pc (px_pool s) w) else {#}) =
    at_end n s + (if px_ended s' w then held (pc (px_pool s') w) else {#})"
  unfolding at_end_def by (rule sum_change) (use assms in auto)

lemma finished_kept:
  assumes "pool_step n p a p'" "\<And>w t. a = Worker w \<Longrightarrow> pc p w \<noteq> Running t"
  shows "finished p' = finished p"
  using assms(1)
proof (cases rule: pool_step.cases)
  case (worker w)
  from this(2) show ?thesis using assms(2) [OF worker(1)] by (cases rule: worker_step.cases) auto
next
  case owner
  from this(2) show ?thesis by (cases rule: owner_step.cases) auto
qed auto

lemma finish_effect:
  assumes "worker_step n p w p'" "pc p w = Running t"
  shows "w < n" "finished p' = finished p @ [t]" "\<forall>v. v \<noteq> w \<longrightarrow> pc p' v = pc p v" "pc p' w = AtLoop"
  using assms by (cases rule: worker_step.cases; simp)+

lemma counted_step:
  assumes "server_step lib origin n url s a s'" "in_step url s" "counted n s"
  shows "counted n s'"
proof -
  have c: "coupled url (pc (px_pool s) v) (sh_pc (px_handlers s) v) (px_ended s v)" for v
    using assms(2) by (simp add: in_step_def)
  show ?thesis using assms(1)
  proof (cases rule: server_step.cases)
    case (pool_moves p)
    have "held (pc p v) = held (pc (px_pool s) v)" if "px_ended s v" for v
    proof -
      from coupledD(4) [OF c that] obtain t where t: "pc (px_pool s) v = Running t" by blast
      with pool_moves(4) have "a \<noteq> Worker v" by blast
      with t show ?thesis using pool_step_running [OF pool_moves(3), of v t] by simp
    qed
    then have "at_end n s' = at_end n s" unfolding at_end_def pool_moves(1)
      by (intro sum.cong) auto
    then show ?thesis using assms(3) finished_kept [OF pool_moves(3,4)] by (simp add: counted_def pool_moves(1))
  next
    case (handler_returns w t p)
    note f = finish_effect [OF handler_returns(6,4)]
    from at_end_changes [OF f(1), of s' s] f(3,4) handler_returns(2,4,5)
    have "at_end n s' + {#t#} = at_end n s" by simp
    then show ?thesis using assms(3) f(2) by (simp add: counted_def handler_returns(2))
  next
    case (handler_ends w t h)
    from at_end_changes [OF shared_step_local(1) [OF handler_ends(6)], of s' s] handler_ends(2,4)
      coupledD(1) [OF c handler_ends(5)]
    have "at_end n s' = at_end n s + {#t#}" by simp
    then show ?thesis using assms(3) by (simp add: counted_def handler_ends(2))
  qed (use assms(3) in \<open>simp_all add: counted_def at_end_def cong: if_cong\<close>)
qed

lemma server_inv:
  assumes "server_reach lib origin n url c0 s"
  shows "in_step url s \<and> counted n s"
  using assms
proof (induction rule: server_reach.induct)
  case server_start
  then show ?case
    by (simp add: proxy_init_def in_step_def coupled_def shared_init_def counted_def at_end_def pool_init_def)
next
  case (server_next s a s')
  with in_step_step counted_step show ?case by blast
qed

lemma at_end_running: "at_end n s \<subseteq># running n (pc (px_pool s))"
  unfolding at_end_def running_def
proof (induction n)
  case (Suc n)
  then show ?case by (auto intro: subset_mset.add_mono subset_mset.order_trans [OF _ mset_subset_eq_add_left])
qed simp
subsection \<open>Every client its response\<close>

definition right_outcomes :: "(string \<Rightarrow> block) \<Rightarrow> (nat \<Rightarrow> string option) \<Rightarrow> proxy \<Rightarrow> bool" where
  "right_outcomes origin url s =
    (\<forall>(t, r) \<in> set (outcome s). r = None \<or> (\<exists>u. url t = Some u \<and> r = Some (origin u)))"

lemma right_outcomes_step:
  assumes "server_step lib origin n url s a s'" "in_step url s" "fits lib origin U (px_handlers s)"
    and "right_outcomes origin url s" "\<And>t. set_option (url t) \<subseteq> U"
  shows "fits lib origin U (px_handlers s') \<and> right_outcomes origin url s'"
  using assms(1)
proof (cases rule: server_step.cases)
  case (reads_request w t u h)
  have "set_option (handler_url (sh_pc h w)) \<subseteq> U" using reads_request(7,9) assms(5) [of t] by simp
  with fits_step(1) [OF reads_request(8) assms(3)] assms(4) show ?thesis
    by (simp add: reads_request(2) right_outcomes_def)
next
  case (handler_moves w t h)
  with fits_step(1) [OF handler_moves(6) assms(3)] assms(4) show ?thesis by (simp add: right_outcomes_def)
next
  case (handler_ends w t h)
  have f: "fits lib origin U h" using fits_step(1) [OF handler_ends(6) assms(3)] handler_ends(5) by simp
  from assms(2) have "coupled url (Running t) (sh_pc (px_handlers s) w) (px_ended s w)"
    using handler_ends(4) by (metis in_step_def)
  from coupledD(2) [OF this handler_ends(5)] have u: "url t = handler_url (sh_pc (px_handlers s) w)" by simp
  have "newly_sent (px_handlers s) h = None \<or> (\<exists>u. url t = Some u \<and> newly_sent (px_handlers s) h = Some (origin u))"
    using fits_step(2) [OF handler_ends(6) assms(3)] handler_ends(5) u by (auto simp: newly_sent_def)
  with f assms(4) show ?thesis by (simp add: handler_ends(2) right_outcomes_def)
qed (use assms(3,4) in \<open>simp_all add: right_outcomes_def\<close>)

lemma server_right:
  assumes "server_reach lib origin n url c0 s" "cache_ok lib c0" "cache_lookup c0 = Map.empty"
    and "finite U" "card U \<le> cache_capacity c0" "\<And>t. set_option (url t) \<subseteq> U"
  shows "fits lib origin U (px_handlers s) \<and> right_outcomes origin url s"
  using assms(1)
proof (induction rule: server_reach.induct)
  case server_start
  then show ?case using assms(2-5)
    by (simp add: proxy_init_def shared_init_def fits_def right_outcomes_def strategy.faithful_def)
next
  case (server_next s a s')
  from server_inv [OF server_next.hyps(1)] have "in_step url s" by simp
  with right_outcomes_step [OF server_next.hyps(2) this] server_next.IH assms(6) show ?case by blast
qed

text \<open>A thread that runs a task can always go on with it.\<close>

lemma runner_moves:
  assumes "in_step url s" "\<not> px_exited s" "w < n" "pc (px_pool s) w = Running t"
  shows "\<exists>s'. server_step lib origin n url s (Worker w) s'"
proof (cases "px_ended s w")
  case True
  with handler_returns [OF assms(2,4) True worker_step.finish [OF assms(3,4)]] show ?thesis by blast
next
  case False
  let ?h = "px_handlers s"
  show ?thesis
  proof (cases "sh_pc ?h w = Ready")
    case True
    show ?thesis
    proof (cases "url t")
      case None
      with bad_request [OF assms(2-4) False True] show ?thesis by blast
    next
      case (Some u)
      let ?g = "?h\<lparr>sh_pc := (sh_pc ?h)(w := Parsed u)\<rparr>"
      have "shared_step lib origin n ?h w ?g" by (rule shared_step.parsed [OF assms(3) True])
      with reads_request [where h = ?g and url = url, OF assms(2,4) False True Some] show ?thesis by auto
    qed
  next
    case busy: False
    from handler_can_move [OF assms(3) busy] obtain h where "shared_step lib origin n ?h w h" by blast
    from handler_moves [OF assms(2,4) busy this] handler_ends [OF assms(2,4) busy this] show ?thesis by blast
  qed
qed

subsection \<open>How many steps are left\<close>

text \<open>
  A bound on the steps of a thread until it sleeps, not counting those for tasks it has yet to
  take from the queue; of the owner until it has shut down the pool; and of the server.
\<close>

fun task_rank :: "bool \<Rightarrow> handler \<Rightarrow> nat" where
  "task_rank True h = 6"
| "task_rank False Ready = 9"
| "task_rank False (Parsed u) = 8"
| "task_rank False _ = 7"

fun thread_rank :: "worker \<Rightarrow> bool \<Rightarrow> handler \<Rightarrow> nat" where
  "thread_rank Starting e h = 6"
| "thread_rank AtLoop e h = 4"
| "thread_rank Holding e h = 3"
| "thread_rank ToBlock e h = 2"
| "thread_rank Waiting e h = 1"
| "thread_rank (Running t) e h = task_rank e h"
| "thread_rank Exited e h = 0"

fun owner_rank :: "nat \<Rightarrow> owner \<Rightarrow> nat" where
  "owner_rank n WaitReady = 3 * n + 12"
| "owner_rank n BlockedReady = 3 * n + 11"
| "owner_rank n Notifying = 3 * n + 7"
| "owner_rank n Serving = 3 * n + 3"
| "owner_rank n Stopping = 3 * n + 2"
| "owner_rank n Joining = 1"
| "owner_rank n Joined = 0"

definition ranks :: "nat \<Rightarrow> proxy \<Rightarrow> nat" where
  "ranks n s = (\<Sum>w < n. thread_rank (pc (px_pool s) w) (px_ended s w) (sh_pc (px_handlers s) w))"

definition steps_left :: "nat \<Rightarrow> proxy \<Rightarrow> nat" where
  "steps_left n s = (if px_exited s then 0
     else 20 * length (tasks (px_pool s)) + ranks n s + owner_rank n (owner_at (px_pool s)) + 1)"

text \<open>
  A step that is neither a spurious wake-up, nor the acceptance of a connection, nor the start of
  a shutdown: what the server does by itself.
\<close>

definition quiet_step_by ::
  "platform \<Rightarrow> (string \<Rightarrow> block) \<Rightarrow> nat \<Rightarrow> (nat \<Rightarrow> string option) \<Rightarrow> proxy \<Rightarrow> action \<Rightarrow> proxy \<Rightarrow> bool" where
  "quiet_step_by lib origin n url s a s' = (server_step lib origin n url s a s' \<and> a \<noteq> Spurious \<and>
     enqueued (px_pool s') = enqueued (px_pool s) \<and> stop (px_pool s') = stop (px_pool s))"

definition quiet_step ::
  "platform \<Rightarrow> (string \<Rightarrow> block) \<Rightarrow> nat \<Rightarrow> (nat \<Rightarrow> string option) \<Rightarrow> proxy \<Rightarrow> proxy \<Rightarrow> bool" where
  "quiet_step lib origin n url s s' = (\<exists>a. quiet_step_by lib origin n url s a s')"

text \<open>The server is at rest but for the threads W: no other thread, nor the owner, has a quiet step.\<close>

definition at_rest ::
  "platform \<Rightarrow> (string \<Rightarrow> block) \<Rightarrow> nat \<Rightarrow> (nat \<Rightarrow> string option) \<Rightarrow> nat set \<Rightarrow> proxy \<Rightarrow> bool" where
  "at_rest lib origin n url W s = (\<forall>a s'. quiet_step_by lib origin n url s a s' \<longrightarrow> (\<exists>w \<in> W. a = Worker w))"

lemma task_rank_le: "task_rank e h \<le> 9"
  by (cases e; cases h) auto

lemma thread_rank_le: "thread_rank x e h \<le> 9"
  using task_rank_le by (cases x) auto

lemma ranks_change:
  assumes "w < n" "\<And>v. v \<noteq> w \<Longrightarrow> pc (px_pool s') v = pc (px_pool s) v \<and> px_ended s' v = px_ended s v \<and>
      sh_pc (px_handlers s') v = sh_pc (px_handlers s) v"
  shows "ranks n s' + thread_rank (pc (px_pool s) w) (px_ended s w) (sh_pc (px_handlers s) w) =
    ranks n s + thread_rank (pc (px_pool s') w) (px_ended s' w) (sh_pc (px_handlers s') w)"
  unfolding ranks_def by (rule sum_change) (use assms in auto)

lemma ranks_le: "ranks n s \<le> 9 * n"
  using sum_bounded_above [of "{..<n}" "\<lambda>w. thread_rank (pc (px_pool s) w) (px_ended s w) (sh_pc (px_handlers s) w)" 9]
  by (simp add: ranks_def thread_rank_le mult.commute)

lemma owner_rank_le: "owner_rank n x \<le> 3 * n + 12"
  by (cases x) auto

lemma steps_left_le: "steps_left n s \<le> 20 * length (tasks (px_pool s)) + 12 * n + 13"
  using ranks_le [of n s] owner_rank_le [of n "owner_at (px_pool s)"] by (simp add: steps_left_def)

lemma worker_steps_left:
  assumes "worker_step n (px_pool s) w p" "\<And>t. pc (px_pool s) w \<noteq> Running t" "\<not> px_exited s"
  shows "steps_left n (s\<lparr>px_pool := p\<rparr>) < steps_left n s"
proof -
  have "w < n" "\<And>v. v \<noteq> w \<Longrightarrow> pc p v = pc (px_pool s) v"
    using assms(1) by (auto elim: worker_stepE)
  then have r: "ranks n (s\<lparr>px_pool := p\<rparr>) + thread_rank (pc (px_pool s) w) (px_ended s w) (sh_pc (px_handlers s) w) =
    ranks n s + thread_rank (pc p w) (px_ended s w) (sh_pc (px_handlers s) w)"
    using ranks_change [of w n "s\<lparr>px_pool := p\<rparr>" s] by simp
  show ?thesis using assms(1)
  proof (cases rule: worker_step.cases)
    case (pop t ts)
    then show ?thesis using r assms(3) task_rank_le [of "px_ended s w" "sh_pc (px_handlers s) w"]
      by (simp add: steps_left_def)
  qed (use r assms(2,3) in \<open>auto simp: steps_left_def\<close>)
qed

lemma owner_steps_left:
  assumes "owner_step n (px_pool s) p" "enqueued p = enqueued (px_pool s)" "\<not> px_exited s"
  shows "steps_left n (s\<lparr>px_pool := p\<rparr>) < steps_left n s"
  using assms(1)
proof (cases rule: owner_step.cases)
  case (emplace t)
  then show ?thesis using assms(2) by simp
next
  case (notify_one w)
  with ranks_change [of w n "s\<lparr>px_pool := p\<rparr>" s] assms(3) show ?thesis by (simp add: steps_left_def)
next
  case notify_all
  have "ranks n (s\<lparr>px_pool := p\<rparr>) \<le> (\<Sum>w < n. thread_rank (pc (px_pool s) w) (px_ended s w) (sh_pc (px_handlers s) w) + 3)"
    unfolding ranks_def by (rule sum_mono) (simp add: notify_all(1))
  also have "\<dots> = ranks n s + 3 * n" by (simp add: ranks_def sum.distrib)
  finally show ?thesis using notify_all assms(3) by (simp add: steps_left_def)
qed (use assms(3) in \<open>simp_all add: steps_left_def ranks_def\<close>)

text \<open>Every quiet step brings the server nearer to the end, when the cache has places for all URLs.\<close>

lemma quiet_steps_left:
  assumes "quiet_step lib origin n url s s'" "in_step url s" "fits lib origin U (px_handlers s)"
    and "\<And>t. set_option (url t) \<subseteq> U"
  shows "steps_left n s' < steps_left n s"
proof -
  from assms(1) obtain a where st: "server_step lib origin n url s a s'" "a \<noteq> Spurious"
    "enqueued (px_pool s') = enqueued (px_pool s)" by (auto simp: quiet_step_def quiet_step_by_def)
  have c: "coupled url (pc (px_pool s) v) (sh_pc (px_handlers s) v) (px_ended s v)" for v
    using assms(2) by (simp add: in_step_def)
  from st(1) show ?thesis
  proof (cases rule: server_step.cases)
    case (pool_moves p)
    from pool_moves(3) show ?thesis
    proof (cases rule: pool_step.cases)
      case (worker w)
      from worker_steps_left [OF worker(2) pool_moves(4) [OF worker(1)] pool_moves(2)] pool_moves(1) show ?thesis by simp
    next
      case owner
      with owner_steps_left [OF owner(2) _ pool_moves(2)] pool_moves(1) st(3) show ?thesis by simp
    qed (use st(2) in simp_all)
  next
    case (handler_returns w t p)
    note f = finish_effect [OF handler_returns(6,4)]
    have "tasks p = tasks (px_pool s)" "owner_at p = owner_at (px_pool s)"
      using handler_returns(6,4) by (auto elim: worker_stepE)
    with ranks_change [OF f(1), of s' s] f(3,4) handler_returns(2-5) show ?thesis by (simp add: steps_left_def)
  next
    case (bad_request w t)
    then show ?thesis by (simp add: steps_left_def)
  next
    case (reads_request w t u h)
    from ranks_change [OF shared_step_local(1) [OF reads_request(8)], of s' s]
      shared_step_local(2) [OF reads_request(8)] reads_request
    show ?thesis by (simp add: steps_left_def)
  next
    case (handler_moves w t h)
    have ne: "\<not> px_ended s w" using coupledD(1) [OF c handler_moves(5)] .
    have "task_rank False (sh_pc h w) < task_rank False (sh_pc (px_handlers s) w)"
      using fits_step(1) [OF handler_moves(6) assms(3)] handler_moves(5,6,7)
      by (auto simp: fits_def elim: shared_stepE)
    with ranks_change [OF shared_step_local(1) [OF handler_moves(6)], of s' s]
      shared_step_local(2) [OF handler_moves(6)] handler_moves(2-4) ne
    show ?thesis by (simp add: steps_left_def)
  next
    case (handler_ends w t h)
    have ne: "\<not> px_ended s w" using coupledD(1) [OF c handler_ends(5)] .
    have "6 < task_rank False (sh_pc (px_handlers s) w)" by (cases "sh_pc (px_handlers s) w") simp_all
    with ranks_change [OF shared_step_local(1) [OF handler_ends(6)], of s' s]
      shared_step_local(2) [OF handler_ends(6)] handler_ends(2-4) ne
    show ?thesis by (simp add: steps_left_def)
  qed
qed

lemma worker_keeps_queue:
  assumes "server_step lib origin n url s (Worker w) s'"
  shows "enqueued (px_pool s') = enqueued (px_pool s) \<and> stop (px_pool s') = stop (px_pool s)"
proof -
  have "enqueued p = enqueued (px_pool s) \<and> stop p = stop (px_pool s)" if "worker_step n (px_pool s) w p" for p
    using that by (auto elim: worker_stepE)
  with assms show ?thesis by (auto elim!: server_stepE pool_stepE)
qed

lemma notifying_moves:
  assumes "\<not> px_exited s" "owner_at (px_pool s) = Notifying"
  shows "\<exists>s'. quiet_step_by lib origin n url s Owner s'"
proof -
  from notifier_moves [OF assms(2), of n] obtain p where
    p: "owner_step n (px_pool s) p" "enqueued p = enqueued (px_pool s)" "stop p = stop (px_pool s)" by blast
  from pool_moves [OF assms(1) pool_step.owner [OF p(1)]] p(2,3)
  have "quiet_step_by lib origin n url s Owner (s\<lparr>px_pool := p\<rparr>)" by (simp add: quiet_step_by_def)
  then show ?thesis by blast
qed

text \<open>What is left when the server is at rest but for threads that wait for a peer.\<close>

lemma rest_end:
  assumes "server_reach lib origin n url c0 s" "\<not> px_exited s" "W \<subseteq> in_io n s" "at_rest lib origin n url W s"
  shows "w < n \<Longrightarrow> w \<notin> W \<Longrightarrow> pc (px_pool s) w \<noteq> Running t" "tasks (px_pool s) = [] \<or> W = {..<n}"
proof -
  have no: "w \<in> W" if "server_step lib origin n url s (Worker w) s'" for w s'
    using assms(4) that worker_keeps_queue [OF that] by (force simp: at_rest_def quiet_step_by_def)
  show run: "pc (px_pool s) w \<noteq> Running t" if "w < n" "w \<notin> W" for w t
    using runner_moves [OF _ assms(2) that(1)] server_inv [OF assms(1)] no that(2) by blast
  have own: "owner_at (px_pool s) \<noteq> Notifying"
    using notifying_moves [OF assms(2)] assms(4) by (fastforce simp: at_rest_def)
  have "tasks (px_pool s) = []" if "v < n" "v \<notin> W" for v
  proof (rule ccontr)
    assume ne: "tasks (px_pool s) \<noteq> []"
    from thread_comes [OF server_pool [OF assms(1)] ne own that(1)] run [OF that] obtain w p where
      w: "w < n" "\<forall>t. pc (px_pool s) w \<noteq> Running t" "worker_step n (px_pool s) w p" by blast
    from pool_moves [OF assms(2) pool_step.worker [OF w(3)]] w(2) no have "w \<in> W" by blast
    with assms(3) w(2) show False by (auto simp: in_io_def)
  qed
  moreover have "W \<subseteq> {..<n}" using assms(3) by (auto simp: in_io_def)
  ultimately show "tasks (px_pool s) = [] \<or> W = {..<n}" by blast
qed

text \<open>Runs without new connections, of k steps.\<close>

inductive quiet_run ::
  "platform \<Rightarrow> (string \<Rightarrow> block) \<Rightarrow> nat \<Rightarrow> (nat \<Rightarrow> string option) \<Rightarrow> proxy \<Rightarrow> nat \<Rightarrow> proxy \<Rightarrow> bool"
  for lib origin n url s where
  quiet_none: "quiet_run lib origin n url s 0 s"
| quiet_more: "quiet_run lib origin n url s k s' \<Longrightarrow> quiet_step lib origin n url s' s'' \<Longrightarrow>
    quiet_run lib origin n url s (Suc k) s''"

interpretation drain: bounded_runs "quiet_step lib origin n url"
    "\<lambda>s. server_reach lib origin n url c0 s \<and> roomy lib url c0 U" "steps_left n" for lib origin n url c0 U
proof
  fix s s' assume i: "server_reach lib origin n url c0 s \<and> roomy lib url c0 U" "quiet_step lib origin n url s s'"
  then show "server_reach lib origin n url c0 s' \<and> roomy lib url c0 U"
    by (auto simp: quiet_step_def quiet_step_by_def intro: server_next)
  from i show "steps_left n s' < steps_left n s"
    using quiet_steps_left [OF i(2), of U] server_inv server_right by (auto simp: roomy_def)
qed

lemma quiet_run_steps:
  "quiet_run lib origin n url s k s' \<Longrightarrow>
    (quiet_step lib origin n url ^^ k) s s' \<and> enqueued (px_pool s') = enqueued (px_pool s)"
proof (induction rule: quiet_run.induct)
  case (quiet_more k s' s'')
  from quiet_more.hyps(2) have "enqueued (px_pool s'') = enqueued (px_pool s')"
    by (auto simp: quiet_step_def quiet_step_by_def)
  with quiet_more show ?case by auto
qed simp

subsection \<open>Properties\<close>

text \<open>C13. The pool and its handlers together: in every reachable state, whatever the interleaving,
  connections are taken up in the order they were accepted, each is handled at most once, and
  each whose task has returned was handled; when the pool has been shut down, every accepted
  connection has been handled exactly once.\<close>

theorem pooled_exactly_once:
  assumes "server_reach lib origin n url c0 s"
  defines "p \<equiv> px_pool s" and "handled \<equiv> mset (map fst (outcome s))"
  shows "enqueued p = started p @ tasks p \<and> mset (finished p) \<subseteq># handled \<and> handled \<subseteq># mset (started p) \<and>
    (owner_at p = Joined \<and> 0 < n \<longrightarrow> handled = mset (enqueued p))"
proof -
  from server_inv [OF assms(1)] have c: "handled = mset (finished p) + at_end n s"
    by (simp add: counted_def handled_def p_def)
  note i = pool_invD [OF reach_inv [OF server_pool [OF assms(1)]]]
  from i(2) have h: "enqueued p = started p @ tasks p" "mset (started p) = mset (finished p) + running n (pc p)"
    by (simp_all add: history_def p_def)
  have le: "handled \<subseteq># mset (started p)" using at_end_running [of n s] by (simp add: c h(2) [unfolded p_def] p_def)
  have "handled = mset (enqueued p)" if "owner_at p = Joined" "0 < n"
  proof -
    from i(3) that(1) have x: "\<forall>w < n. pc p w = Exited" by (simp add: phases_def p_def)
    then have "running n (pc p) = {#}" by (simp add: running_def)
    moreover from x that(2) i(3) have "tasks p = []" by (auto simp: phases_def p_def)
    ultimately have "handled \<subseteq># mset (finished p)" "mset (enqueued p) = mset (finished p)" using h le by simp_all
    then show ?thesis using c by (simp add: subset_mset.antisym)
  qed
  then show ?thesis using h(1) le by (auto simp: c)
qed


text \<open>C14. Only its peers can keep the server waiting: in every reachable state in which the process
  has not exited, a thread that handles a connection and does not wait for a peer (a client that
  has yet to send its request or read its response, an origin server) can go on, through all
  locks; and while a connection is queued, some thread that does not wait for a peer has a step
  to take other than a spurious wake-up, the acceptance of a connection and a shutdown, or the
  owner is about to notify one, unless all n threads wait for peers.\<close>

theorem pooled_never_stuck:
  assumes "server_reach lib origin n url c0 s" "\<not> px_exited s"
  shows "(\<forall>w < n. \<forall>t. pc (px_pool s) w = Running t \<and> w \<notin> in_io n s \<longrightarrow>
      (\<exists>s'. quiet_step_by lib origin n url s (Worker w) s')) \<and>
    (tasks (px_pool s) \<noteq> [] \<longrightarrow> in_io n s = {..<n} \<or>
      (\<exists>a s'. quiet_step_by lib origin n url s a s' \<and> a \<notin> Worker ` in_io n s \<and>
        (a = Owner \<longrightarrow> owner_at (px_pool s) = Notifying)))"
proof -
  have go: "\<exists>s'. quiet_step_by lib origin n url s (Worker w) s'" if "w < n" "pc (px_pool s) w = Running t" for w t
    using runner_moves [OF _ assms(2) that] server_inv [OF assms(1)] worker_keeps_queue
    unfolding quiet_step_by_def by blast
  have "\<exists>a s'. quiet_step_by lib origin n url s a s' \<and> a \<notin> Worker ` in_io n s \<and>
      (a = Owner \<longrightarrow> owner_at (px_pool s) = Notifying)"
    if ne: "tasks (px_pool s) \<noteq> []" and v: "v < n" "v \<notin> in_io n s" for v
  proof (cases "owner_at (px_pool s) = Notifying")
    case True
    with notifying_moves [OF assms(2) this] show ?thesis by blast
  next
    case own: False
    show ?thesis
    proof (cases "\<exists>t. pc (px_pool s) v = Running t")
      case True
      with go [OF v(1)] v(2) show ?thesis by blast
    next
      case False
      with thread_comes [OF server_pool [OF assms(1)] ne own v(1)] obtain w p where
        w: "\<forall>t. pc (px_pool s) w \<noteq> Running t" "worker_step n (px_pool s) w p" by blast
      have "server_step lib origin n url s (Worker w) (s\<lparr>px_pool := p\<rparr>)"
        using pool_moves [OF assms(2) pool_step.worker [OF w(2)]] w(1) by blast
      with worker_keeps_queue [OF this] have "quiet_step_by lib origin n url s (Worker w) (s\<lparr>px_pool := p\<rparr>)"
        by (simp add: quiet_step_by_def)
      moreover have "w \<notin> in_io n s" using w(1) by (simp add: in_io_def)
      ultimately show ?thesis by blast
    qed
  qed
  moreover have "in_io n s \<subseteq> {..<n}" by (auto simp: in_io_def)
  ultimately show ?thesis using go by blast
qed

text \<open>C37. One bad client stops the server for all: when a thread has taken up a connection whose
  request does not parse, whatever it does next is to end the process; no thread makes another
  step after that, and the connections in the queue are never handled.\<close>

theorem pooled_bad_request_exits:
  assumes "server_reach lib origin n url c0 s" "w < n" "pc (px_pool s) w = Running t" "url t = None"
    and "\<not> px_exited s" "\<not> px_ended s w"
  shows "(\<exists>s'. server_step lib origin n url s (Worker w) s') \<and>
    (\<forall>s'. server_step lib origin n url s (Worker w) s' \<longrightarrow> px_exited s' \<and> outcome s' = outcome s \<and>
      px_pool s' = px_pool s \<and> (\<forall>a s''. \<not> server_step lib origin n url s' a s''))"
proof -
  from server_inv [OF assms(1)] have i: "in_step url s" by simp
  then have c: "coupled url (Running t) (sh_pc (px_handlers s) w) (px_ended s w)"
    using assms(3) by (metis in_step_def)
  have r: "sh_pc (px_handlers s) w = Ready"
  proof (rule ccontr)
    assume n: "sh_pc (px_handlers s) w \<noteq> Ready"
    from coupledD(2) [OF c n] assms(4) n show False by (auto dest: sym)
  qed
  have "px_exited s' \<and> outcome s' = outcome s \<and> px_pool s' = px_pool s"
    if "server_step lib origin n url s (Worker w) s'" for s'
    using that by (cases rule: server_step.cases) (use assms(3,4,6) r in auto)
  moreover have "\<not> server_step lib origin n url s' a s''" if "px_exited s'" for s' a s''
    using that by (auto elim: server_stepE)
  ultimately show ?thesis using runner_moves [OF i assms(5,2,3)] by blast
qed
text \<open>Where the connections are when the server is at rest but for the threads W.\<close>

lemma rest_accounts:
  assumes "server_reach lib origin n url c0 s" "\<not> px_exited s" "W \<subseteq> in_io n s" "at_rest lib origin n url W s"
  shows "mset (map fst (outcome s)) + (\<Sum>w \<in> W. held (pc (px_pool s) w)) + mset (tasks (px_pool s)) =
    mset (enqueued (px_pool s))"
proof -
  note e = rest_end(1) [OF assms]
  have W: "W \<subseteq> {..<n}" "\<forall>w \<in> W. \<not> px_ended s w" using assms(3) by (auto simp: in_io_def)
  have "held (pc (px_pool s) w) = {#}" if "w < n" "w \<notin> W" for w
    using e [OF that] by (cases "pc (px_pool s) w") auto
  then have "running n (pc (px_pool s)) = (\<Sum>w \<in> W. held (pc (px_pool s) w))"
    unfolding running_def using W(1) by (intro sum.mono_neutral_right) auto
  moreover have "at_end n s = {#}"
    unfolding at_end_def
  proof (rule sum.neutral, rule ballI)
    fix w assume "w \<in> {..<n}"
    with e [of w] W(2) show "(if px_ended s w then held (pc (px_pool s) w) else {#}) = {#}"
      by (cases "w \<in> W"; cases "pc (px_pool s) w") auto
  qed
  ultimately show ?thesis
    using pool_invD(2) [OF reach_inv [OF server_pool [OF assms(1)]]] server_inv [OF assms(1)]
    by (simp add: counted_def history_def)
qed

lemma drains_spec:
  assumes "server_reach lib origin n url c0 s" "cache_ok lib c0" "cache_lookup c0 = Map.empty"
    and "finite U" "card U \<le> cache_capacity c0" "\<forall>t u. url t = Some u \<longrightarrow> u \<in> U"
    and "quiet_run lib origin n url s k s'"
  shows "k \<le> 20 * length (tasks (px_pool s)) + 12 * n + 13 \<and> right_outcomes origin url s' \<and>
    (\<forall>W. W \<subseteq> in_io n s' \<and> at_rest lib origin n url W s' \<longrightarrow> px_exited s' \<or>
      mset (map fst (outcome s')) + (\<Sum>w \<in> W. held (pc (px_pool s') w)) + mset (tasks (px_pool s')) =
        mset (enqueued (px_pool s)) \<and> (tasks (px_pool s') = [] \<or> W = {..<n}))"
proof -
  have u: "set_option (url t) \<subseteq> U" for t using assms(6) by (cases "url t") auto
  have "roomy lib url c0 U" using assms(2-5) u by (simp add: roomy_def)
  with drain.run_bound [of k lib origin n url s s' c0 U] quiet_run_steps [OF assms(7)] assms(1)
  have r: "server_reach lib origin n url c0 s'" and f: "enqueued (px_pool s') = enqueued (px_pool s)"
    "k + steps_left n s' \<le> steps_left n s" by simp_all
  moreover have "right_outcomes origin url s'" using server_right [OF r assms(2-5) u] by blast
  ultimately show ?thesis using steps_left_le [of n s] rest_accounts [OF r] rest_end(2) [OF r] by auto
qed


subsection \<open>Runs for the examples\<close>

lemma finished_grows: "pool_step n p a p' \<Longrightarrow> finished p' = [] \<Longrightarrow> finished p = []"
  by (auto elim!: pool_stepE worker_stepE owner_stepE)

text \<open>As long as no task has returned, a run of the pool is a run of the server.\<close>

lemma pool_run_lifts:
  assumes "pool_reach n p" "finished p = []"
  shows "server_reach lib origin n url c0 ((proxy_init c0)\<lparr>px_pool := p\<rparr>)"
  using assms
proof (induction rule: pool_reach.induct)
  case init
  have "(proxy_init c0)\<lparr>px_pool := pool_init\<rparr> = proxy_init c0" by (simp add: proxy_init_def)
  then show ?case by (simp add: server_start)
next
  case (step p a p')
  let ?s = "(proxy_init c0)\<lparr>px_pool := p\<rparr>"
  have r: "server_reach lib origin n url c0 ?s"
    using step.IH finished_grows [OF step.hyps(2) step.prems] by blast
  have "pc p w \<noteq> Running t" if "a = Worker w" for w t
    using step.hyps(2) step.prems that by (auto elim!: pool_stepE worker_stepE)
  then have "server_step lib origin n url ?s a (?s\<lparr>px_pool := p'\<rparr>)"
    using step.hyps(2) by (intro pool_moves) (simp_all add: proxy_init_def)
  from server_next [OF r this] show ?case by simp
qed

text \<open>The first of n threads has taken up connection 7, for the URL u, and has answered it from the
  origin server; no other connection has arrived.\<close>

definition busy_server :: "nat \<Rightarrow> nat list \<Rightarrow> nat list \<Rightarrow> cache \<Rightarrow> proxy" where
  "busy_server n r q c = (proxy_init c)\<lparr>px_pool := busy n r q\<rparr>"

lemma reach_busy_server: "length r \<le> n \<Longrightarrow> server_reach lib origin n url c (busy_server n r q c)"
  unfolding busy_server_def by (rule pool_run_lifts [OF reach_busy]) (simp_all add: busy_def)

lemma one_answered:
  assumes "url 7 = Some u" "0 < n"
  shows "\<exists>s. server_reach lib origin n url (LRU (LRUCache_new 1)) s \<and> outcome s = [(7, Some (origin u))] \<and>
    px_pool s = busy n [7] [] \<and> px_ended s 0 \<and> \<not> px_exited s"
proof -
  let ?c = "LRU (LRUCache_new 1)"
  let ?s = "busy_server n [7] [] ?c"
  have r: "server_reach lib origin n url ?c ?s" by (rule reach_busy_server) (use assms(2) in simp)
  have w: "pc (px_pool ?s) 0 = Running 7" "\<not> px_exited ?s" "\<not> px_ended ?s 0" "sh_pc (px_handlers ?s) 0 = Ready"
    by (simp_all add: busy_server_def busy_def proxy_init_def shared_init_def)
  let ?h0 = "shared_init ?c"
  let ?h1 = "?h0\<lparr>sh_pc := (sh_pc ?h0)(0 := Parsed u)\<rparr>"
  have "shared_step lib origin n (px_handlers ?s) 0 ?h1"
    using shared_step.parsed [of 0 n ?h0] assms(2) by (simp add: busy_server_def proxy_init_def shared_init_def)
  then have "server_step lib origin n url ?s (Worker 0) (?s\<lparr>px_handlers := ?h1\<rparr>)"
    using reads_request [where s = ?s and w = 0 and t = 7 and h = ?h1 and url = url and u = u] w assms(1) by simp
  note r1 = server_next [OF r this]
  let ?h2 = "?h1\<lparr>sh_pc := (sh_pc ?h1)(0 := Relaying u), calls_since := count_call 0 (calls_since ?h1)\<rparr>"
  have "shared_step lib origin n ?h1 0 ?h2"
    using shared_step.find_miss [of 0 n ?h1 u lib 0 ?c] assms(2)
    by (simp add: shared_init_def LRUCache_find_def LRUCache_new_def)
  then have "server_step lib origin n url (?s\<lparr>px_handlers := ?h1\<rparr>) (Worker 0) (?s\<lparr>px_handlers := ?h2\<rparr>)"
    using handler_moves [where s = "?s\<lparr>px_handlers := ?h1\<rparr>" and w = 0 and t = 7 and h = ?h2 and url = url] w by simp
  note r2 = server_next [OF r1 this]
  have "0 \<notin> cache_used ?c" by (simp add: cache_used_def LRUCache_new_def)
  from strategy.add_law [OF new_cache_ok(1) [of 1 lib] this refl, of 0 u "origin u"] obtain c where
    c: "cache_add lib ?c 0 0 u (origin u) (int (length (origin u))) = Some c" by auto
  let ?h3 = "?h2\<lparr>sh_cache := c, sh_pc := (sh_pc ?h2)(0 := Ready), sent := (u, origin u) # sent ?h2,
    calls_since := count_call 0 (calls_since ?h2)\<rparr>"
  have "shared_step lib origin n ?h2 0 ?h3"
    by (rule shared_step.relay_add [where a = 0 and now = 0])
      (use c \<open>0 \<notin> cache_used ?c\<close> assms(2) in \<open>simp_all add: shared_init_def\<close>)
  then have "server_step lib origin n url (?s\<lparr>px_handlers := ?h2\<rparr>) (Worker 0)
    (?s\<lparr>px_handlers := ?h3, px_ended := (px_ended ?s)(0 := True), outcome := [(7, Some (origin u))]\<rparr>)"
    using handler_ends [where s = "?s\<lparr>px_handlers := ?h2\<rparr>" and w = 0 and t = 7 and h = ?h3 and url = url] w
    by (simp add: newly_sent_def shared_init_def busy_server_def proxy_init_def)
  note r3 = server_next [OF r2 this]
  show ?thesis by (rule exI, intro conjI, rule r3) (simp_all add: busy_server_def proxy_init_def)
qed

text \<open>A server that is left to itself comes to rest.\<close>

lemma can_come_to_rest:
  assumes "server_reach lib origin n url c0 s" "cache_ok lib c0" "cache_lookup c0 = Map.empty"
    and "finite U" "card U \<le> cache_capacity c0" "\<forall>t u. url t = Some u \<longrightarrow> u \<in> U"
  shows "\<exists>k s'. quiet_run lib origin n url s k s' \<and> at_rest lib origin n url {} s'"
proof (rule ccontr)
  assume no: "\<not> ?thesis"
  have "\<exists>s'. quiet_run lib origin n url s k s'" for k
  proof (induction k)
    case 0
    show ?case using quiet_none by blast
  next
    case (Suc k)
    then obtain s' where s': "quiet_run lib origin n url s k s'" by blast
    with no have "\<not> at_rest lib origin n url {} s'" by blast
    then obtain s'' where "quiet_step lib origin n url s' s''" by (auto simp: at_rest_def quiet_step_def)
    from quiet_more [OF s' this] show ?case by blast
  qed
  then obtain s' where "quiet_run lib origin n url s (Suc (20 * length (tasks (px_pool s)) + 12 * n + 13)) s'" by blast
  with drains_spec [OF assms this] show False by simp
qed

text \<open>Without bad requests the process goes on, and what was handled stays handled.\<close>

lemma no_exit:
  assumes "server_reach lib origin n url c0 s" "\<And>t. url t \<noteq> None"
  shows "\<not> px_exited s"
  using assms(1)
proof (induction rule: server_reach.induct)
  case server_start
  show ?case by (simp add: proxy_init_def)
next
  case (server_next s a s')
  from server_next.hyps(2) show ?case by (cases rule: server_step.cases) (use assms(2) in auto)
qed

lemma quiet_run_outcome:
  "quiet_run lib origin n url s k s' \<Longrightarrow> set (outcome s) \<subseteq> set (outcome s')"
proof (induction rule: quiet_run.induct)
  case (quiet_more k s' s'')
  from quiet_more.hyps(2) have "set (outcome s') \<subseteq> set (outcome s'')"
    by (auto simp: quiet_step_def quiet_step_by_def elim!: server_stepE)
  with quiet_more show ?case by blast
qed simp

lemma quiet_run_reach:
  "quiet_run lib origin n url s k s' \<Longrightarrow> server_reach lib origin n url c0 s \<Longrightarrow> server_reach lib origin n url c0 s'"
  by (induction rule: quiet_run.induct) (auto simp: quiet_step_def quiet_step_by_def intro: server_next)

text \<open>n threads (at least one), of which one has handled connection 7: the run to the rest.\<close>

lemma one_handled:
  assumes "0 < n"
  shows "\<exists>s k s'. server_reach lib origin n (\<lambda>_. Some u) (LRU (LRUCache_new 1)) s \<and> (7, Some (origin u)) \<in> set (outcome s') \<and>
    enqueued (px_pool s) = [7] \<and> quiet_run lib origin n (\<lambda>_. Some u) s k s' \<and>
    at_rest lib origin n (\<lambda>_. Some u) {} s' \<and> \<not> px_exited s'"
proof -
  let ?c = "LRU (LRUCache_new 1)"
  from one_answered [of "\<lambda>_. Some u" u n lib origin] assms obtain s where
    s: "server_reach lib origin n (\<lambda>_. Some u) ?c s" "outcome s = [(7, Some (origin u))]" "px_pool s = busy n [7] []" by auto
  from can_come_to_rest [OF s(1) new_cache_ok(1,2), of "{u}"] obtain k s' where
    q: "quiet_run lib origin n (\<lambda>_. Some u) s k s'" "at_rest lib origin n (\<lambda>_. Some u) {} s'"
    by (auto simp: LRUCache_new_def)
  have "\<not> px_exited s'" by (rule no_exit [OF quiet_run_reach [OF q(1) s(1)]]) simp
  moreover have "(7, Some (origin u)) \<in> set (outcome s')" using quiet_run_outcome [OF q(1)] s(2) by auto
  ultimately show ?thesis using s q by (intro exI [of _ s] exI [of _ k] exI [of _ s']) (simp add: busy_def)
qed

text \<open>As long as no worker moves, a server whose n threads wait for the requests of r stays so.\<close>

lemma silent_step:
  assumes "server_step lib origin n url s a s'" and "a \<notin> Worker ` {..<n}"
    and p: "\<forall>w. pc (px_pool s) w = (if w < n then Running (r ! w) else Starting)"
  shows "(\<forall>w. pc (px_pool s') w = (if w < n then Running (r ! w) else Starting)) \<and>
    px_handlers s' = px_handlers s \<and> px_ended s' = px_ended s \<and> px_exited s' = px_exited s \<and>
    outcome s' = outcome s \<and> started (px_pool s') = started (px_pool s) \<and>
    (\<exists>x. tasks (px_pool s') = tasks (px_pool s) @ x)"
proof -
  have "pc (px_pool s) w = Running t \<Longrightarrow> w < n" for w t using p by (simp split: if_splits)
  with assms(1,2) obtain p' where p': "pool_step n (px_pool s) a p'" "s' = s\<lparr>px_pool := p'\<rparr>"
    by (auto elim!: server_stepE)
  from p'(1) assms(2) p show ?thesis unfolding p'(2)
    by (auto elim!: pool_stepE worker_stepE owner_stepE)
qed

definition silent_step_to ::
  "platform \<Rightarrow> (string \<Rightarrow> block) \<Rightarrow> nat \<Rightarrow> (nat \<Rightarrow> string option) \<Rightarrow> proxy \<Rightarrow> proxy \<Rightarrow> bool" where
  "silent_step_to lib origin n url s s' = (\<exists>a. a \<notin> Worker ` {..<n} \<and> server_step lib origin n url s a s')"

lemma silent_run:
  assumes "(silent_step_to lib origin n url)\<^sup>*\<^sup>* s s'"
    and "\<forall>w. pc (px_pool s) w = (if w < n then Running (r ! w) else Starting)"
  shows "(\<forall>w. pc (px_pool s') w = (if w < n then Running (r ! w) else Starting)) \<and>
    px_handlers s' = px_handlers s \<and> px_ended s' = px_ended s \<and> px_exited s' = px_exited s \<and>
    outcome s' = outcome s \<and> started (px_pool s') = started (px_pool s) \<and>
    (\<exists>x. tasks (px_pool s') = tasks (px_pool s) @ x)"
  using assms
proof (induction rule: rtranclp_induct)
  case (step y z)
  from step.hyps(2) obtain a where "a \<notin> Worker ` {..<n}" "server_step lib origin n url y a z"
    by (auto simp: silent_step_to_def)
  with silent_step [of lib origin n url y a z r] step.IH [OF step.prems] show ?case by fastforce
qed simp



theorem pooled_exactly_once_witness:
  "\<exists>s. server_reach standard (\<lambda>u. u @ ''!'') 1 (\<lambda>_. Some ''u'') (LRU (LRUCache_new 1)) s \<and>
    mset (map fst (outcome s)) = {#7#} \<and> {#7#} \<subseteq># mset (started (px_pool s))"
proof -
  from one_answered [of "\<lambda>_. Some ''u''" "''u''" 1 standard "\<lambda>u. u @ ''!''"] obtain s where
    s: "server_reach standard (\<lambda>u. u @ ''!'') 1 (\<lambda>_. Some ''u'') (LRU (LRUCache_new 1)) s" "outcome s = [(7, Some ''u!'')]"
    by auto
  from pooled_exactly_once [OF s(1)] s show ?thesis by (intro exI [of _ s]) simp
qed



theorem pooled_never_stuck_witness:
  "\<exists>s a s'. server_reach standard (\<lambda>u. u) 2 (\<lambda>_. Some ''u'') (LRU (LRUCache_new 1)) s \<and> in_io 2 s = {0} \<and>
    tasks (px_pool s) = [8] \<and> server_step standard (\<lambda>u. u) 2 (\<lambda>_. Some ''u'') s a s' \<and> a \<noteq> Worker 0 \<and> a \<noteq> Spurious"
proof -
  let ?s = "busy_server 2 [7] [8] (LRU (LRUCache_new 1))"
  have r: "server_reach standard (\<lambda>u. u) 2 (\<lambda>_. Some ''u'') (LRU (LRUCache_new 1)) ?s"
    by (rule reach_busy_server) simp
  have i: "in_io 2 ?s = {0}"
    by (auto simp: in_io_def busy_server_def busy_def proxy_init_def shared_init_def split: if_splits)
  have t: "tasks (px_pool ?s) = [8]" "\<not> px_exited ?s" by (simp_all add: busy_server_def busy_def proxy_init_def)
  have "{0} \<noteq> {..<2::nat}" by (metis lessThan_iff one_less_numeral_iff semiring_norm(76) singletonD zero_neq_one)
  moreover have "tasks (px_pool ?s) \<noteq> []" unfolding t(1) by simp
  ultimately obtain a s' where
    a: "quiet_step_by standard (\<lambda>u. u) 2 (\<lambda>_. Some ''u'') ?s a s'" "a \<notin> Worker ` {0}"
    using pooled_never_stuck [OF r t(2), THEN conjunct2] unfolding i by blast
  from a(1) have s': "server_step standard (\<lambda>u. u) 2 (\<lambda>_. Some ''u'') ?s a s'" "a \<noteq> Spurious"
    by (simp_all add: quiet_step_by_def)
  from a(2) have "a \<noteq> Worker 0" by blast
  with r i t(1) s' show ?thesis by blast
qed

theorem pooled_bad_request_exits_witness:
  "\<exists>s s'. server_step standard (\<lambda>u. u) 1 (\<lambda>_. None) s (Worker 0) s' \<and> px_exited s' \<and>
    (\<forall>a s''. \<not> server_step standard (\<lambda>u. u) 1 (\<lambda>_. None) s' a s'')"
proof -
  let ?s = "(proxy_init (LRU (LRUCache_new 1)))\<lparr>px_pool := after_run (Running 7) Serving [] [7] []\<rparr>"
  have "server_reach standard (\<lambda>u. u) 1 (\<lambda>_. None) (LRU (LRUCache_new 1)) ?s"
    by (rule pool_run_lifts [OF reach_running]) (simp add: after_run_def)
  from pooled_bad_request_exits [OF this, of 0 7] show ?thesis
    by (simp add: after_run_def proxy_init_def) blast
qed

end
