(* ===== verification/Semaphore_Server.thy ===== *)
theory Semaphore_Server
  imports Prelude
begin

text \<open>
  The threads of \<^verbatim>\<open>SemaphoreServer.cpp\<close> as a step relation: n workers that each
  loop over \<open>sem_wait\<close>, \<open>accept\<close>, the handler, \<open>close\<close> and \<open>sem_post\<close>, the flag that the
  signal handler clears, and the descriptor table of the process, which decides what a
  \<open>close\<close> closes. A new descriptor is the least free one, as POSIX prescribes; 0 to 3 are
  the standard streams and the listening socket. Connections are numbered in the order in
  which they are accepted. Of the handler \<open>datafromclient\<close> only its last call is visible
  here, \<open>close(newsockfd)\<close>; what it sends goes to whatever connection its descriptor names.
\<close>

subsection \<open>States and steps\<close>

datatype sem_worker = LoopTest | SemWait | Acquired | Accepting | Handling nat nat | Handled nat
  | Posting | PostBreak | Returned

record sem_server =
  sm_pc :: "nat \<Rightarrow> sem_worker"
  sm_value :: nat
  sm_running :: bool
  sm_fds :: "nat \<rightharpoonup> nat option"
  sm_accepted :: nat

text \<open>The constructor's \<open>sem_init\<close>, and \<open>start\<close> after it has created the threads.\<close>

definition sem_init :: "nat \<Rightarrow> sem_server" where
  "sem_init n = \<lparr>sm_pc = (\<lambda>_. LoopTest), sm_value = n, sm_running = True,
     sm_fds = (\<lambda>fd. if fd < 4 then Some None else None), sm_accepted = 0\<rparr>"

text \<open>
  \<open>workerThread\<close>. \<open>Handling fd c\<close>: inside \<open>datafromclient\<close>, for connection c. The steps say what a
  worker does next, not that it does it in time: \<open>accept\<close> blocks until a client connects or the
  call fails (SIGINT alone does not end it, since \<open>signal\<close> makes the system restart it), and the
  handler may wait for its peers for ever, so \<open>accept\<close>, \<open>accept_failed\<close> and \<open>handler_closes\<close> may
  never come.
\<close>

inductive sem_worker_step :: "nat \<Rightarrow> sem_server \<Rightarrow> nat \<Rightarrow> sem_server \<Rightarrow> bool" for n where
  loop: "w < n \<Longrightarrow> sm_pc s w = LoopTest \<Longrightarrow>
    sem_worker_step n s w (s\<lparr>sm_pc := (sm_pc s)(w := (if sm_running s then SemWait else Returned))\<rparr>)"
| sem_wait: "w < n \<Longrightarrow> sm_pc s w = SemWait \<Longrightarrow> 0 < sm_value s \<Longrightarrow>
    sem_worker_step n s w (s\<lparr>sm_pc := (sm_pc s)(w := Acquired), sm_value := sm_value s - 1\<rparr>)"
| check: "w < n \<Longrightarrow> sm_pc s w = Acquired \<Longrightarrow>
    sem_worker_step n s w (s\<lparr>sm_pc := (sm_pc s)(w := (if sm_running s then Accepting else PostBreak))\<rparr>)"
| accept: "w < n \<Longrightarrow> sm_pc s w = Accepting \<Longrightarrow> least_free (sm_fds s) fd \<Longrightarrow>
    sem_worker_step n s w (s\<lparr>sm_pc := (sm_pc s)(w := Handling fd (sm_accepted s)),
      sm_fds := (sm_fds s)(fd \<mapsto> Some (sm_accepted s)), sm_accepted := sm_accepted s + 1\<rparr>)"
| accept_failed: "w < n \<Longrightarrow> sm_pc s w = Accepting \<Longrightarrow>
    sem_worker_step n s w (s\<lparr>sm_pc := (sm_pc s)(w := Posting)\<rparr>)"
| handler_closes: "w < n \<Longrightarrow> sm_pc s w = Handling fd c \<Longrightarrow>
    sem_worker_step n s w (s\<lparr>sm_pc := (sm_pc s)(w := Handled fd), sm_fds := (sm_fds s)(fd := None)\<rparr>)"
| worker_closes: "w < n \<Longrightarrow> sm_pc s w = Handled fd \<Longrightarrow>
    sem_worker_step n s w (s\<lparr>sm_pc := (sm_pc s)(w := Posting), sm_fds := (sm_fds s)(fd := None)\<rparr>)"
| sem_post: "w < n \<Longrightarrow> sm_pc s w = Posting \<Longrightarrow>
    sem_worker_step n s w (s\<lparr>sm_pc := (sm_pc s)(w := LoopTest), sm_value := sm_value s + 1\<rparr>)"
| post_break: "w < n \<Longrightarrow> sm_pc s w = PostBreak \<Longrightarrow>
    sem_worker_step n s w (s\<lparr>sm_pc := (sm_pc s)(w := Returned), sm_value := sm_value s + 1\<rparr>)"

text \<open>\<open>sigint_handler\<close> may run at any time.\<close>

definition sigint_handler :: "sem_server \<Rightarrow> sem_server" where
  "sigint_handler s = s\<lparr>sm_running := False\<rparr>"

inductive sem_reach :: "nat \<Rightarrow> sem_server \<Rightarrow> bool" for n where
  sem_start: "sem_reach n (sem_init n)"
| worker_steps: "sem_reach n s \<Longrightarrow> sem_worker_step n s w s' \<Longrightarrow> sem_reach n s'"
| signal: "sem_reach n s \<Longrightarrow> sem_reach n (sigint_handler s)"

inductive_cases sem_worker_stepE: "sem_worker_step n s w s'"

text \<open>After the loop \<open>start\<close> joins all threads.\<close>

definition start_returns :: "nat \<Rightarrow> sem_server \<Rightarrow> bool" where
  "start_returns n s = (\<forall>w < n. sm_pc s w = Returned)"

subsection \<open>The semaphore\<close>

fun holds_sem :: "sem_worker \<Rightarrow> nat" where
  "holds_sem LoopTest = 0"
| "holds_sem SemWait = 0"
| "holds_sem Returned = 0"
| "holds_sem _ = 1"

definition holders :: "nat \<Rightarrow> (nat \<Rightarrow> sem_worker) \<Rightarrow> nat" where
  "holders n f = (\<Sum>w < n. holds_sem (f w))"

lemma holders_upd: "w < n \<Longrightarrow> holders n (f(w := x)) + holds_sem (f w) = holders n f + holds_sem x"
  unfolding holders_def by (rule sum_fun_upd)

lemma balance_step:
  assumes "sem_worker_step n s w s'"
  shows "sm_value s' + holders n (sm_pc s') = sm_value s + holders n (sm_pc s)"
proof -
  have w: "w < n" using assms by (cases rule: sem_worker_step.cases)
  obtain x where x: "sm_pc s' = (sm_pc s)(w := x)"
    "sm_value s' + holds_sem x = sm_value s + holds_sem (sm_pc s w)"
    using assms by (cases rule: sem_worker_step.cases) auto
  from holders_upd [OF w, of "sm_pc s" x] x show ?thesis by simp
qed

lemma sem_balance:
  assumes "sem_reach n s"
  shows "sm_value s + holders n (sm_pc s) = n"
  using assms
proof (induction rule: sem_reach.induct)
  case sem_start
  show ?case by (simp add: sem_init_def holders_def)
next
  case (worker_steps s w s')
  then show ?case using balance_step by simp
next
  case (signal s)
  then show ?case by (simp add: sigint_handler_def)
qed

lemma holders_less:
  assumes "w < n" "holds_sem (f w) = 0"
  shows "holders n f < n"
proof -
  have le: "holds_sem x \<le> 1" for x by (cases x) auto
  have "holders n f + 1 = holders n (f(w := Acquired))" using holders_upd [OF assms(1), of f Acquired] assms(2) by simp
  also have "\<dots> \<le> (\<Sum>v < n. 1)" unfolding holders_def by (intro sum_mono le)
  finally show ?thesis by simp
qed

subsection \<open>Stopping\<close>

text \<open>How many steps a worker has left once the flag is cleared.\<close>

fun steps_left :: "sem_worker \<Rightarrow> nat" where
  "steps_left Returned = 0"
| "steps_left LoopTest = 1"
| "steps_left PostBreak = 1"
| "steps_left Posting = 2"
| "steps_left Acquired = 2"
| "steps_left SemWait = 3"
| "steps_left (Handled fd) = 3"
| "steps_left (Handling fd c) = 4"
| "steps_left Accepting = 5"

definition work_left :: "nat \<Rightarrow> sem_server \<Rightarrow> nat" where
  "work_left n s = (\<Sum>w < n. steps_left (sm_pc s w))"

lemma stop_step:
  assumes "sem_worker_step n s w s'" "\<not> sm_running s"
  shows "work_left n s' + 1 \<le> work_left n s \<and> \<not> sm_running s'"
proof -
  have w: "w < n" using assms(1) by (cases rule: sem_worker_step.cases)
  obtain x where x: "sm_pc s' = (sm_pc s)(w := x)" "steps_left x + 1 \<le> steps_left (sm_pc s w)" "\<not> sm_running s'"
    using assms by (cases rule: sem_worker_step.cases) auto
  from sum_fun_upd [OF w, of steps_left "sm_pc s" x] x show ?thesis by (simp add: work_left_def)
qed

inductive sem_run :: "nat \<Rightarrow> sem_server \<Rightarrow> nat \<Rightarrow> sem_server \<Rightarrow> bool" for n where
  run_refl: "sem_run n s 0 s"
| run_step: "sem_run n s k s' \<Longrightarrow> sem_worker_step n s' w s'' \<Longrightarrow> sem_run n s (Suc k) s''"

interpretation sem_stop: bounded_runs "\<lambda>s s'. \<exists>w. sem_worker_step n s w s'" "\<lambda>s. \<not> sm_running s" "work_left n" for n
  by unfold_locales (auto dest: stop_step)

lemma sem_run_steps: "sem_run n s k s' \<Longrightarrow> ((\<lambda>s s'. \<exists>w. sem_worker_step n s w s') ^^ k) s s'"
  by (induction rule: sem_run.induct) auto

lemma stop_run:
  assumes "sem_run n s k s'" "\<not> sm_running s"
  shows "work_left n s' + k \<le> work_left n s \<and> \<not> sm_running s'"
  using sem_stop.run_bound [OF sem_run_steps [OF assms(1)] assms(2)] by simp

lemma work_bound: "work_left n s \<le> 5 * n"
proof -
  have le: "steps_left x \<le> 5" for x by (cases x) auto
  have "work_left n s \<le> (\<Sum>w < n. 5)" unfolding work_left_def by (intro sum_mono le)
  then show ?thesis by simp
qed

lemma run_reach: "sem_run n s k s' \<Longrightarrow> sem_reach n s \<Longrightarrow> sem_reach n s'"
  by (induction rule: sem_run.induct) (auto intro: worker_steps)

text \<open>
  Every worker that has not returned has a next step: \<open>sem_wait\<close> finds the semaphore positive. (In
  \<open>accept\<close> and in the handler it is taken when the call returns.)
\<close>

lemma worker_progress:
  assumes "sem_reach n s" "w < n" "sm_pc s w \<noteq> Returned"
  shows "\<exists>s'. sem_worker_step n s w s'"
proof (cases "sm_pc s w")
  case LoopTest
  then show ?thesis using loop [OF assms(2)] by blast
next
  case SemWait
  then have "holders n (sm_pc s) < n" using holders_less [OF assms(2), of "sm_pc s"] by simp
  then have "0 < sm_value s" using sem_balance [OF assms(1)] by simp
  with SemWait show ?thesis using sem_wait [OF assms(2)] by blast
next
  case Acquired
  then show ?thesis using check [OF assms(2)] by blast
next
  case Accepting
  then show ?thesis using accept_failed [OF assms(2)] by blast
next
  case (Handling fd c)
  then show ?thesis using handler_closes [OF assms(2)] by blast
next
  case (Handled fd)
  then show ?thesis using worker_closes [OF assms(2)] by blast
next
  case Posting
  then show ?thesis using sem_post [OF assms(2)] by blast
next
  case PostBreak
  then show ?thesis using post_break [OF assms(2)] by blast
next
  case Returned
  with assms(3) show ?thesis by simp
qed

subsection \<open>Descriptors\<close>

text \<open>Whole sequences of steps of one worker while the server runs.\<close>

abbreviation up :: "(nat \<Rightarrow> sem_worker) \<Rightarrow> nat \<Rightarrow> (nat \<rightharpoonup> nat option) \<Rightarrow> nat \<Rightarrow> sem_server" where
  "up f v F a \<equiv> \<lparr>sm_pc = f, sm_value = v, sm_running = True, sm_fds = F, sm_accepted = a\<rparr>"

lemma reach_accept:
  assumes "sem_reach n (up f (Suc v) F a)" "w < n" "f w = LoopTest" "least_free F fd"
  shows "sem_reach n (up (f(w := Handling fd a)) v (F(fd \<mapsto> Some a)) (a + 1))"
proof -
  have 1: "sem_reach n (up (f(w := SemWait)) (Suc v) F a)"
    using worker_steps [OF assms(1) loop [OF assms(2)]] assms(3) by simp
  have 2: "sem_reach n (up (f(w := Acquired)) v F a)"
    using worker_steps [OF 1 sem_wait [OF assms(2)]] by simp
  have 3: "sem_reach n (up (f(w := Accepting)) v F a)"
    using worker_steps [OF 2 check [OF assms(2)]] by simp
  show ?thesis using worker_steps [OF 3 accept [OF assms(2), of _ fd]] assms(4) by simp
qed

lemma reach_close:
  assumes "sem_reach n (up f v F a)" "w < n" "f w = Handling fd c"
  shows "sem_reach n (up (f(w := Handled fd)) v (F(fd := None)) a)"
  using worker_steps [OF assms(1) handler_closes [OF assms(2)]] assms(3) by simp

lemma reach_post:
  assumes "sem_reach n (up f v F a)" "w < n" "f w = Handled fd"
  shows "sem_reach n (up (f(w := LoopTest)) (v + 1) (F(fd := None)) a)"
proof -
  have 1: "sem_reach n (up (f(w := Posting)) v (F(fd := None)) a)"
    using worker_steps [OF assms(1) worker_closes [OF assms(2)]] assms(3) by simp
  show ?thesis using worker_steps [OF 1 sem_post [OF assms(2)]] by simp
qed

lemma crossed_clients:
  assumes "2 \<le> n"
  shows "\<exists>s. sem_reach n s \<and> sm_pc s 0 = Handling 4 2 \<and> sm_pc s 1 = Handling 4 1 \<and> sm_fds s 4 = Some (Some 2)"
proof -
  define F :: "nat \<rightharpoonup> nat option" where "F = (\<lambda>fd. if fd < 4 then Some None else None)"
  have F: "F(4 := None) = F" "least_free F 4" by (auto simp: F_def least_free_def)
  obtain v where v: "n = Suc (Suc v)" using assms by (metis Suc_le_D numeral_2_eq_2 Suc_le_mono)
  then have n: "0 < n" "1 < n" by simp_all
  have "sem_reach n (up (\<lambda>_. LoopTest) n F 0)" using sem_start [of n] by (simp add: sem_init_def F_def)
  then have "sem_reach n (up ((\<lambda>_. LoopTest)(0 := Handling 4 0)) (Suc v) (F(4 \<mapsto> Some 0)) (0 + 1))"
    using reach_accept n(1) F(2) v by blast
  from reach_close [OF this n(1), of 4 0]
  have "sem_reach n (up ((\<lambda>_. LoopTest)(0 := Handled 4)) (Suc v) F 1)" using F(1) by simp
  from reach_accept [OF this n(2) _ F(2)]
  have "sem_reach n (up ((\<lambda>_. LoopTest)(0 := Handled 4, 1 := Handling 4 1)) v (F(4 \<mapsto> Some 1)) 2)"
    by (simp add: numeral_2_eq_2)
  from reach_post [OF this n(1), of 4]
  have "sem_reach n (up ((\<lambda>_. LoopTest)(0 := Handled 4, 1 := Handling 4 1, 0 := LoopTest)) (Suc v) F 2)" using F(1) by simp
  from reach_accept [OF this n(1) _ F(2)] show ?thesis by fastforce
qed

text \<open>With one worker the descriptor of the connection it handles names that connection.\<close>

lemma single_worker_owns:
  assumes "sem_reach 1 s"
  shows "sm_pc s 0 = Handling fd c \<Longrightarrow> sm_fds s fd = Some (Some c)"
  using assms
proof (induction arbitrary: fd c rule: sem_reach.induct)
  case sem_start
  then show ?case by (simp add: sem_init_def)
next
  case (worker_steps s w s')
  from worker_steps.hyps(2) worker_steps.prems show ?case
    by (cases rule: sem_worker_step.cases) (auto split: if_splits)
next
  case (signal s)
  then show ?case by (simp add: sigint_handler_def)
qed

subsection \<open>How many more connections are accepted\<close>

fun may_accept :: "sem_worker \<Rightarrow> nat" where
  "may_accept Accepting = 1"
| "may_accept _ = 0"

definition accepts_left :: "nat \<Rightarrow> sem_server \<Rightarrow> nat" where
  "accepts_left n s = (\<Sum>w < n. may_accept (sm_pc s w))"

lemma accepts_step:
  assumes "sem_worker_step n s w s'" "\<not> sm_running s"
  shows "sm_accepted s' + accepts_left n s' \<le> sm_accepted s + accepts_left n s"
proof -
  have w: "w < n" using assms(1) by (cases rule: sem_worker_step.cases)
  obtain x where x: "sm_pc s' = (sm_pc s)(w := x)"
    "sm_accepted s' + may_accept x \<le> sm_accepted s + may_accept (sm_pc s w)"
    using assms by (cases rule: sem_worker_step.cases) auto
  from sum_fun_upd [OF w, of may_accept "sm_pc s" x] x show ?thesis by (simp add: accepts_left_def)
qed

lemma accepts_run:
  assumes "sem_run n s k s'" "\<not> sm_running s"
  shows "sm_accepted s' + accepts_left n s' \<le> sm_accepted s + accepts_left n s"
  using assms
proof (induction rule: sem_run.induct)
  case (run_step s k s' w s'')
  then have "\<not> sm_running s'" using stop_run by blast
  with run_step accepts_step [of n s' w s''] show ?case by simp
qed simp

lemma accepts_bound: "accepts_left n s \<le> n"
proof -
  have le: "may_accept x \<le> 1" for x by (cases x) auto
  have "accepts_left n s \<le> (\<Sum>w < n. 1)" unfolding accepts_left_def by (intro sum_mono le)
  then show ?thesis by simp
qed

subsection \<open>Properties\<close>

text \<open>C34. The semaphore admits exactly as many threads as there are, so \<open>sem_wait\<close> never
  blocks: in every reachable state its value plus the number of workers between their wait and
  their post is the number of threads, and a worker that is about to wait finds it positive.\<close>

theorem semaphore_never_blocks:
  assumes "sem_reach n s"
  shows "sm_value s + holders n (sm_pc s) = n \<and> (\<forall>w < n. sm_pc s w = SemWait \<longrightarrow> 0 < sm_value s)"
proof -
  have "sm_value s + holders n (sm_pc s) = n" by (rule sem_balance [OF assms])
  then show ?thesis using holders_less [of _ n "sm_pc s"] by fastforce
qed

theorem semaphore_never_blocks_witness:
  "\<exists>s. sem_reach 3 s \<and> sm_pc s 1 = SemWait \<and> 0 < sm_value s"
proof -
  have "sem_reach 3 ((sem_init 3)\<lparr>sm_pc := (sm_pc (sem_init 3))(1 := SemWait)\<rparr>)" (is "sem_reach 3 ?s")
    using worker_steps [OF sem_start loop [of 1 3]] by (simp add: sem_init_def)
  moreover have "0 < sm_value ?s"
    using semaphore_never_blocks [OF calculation, THEN conjunct2, rule_format, of 1] by simp
  ultimately show ?thesis by (intro exI [of _ ?s]) simp
qed

lemma stops_after_signal:
  assumes "sem_reach n s" "sem_run n (sigint_handler s) k s'"
  shows "k \<le> 5 * n \<and> sm_accepted s' \<le> sm_accepted s + n \<and>
    ((\<forall>w s''. \<not> sem_worker_step n s' w s'') \<longrightarrow> start_returns n s' \<and> sm_value s' = n)"
proof -
  have r: "sem_reach n s'" using run_reach [OF assms(2) signal [OF assms(1)]] .
  have stopped: "\<not> sm_running (sigint_handler s)" by (simp add: sigint_handler_def)
  have acc: "sm_accepted s' \<le> sm_accepted s + n"
    using accepts_run [OF assms(2) stopped] accepts_bound [of n "sigint_handler s"]
    by (simp add: sigint_handler_def)
  have end_state: "start_returns n s' \<and> sm_value s' = n" if "\<forall>w s''. \<not> sem_worker_step n s' w s''"
  proof -
    have ret: "start_returns n s'" using worker_progress [OF r] that unfolding start_returns_def by blast
    then have "holders n (sm_pc s') = 0" by (simp add: start_returns_def holders_def)
    with ret sem_balance [OF r] show ?thesis by simp
  qed
  show ?thesis using stop_run [OF assms(2) stopped] work_bound [of n "sigint_handler s"] acc end_state by auto
qed

text \<open>The server stops after SIGINT, if \<open>accept\<close> and the handlers return: once the flag is cleared
  the n workers together take at most 5 n more steps, in whatever order, and accept at most one
  more connection each; a state in which no worker has a step left has all of them returned, so
  that \<open>start\<close> returns, and the semaphore back at n. What happens when some calls never return is
  in \<open>Semaphore_Site\<close>.\<close>

theorem sigint_stops_server:
  assumes "sem_reach n s" "sem_run n (sigint_handler s) k s'"
  shows "k \<le> 5 * n \<and> sm_accepted s' \<le> sm_accepted s + n \<and>
    ((\<forall>w s''. \<not> sem_worker_step n s' w s'') \<longrightarrow> start_returns n s' \<and> sm_value s' = n)"
  by (rule stops_after_signal [OF assms])

theorem sigint_stops_server_witness:
  "\<exists>s'. sem_run 1 (sigint_handler (sem_init 1)) 1 s' \<and> start_returns 1 s' \<and> (1::nat) \<le> 5 * 1"
proof -
  define s' where "s' = (sigint_handler (sem_init 1))\<lparr>sm_pc := (\<lambda>_. LoopTest)(0 := Returned)\<rparr>"
  have "sem_worker_step 1 (sigint_handler (sem_init 1)) 0 s'"
    using loop [of 0 1 "sigint_handler (sem_init 1)"] by (simp add: sigint_handler_def sem_init_def s'_def)
  then have run: "sem_run 1 (sigint_handler (sem_init 1)) 1 s'"
    using run_step [OF run_refl] by fastforce
  have "\<not> sem_worker_step 1 s' w s''" for w s''
    by (auto elim!: sem_worker_stepE simp: s'_def)
  then have "start_returns 1 s'" using sigint_stops_server [OF sem_start run] by blast
  with run sigint_stops_server [OF sem_start run] show ?thesis by auto
qed

text \<open>Closing a connection twice: \<open>datafromclient\<close> closes the client's socket and
  \<open>workerThread\<close> closes the same number again. With one worker the descriptor it uses always
  names the connection it accepted; with two or more another thread can have been given the
  number in between, and a worker then writes its reply to the client of another one. The
  descriptors are safe exactly for a server with at most one thread.\<close>

theorem double_close_crosses_clients:
  "(\<forall>s w fd c. sem_reach n s \<longrightarrow> w < n \<longrightarrow> sm_pc s w = Handling fd c \<longrightarrow> sm_fds s fd = Some (Some c)) \<longleftrightarrow> n \<le> 1"
proof
  assume safe: "\<forall>s w fd c. sem_reach n s \<longrightarrow> w < n \<longrightarrow> sm_pc s w = Handling fd c \<longrightarrow> sm_fds s fd = Some (Some c)"
  show "n \<le> 1"
  proof (rule ccontr)
    assume "\<not> n \<le> 1"
    then have n: "2 \<le> n" "1 < n" by simp_all
    from crossed_clients [OF n(1)] safe n(2) show False by fastforce
  qed
next
  assume "n \<le> 1"
  then consider "n = 0" | "n = 1" by linarith
  then show "\<forall>s w fd c. sem_reach n s \<longrightarrow> w < n \<longrightarrow> sm_pc s w = Handling fd c \<longrightarrow> sm_fds s fd = Some (Some c)"
    using single_worker_owns by cases auto
qed

theorem double_close_crosses_clients_witness:
  "\<exists>s w fd c. sem_reach 25 s \<and> w < 25 \<and> sm_pc s w = Handling fd c \<and> sm_fds s fd \<noteq> Some (Some c)"
  using double_close_crosses_clients [of 25] by auto

end
