(* ===== verification/Semaphore_Site.thy ===== *)
theory Semaphore_Site
  imports Working_Set Semaphore_Server
begin

text \<open>
  \<open>SemaphoreServer\<close> at work: its workers (\<open>Semaphore_Server\<close>) run the handlers (\<open>Shared_Cache\<close>).
  A handler reads its request from, and writes its response to, whatever connection its
  descriptor names at that time. \<open>url\<close> gives host and path of the request a client sends, or
  \<open>None\<close> when it does not parse.
\<close>

subsection \<open>States and steps\<close>

text \<open>\<open>st_ended\<close>: the handler of this worker is about to close its descriptor. \<open>delivered\<close> records
  each response with the connection it was written to.\<close>

record site =
  st_sem :: sem_server
  st_handlers :: shared
  st_ended :: "nat \<Rightarrow> bool"
  delivered :: "(nat \<times> block) list"
  st_exited :: bool

definition site_init :: "nat \<Rightarrow> cache \<Rightarrow> site" where
  "site_init n c = \<lparr>st_sem = sem_init n, st_handlers = shared_init c, st_ended = (\<lambda>_. False),
     delivered = [], st_exited = False\<rparr>"

text \<open>The connection a descriptor names.\<close>

definition peer :: "site \<Rightarrow> nat \<Rightarrow> nat option" where
  "peer s fd = (case sm_fds (st_sem s) fd of None \<Rightarrow> None | Some x \<Rightarrow> x)"

definition deliver :: "site \<Rightarrow> nat \<Rightarrow> shared \<Rightarrow> (nat \<times> block) list" where
  "deliver s fd h = (if sent h = sent (st_handlers s) then [] else
     (case peer s fd of None \<Rightarrow> [] | Some d \<Rightarrow> [(d, snd (hd (sent h)))]))"

text \<open>
  \<open>recv\<close> on a descriptor that is closed fails, and then the handler calls \<open>exit\<close> as it does for a
  request that does not parse. A response that is written to a closed descriptor is lost.
\<close>

inductive site_move ::
  "platform \<Rightarrow> (string \<Rightarrow> block) \<Rightarrow> nat \<Rightarrow> (nat \<Rightarrow> string option) \<Rightarrow> site \<Rightarrow> nat \<Rightarrow> site \<Rightarrow> bool"
  for lib origin n url where
  worker_moves: "\<not> st_exited s \<Longrightarrow> sem_worker_step n (st_sem s) w p \<Longrightarrow>
    (\<And>fd c. sm_pc (st_sem s) w \<noteq> Handling fd c) \<Longrightarrow> site_move lib origin n url s w (s\<lparr>st_sem := p\<rparr>)"
| handler_reads: "\<not> st_exited s \<Longrightarrow> sm_pc (st_sem s) w = Handling fd c \<Longrightarrow> \<not> st_ended s w \<Longrightarrow>
    sh_pc (st_handlers s) w = Ready \<Longrightarrow> peer s fd = Some d \<Longrightarrow> url d = Some u \<Longrightarrow>
    shared_step lib origin n (st_handlers s) w h \<Longrightarrow> sh_pc h w = Parsed u \<Longrightarrow>
    site_move lib origin n url s w (s\<lparr>st_handlers := h\<rparr>)"
| handler_exits: "\<not> st_exited s \<Longrightarrow> w < n \<Longrightarrow> sm_pc (st_sem s) w = Handling fd c \<Longrightarrow> \<not> st_ended s w \<Longrightarrow>
    sh_pc (st_handlers s) w = Ready \<Longrightarrow> (\<And>d. peer s fd = Some d \<Longrightarrow> url d = None) \<Longrightarrow>
    site_move lib origin n url s w (s\<lparr>st_exited := True\<rparr>)"
| handler_works: "\<not> st_exited s \<Longrightarrow> sm_pc (st_sem s) w = Handling fd c \<Longrightarrow>
    sh_pc (st_handlers s) w \<noteq> Ready \<Longrightarrow> shared_step lib origin n (st_handlers s) w h \<Longrightarrow> sh_pc h w \<noteq> Ready \<Longrightarrow>
    site_move lib origin n url s w (s\<lparr>st_handlers := h\<rparr>)"
| handler_answers: "\<not> st_exited s \<Longrightarrow> sm_pc (st_sem s) w = Handling fd c \<Longrightarrow>
    sh_pc (st_handlers s) w \<noteq> Ready \<Longrightarrow> shared_step lib origin n (st_handlers s) w h \<Longrightarrow> sh_pc h w = Ready \<Longrightarrow>
    site_move lib origin n url s w (s\<lparr>st_handlers := h, st_ended := (st_ended s)(w := True),
      delivered := deliver s fd h @ delivered s\<rparr>)"
| closes_client: "\<not> st_exited s \<Longrightarrow> sm_pc (st_sem s) w = Handling fd c \<Longrightarrow> st_ended s w \<Longrightarrow>
    sem_worker_step n (st_sem s) w p \<Longrightarrow>
    site_move lib origin n url s w (s\<lparr>st_sem := p, st_ended := (st_ended s)(w := False)\<rparr>)"

text \<open>
  The workers that wait for a peer: in \<open>accept\<close>, for a client that has yet to send its request or to
  read its response, or for an origin server. \<open>accept\<close>, \<open>recv\<close> and \<open>send\<close> block until the peer acts,
  which it may never do; \<open>signal\<close> makes \<open>accept\<close> go on after SIGINT.
\<close>

definition waits :: "nat \<Rightarrow> site \<Rightarrow> nat set" where
  "waits n s = {w. w < n \<and> (sm_pc (st_sem s) w = Accepting \<or>
     (\<exists>fd c. sm_pc (st_sem s) w = Handling fd c) \<and> \<not> st_ended s w \<and> waits_for_peer (sh_pc (st_handlers s) w))}"

text \<open>The moves of all workers; and the server at rest but for the workers W.\<close>

definition site_moves ::
  "platform \<Rightarrow> (string \<Rightarrow> block) \<Rightarrow> nat \<Rightarrow> (nat \<Rightarrow> string option) \<Rightarrow> site \<Rightarrow> site \<Rightarrow> bool" where
  "site_moves lib origin n url s s' = (\<exists>w. site_move lib origin n url s w s')"

definition site_rest ::
  "platform \<Rightarrow> (string \<Rightarrow> block) \<Rightarrow> nat \<Rightarrow> (nat \<Rightarrow> string option) \<Rightarrow> nat set \<Rightarrow> site \<Rightarrow> bool" where
  "site_rest lib origin n url W s = (\<forall>w s'. site_move lib origin n url s w s' \<longrightarrow> w \<in> W)"

text \<open>SIGINT may come at any time.\<close>

inductive site_step ::
  "platform \<Rightarrow> (string \<Rightarrow> block) \<Rightarrow> nat \<Rightarrow> (nat \<Rightarrow> string option) \<Rightarrow> site \<Rightarrow> site \<Rightarrow> bool"
  for lib origin n url where
  moves: "site_move lib origin n url s w s' \<Longrightarrow> site_step lib origin n url s s'"
| interrupt: "\<not> st_exited s \<Longrightarrow> site_step lib origin n url s (s\<lparr>st_sem := sigint_handler (st_sem s)\<rparr>)"

inductive site_reach ::
  "platform \<Rightarrow> (string \<Rightarrow> block) \<Rightarrow> nat \<Rightarrow> (nat \<Rightarrow> string option) \<Rightarrow> cache \<Rightarrow> site \<Rightarrow> bool"
  for lib origin n url c0 where
  site_start: "site_reach lib origin n url c0 (site_init n c0)"
| site_next: "site_reach lib origin n url c0 s \<Longrightarrow> site_step lib origin n url s s' \<Longrightarrow>
    site_reach lib origin n url c0 s'"

inductive_cases site_moveE: "site_move lib origin n url s w s'"
inductive_cases site_stepE: "site_step lib origin n url s s'"

lemma site_sem: "site_reach lib origin n url c0 s \<Longrightarrow> sem_reach n (st_sem s)"
proof (induction rule: site_reach.induct)
  case site_start
  then show ?case by (simp add: site_init_def sem_start)
next
  case (site_next s s')
  then show ?case by (auto elim!: site_stepE site_moveE intro: worker_steps signal)
qed

lemma sem_step_local:
  assumes "sem_worker_step n p w p'"
  shows "w < n" "v \<noteq> w \<Longrightarrow> sm_pc p' v = sm_pc p v"
  using assms by (auto elim: sem_worker_stepE)

subsection \<open>The handlers and the cache\<close>

text \<open>A handler is busy only inside \<open>datafromclient\<close>, until its response is written.\<close>

definition busy_inside :: "site \<Rightarrow> nat \<Rightarrow> bool" where
  "busy_inside s w = (sh_pc (st_handlers s) w \<noteq> Ready \<longrightarrow> \<not> st_ended s w \<and> (\<exists>fd c. sm_pc (st_sem s) w = Handling fd c))"

lemma inside_move:
  assumes "site_move lib origin n url s w s'" "\<And>w. busy_inside s w"
  shows "busy_inside s' v"
  using assms(1)
proof (cases rule: site_move.cases)
  case (worker_moves p)
  then show ?thesis using assms(2) [of v] sem_step_local(2) [OF worker_moves(3), of v]
    by (cases "v = w") (auto simp: busy_inside_def)
next
  case (closes_client fd c p)
  then show ?thesis using assms(2) [of v] sem_step_local(2) [OF closes_client(5), of v]
    by (cases "v = w") (auto simp: busy_inside_def)
next
  case (handler_reads fd c d u h)
  then show ?thesis using assms(2) [of v] shared_step_local(2) [OF handler_reads(8), of v]
    by (cases "v = w") (auto simp: busy_inside_def)
next
  case (handler_works fd c h)
  then show ?thesis using assms(2) [of v] shared_step_local(2) [OF handler_works(5), of v]
    by (cases "v = w") (auto simp: busy_inside_def)
next
  case (handler_answers fd c h)
  then show ?thesis using assms(2) [of v] shared_step_local(2) [OF handler_answers(5), of v]
    by (cases "v = w") (auto simp: busy_inside_def)
qed (use assms(2) [of v] in \<open>simp add: busy_inside_def\<close>)

text \<open>What the handlers ask for is in U, whatever their descriptors name.\<close>

lemma fits_move:
  assumes "site_move lib origin n url s w s'" "fits lib origin U (st_handlers s)" "\<And>t. set_option (url t) \<subseteq> U"
  shows "fits lib origin U (st_handlers s')"
  using assms(1)
proof (cases rule: site_move.cases)
  case (handler_reads fd c d u h)
  then show ?thesis using fits_step(1) [OF handler_reads(8) assms(2)] assms(3) [of d] by simp
next
  case (handler_works fd c h)
  then show ?thesis using fits_step(1) [OF handler_works(5) assms(2)] by simp
next
  case (handler_answers fd c h)
  then show ?thesis using fits_step(1) [OF handler_answers(5) assms(2)] by simp
qed (use assms(2) in simp_all)

lemma site_handlers:
  assumes "site_reach lib origin n url c0 s" "roomy lib url c0 U"
  shows "fits lib origin U (st_handlers s) \<and> (\<forall>w. busy_inside s w)"
  using assms(1)
proof (induction rule: site_reach.induct)
  case site_start
  then show ?case using assms(2)
    by (simp add: site_init_def shared_init_def fits_def busy_inside_def strategy.faithful_def roomy_def)
next
  case (site_next s s')
  have u: "set_option (url t) \<subseteq> U" for t using assms(2) by (simp add: roomy_def)
  from site_next.hyps(2) show ?case
  proof (cases rule: site_step.cases)
    case moves
    with fits_move [OF moves _ u] inside_move [OF moves] site_next.IH show ?thesis by blast
  next
    case interrupt
    with site_next.IH show ?thesis by (simp add: busy_inside_def sigint_handler_def)
  qed
qed

subsection \<open>One worker\<close>

text \<open>The request that the handler of a single worker has is that of the connection it was accepted for.\<close>

definition own_request :: "(nat \<Rightarrow> string option) \<Rightarrow> site \<Rightarrow> bool" where
  "own_request url s = (\<forall>fd c. sm_pc (st_sem s) 0 = Handling fd c \<longrightarrow> sh_pc (st_handlers s) 0 \<noteq> Ready \<longrightarrow>
     url c = handler_url (sh_pc (st_handlers s) 0))"

definition right_deliveries :: "(string \<Rightarrow> block) \<Rightarrow> (nat \<Rightarrow> string option) \<Rightarrow> site \<Rightarrow> bool" where
  "right_deliveries origin url s = (\<forall>(d, b) \<in> set (delivered s). \<exists>u. url d = Some u \<and> b = origin u)"

lemma one_worker_owns:
  assumes "site_reach lib origin 1 url c0 s" "sm_pc (st_sem s) 0 = Handling fd c"
  shows "peer s fd = Some c"
  using single_worker_owns [OF site_sem [OF assms(1)] assms(2)] by (simp add: peer_def)

lemma shared_one: "shared_step lib origin 1 h w h' \<Longrightarrow> w = 0"
  by (auto elim: shared_stepE)

lemma sem_one: "sem_worker_step 1 p w p' \<Longrightarrow> w = 0"
  by (auto elim: sem_worker_stepE)

lemma one_worker_move:
  assumes "site_move lib origin 1 url s w s'" "own_request url s" "right_deliveries origin url s"
    and "fits lib origin U (st_handlers s)" "busy_inside s 0"
    and peer: "\<And>fd c. sm_pc (st_sem s) 0 = Handling fd c \<Longrightarrow> peer s fd = Some c"
  shows "own_request url s' \<and> right_deliveries origin url s'"
  using assms(1)
proof (cases rule: site_move.cases)
  case (worker_moves p)
  have "sh_pc (st_handlers s) 0 = Ready"
    using assms(5) worker_moves(4) sem_one [OF worker_moves(3)] by (auto simp: busy_inside_def)
  with worker_moves assms(3) show ?thesis by (simp add: own_request_def right_deliveries_def)
next
  case (handler_reads fd c d u h)
  note w = shared_one [OF handler_reads(8)]
  have "d = c" using peer [of fd c] handler_reads(3,6) w by simp
  then show ?thesis using handler_reads w assms(3) by (simp add: own_request_def right_deliveries_def)
next
  case (handler_exits fd c)
  with assms(2,3) show ?thesis by (simp add: own_request_def right_deliveries_def)
next
  case (handler_works fd c h)
  note w = shared_one [OF handler_works(5)]
  show ?thesis using handler_url_kept [OF handler_works(5,4,6)] handler_works w assms(2,3) by (simp add: own_request_def right_deliveries_def)
next
  case (handler_answers fd c h)
  note w = shared_one [OF handler_answers(5)]
  have u: "url c = handler_url (sh_pc (st_handlers s) w)"
    using assms(2) handler_answers(3,4) w by (simp add: own_request_def)
  have "\<exists>u. url d = Some u \<and> b = origin u" if "(d, b) \<in> set (deliver s fd h)" for d b
    using that fits_step(2) [OF handler_answers(5) assms(4)] handler_answers(3,4) u peer [of fd c] w
    by (auto simp: deliver_def split: if_splits)
  with assms(3) handler_answers w show ?thesis by (auto simp: own_request_def right_deliveries_def)
next
  case (closes_client fd c p)
  have "sh_pc (st_handlers s) 0 = Ready"
    using assms(5) closes_client(4) sem_one [OF closes_client(5)] by (auto simp: busy_inside_def)
  with closes_client assms(3) show ?thesis by (simp add: own_request_def right_deliveries_def)
qed

lemma one_worker_inv:
  assumes "site_reach lib origin 1 url c0 s" "roomy lib url c0 U"
  shows "own_request url s \<and> right_deliveries origin url s"
  using assms(1)
proof (induction rule: site_reach.induct)
  case site_start
  then show ?case by (simp add: site_init_def shared_init_def own_request_def right_deliveries_def)
next
  case (site_next s s')
  from site_next.hyps(2) show ?case
  proof (cases rule: site_step.cases)
    case moves
    with one_worker_move [OF moves] site_next.IH site_handlers [OF site_next.hyps(1) assms(2)]
      one_worker_owns [OF site_next.hyps(1)] show ?thesis by blast
  next
    case interrupt
    with site_next.IH show ?thesis by (simp add: own_request_def right_deliveries_def sigint_handler_def)
  qed
qed

subsection \<open>Stopping\<close>

text \<open>How many steps a worker with its handler, and the whole server, have left once the flag is cleared.\<close>

fun site_rank :: "sem_worker \<Rightarrow> bool \<Rightarrow> handler \<Rightarrow> nat" where
  "site_rank (Handling fd c) ended h = (if ended then 4 else case h of Ready \<Rightarrow> 7 | Parsed u \<Rightarrow> 6 | _ \<Rightarrow> 5)"
| "site_rank Accepting ended h = 8"
| "site_rank x ended h = steps_left x"

definition site_left :: "nat \<Rightarrow> site \<Rightarrow> nat" where
  "site_left n s = (if st_exited s then 0 else
     (\<Sum>w < n. site_rank (sm_pc (st_sem s) w) (st_ended s w) (sh_pc (st_handlers s) w)) + 1)"

lemma site_rank_le: "site_rank x e h \<le> 8"
  by (cases x) (auto split: handler.splits)

lemma site_left_le: "site_left n s \<le> 8 * n + 1"
  using sum_bounded_above [of "{..<n}" "\<lambda>w. site_rank (sm_pc (st_sem s) w) (st_ended s w) (sh_pc (st_handlers s) w)" 8]
  by (simp add: site_left_def site_rank_le mult.commute)

lemma site_left_change:
  assumes "w < n" "\<not> st_exited s" "\<not> st_exited s'" "\<And>v. v \<noteq> w \<Longrightarrow> sm_pc (st_sem s') v = sm_pc (st_sem s) v \<and>
      st_ended s' v = st_ended s v \<and> sh_pc (st_handlers s') v = sh_pc (st_handlers s) v"
    and "site_rank (sm_pc (st_sem s') w) (st_ended s' w) (sh_pc (st_handlers s') w) <
      site_rank (sm_pc (st_sem s) w) (st_ended s w) (sh_pc (st_handlers s) w)"
  shows "site_left n s' < site_left n s"
proof -
  have "(\<Sum>v < n. site_rank (sm_pc (st_sem s') v) (st_ended s' v) (sh_pc (st_handlers s') v)) +
      site_rank (sm_pc (st_sem s) w) (st_ended s w) (sh_pc (st_handlers s) w) =
    (\<Sum>v < n. site_rank (sm_pc (st_sem s) v) (st_ended s v) (sh_pc (st_handlers s) v)) +
      site_rank (sm_pc (st_sem s') w) (st_ended s' w) (sh_pc (st_handlers s') w)"
    by (rule sum_change [OF assms(1)]) (use assms(4) in simp)
  with assms(2,3,5) show ?thesis by (simp add: site_left_def)
qed

lemma worker_rank:
  assumes "sem_worker_step n p w p'" "\<not> sm_running p" "\<And>fd c. sm_pc p w \<noteq> Handling fd c"
  shows "site_rank (sm_pc p' w) e Ready < site_rank (sm_pc p w) e Ready"
  using assms by (cases rule: sem_worker_step.cases) auto

lemma site_move_left:
  assumes "site_move lib origin n url s w s'" "\<not> sm_running (st_sem s)" "\<And>w. busy_inside s w"
    and "fits lib origin U (st_handlers s)" "\<And>t. set_option (url t) \<subseteq> U"
  shows "site_left n s' < site_left n s" "\<not> sm_running (st_sem s')"
proof -
  note f = fits_move [OF assms(1,4,5)]
  from assms(1) have "site_left n s' < site_left n s \<and> \<not> sm_running (st_sem s')"
  proof (cases rule: site_move.cases)
    case (worker_moves p)
    note l = sem_step_local [OF worker_moves(3)]
    have r: "sh_pc (st_handlers s) w = Ready" using assms(3) [of w] worker_moves(4) by (auto simp: busy_inside_def)
    have "site_left n s' < site_left n s"
      by (rule site_left_change [OF l(1)]) (use worker_moves(1,2) l(2) r worker_rank [OF worker_moves(3) assms(2) worker_moves(4)] in simp_all)
    with stop_step [OF worker_moves(3) assms(2)] worker_moves(1) show ?thesis by simp
  next
    case (handler_reads fd c d u h)
    note l = shared_step_local [OF handler_reads(8)]
    have "site_left n s' < site_left n s"
      by (rule site_left_change [OF l(1)]) (use handler_reads l(2) in simp_all)
    with assms(2) handler_reads(1) show ?thesis by simp
  next
    case (handler_exits fd c)
    with assms(2) show ?thesis by (simp add: site_left_def)
  next
    case (handler_works fd c h)
    note l = shared_step_local [OF handler_works(5)]
    have e: "\<not> st_ended s w" using assms(3) [of w] handler_works(4) by (simp add: busy_inside_def)
    have "site_rank (Handling fd c) False (sh_pc h w) < site_rank (Handling fd c) False (sh_pc (st_handlers s) w)"
      using handler_works(5) by (cases rule: shared_step.cases) (use f handler_works(1,4,6) in \<open>auto simp: fits_def\<close>)
    with e handler_works(1-3) l(2) have "site_left n s' < site_left n s" by (intro site_left_change [OF l(1)]) simp_all
    with assms(2) handler_works(1) show ?thesis by simp
  next
    case (handler_answers fd c h)
    note l = shared_step_local [OF handler_answers(5)]
    have e: "\<not> st_ended s w" using assms(3) [of w] handler_answers(4) by (simp add: busy_inside_def)
    have "4 < site_rank (Handling fd c) False (sh_pc (st_handlers s) w)"
      by (cases "sh_pc (st_handlers s) w") simp_all
    with e handler_answers(1-3) l(2) have "site_left n s' < site_left n s" by (intro site_left_change [OF l(1)]) simp_all
    with assms(2) handler_answers(1) show ?thesis by simp
  next
    case (closes_client fd c p)
    note l = sem_step_local [OF closes_client(5)]
    have "sm_pc p w = Handled fd" using closes_client(3,5) by (auto elim: sem_worker_stepE)
    with closes_client(1-4) l(2) have "site_left n s' < site_left n s" by (intro site_left_change [OF l(1)]) simp_all
    with stop_step [OF closes_client(5) assms(2)] closes_client(1) show ?thesis by simp
  qed
  then show "site_left n s' < site_left n s" "\<not> sm_running (st_sem s')" by simp_all
qed

interpretation site_stop: bounded_runs "site_moves lib origin n url"
    "\<lambda>s. site_reach lib origin n url c0 s \<and> roomy lib url c0 U \<and> \<not> sm_running (st_sem s)" "site_left n"
  for lib origin n url c0 U
proof
  fix s s'
  assume i: "site_reach lib origin n url c0 s \<and> roomy lib url c0 U \<and> \<not> sm_running (st_sem s)"
    and "site_moves lib origin n url s s'"
  then obtain w where m: "site_move lib origin n url s w s'" by (auto simp: site_moves_def)
  have u: "set_option (url t) \<subseteq> U" for t using i by (simp add: roomy_def)
  from i site_handlers have h: "fits lib origin U (st_handlers s)" "\<And>w. busy_inside s w" by blast+
  note l = site_move_left [OF m _ h(2,1) u]
  from l(1) i show "site_left n s' < site_left n s" by simp
  from l(2) i site_next [OF _ moves [OF m]]
  show "site_reach lib origin n url c0 s' \<and> roomy lib url c0 U \<and> \<not> sm_running (st_sem s')" by blast
qed

text \<open>A worker that has not returned can always move.\<close>

lemma site_progress:
  assumes "sem_reach n (st_sem s)" "\<not> st_exited s" "w < n" "sm_pc (st_sem s) w \<noteq> Returned"
  shows "\<exists>s'. site_move lib origin n url s w s'"
proof (cases "\<exists>fd c. sm_pc (st_sem s) w = Handling fd c")
  case False
  from worker_progress [OF assms(1,3,4)] obtain p where "sem_worker_step n (st_sem s) w p" by blast
  with worker_moves [OF assms(2) this] False show ?thesis by blast
next
  case True
  then obtain fd c where h: "sm_pc (st_sem s) w = Handling fd c" by blast
  let ?h = "st_handlers s"
  show ?thesis
  proof (cases "sh_pc ?h w = Ready")
    case busy: False
    from handler_can_move [OF assms(3) busy] obtain g where "shared_step lib origin n ?h w g" by blast
    from handler_works [OF assms(2) h busy this] handler_answers [OF assms(2) h busy this] show ?thesis by blast
  next
    case ready: True
    show ?thesis
    proof (cases "st_ended s w")
      case True
      from closes_client [OF assms(2) h True handler_closes [OF assms(3) h]] show ?thesis by blast
    next
      case False
      show ?thesis
      proof (cases "\<exists>d u. peer s fd = Some d \<and> url d = Some u")
        case True
        then obtain d u where d: "peer s fd = Some d" "url d = Some u" by blast
        let ?g = "?h\<lparr>sh_pc := (sh_pc ?h)(w := Parsed u)\<rparr>"
        have "shared_step lib origin n ?h w ?g" by (rule shared_step.parsed [OF assms(3) ready])
        with handler_reads [where h = ?g and url = url, OF assms(2) h False ready d] show ?thesis by auto
      next
        case no: False
        have "url d = None" if "peer s fd = Some d" for d using no that by (cases "url d") auto
        with handler_exits [where url = url, OF assms(2,3) h False ready] show ?thesis by blast
      qed
    qed
  qed
qed

subsection \<open>Two workers\<close>

text \<open>
  A reachable state with the server up, the cache still as it was, and the workers, descriptors,
  handlers and deliveries as given.
\<close>

definition reachable_at ::
  "platform \<Rightarrow> (string \<Rightarrow> block) \<Rightarrow> nat \<Rightarrow> (nat \<Rightarrow> string option) \<Rightarrow> nat \<Rightarrow> (nat \<Rightarrow> sem_worker) \<Rightarrow> nat \<Rightarrow>
   (nat \<rightharpoonup> nat option) \<Rightarrow> nat \<Rightarrow> (nat \<Rightarrow> handler) \<Rightarrow> (nat \<Rightarrow> bool) \<Rightarrow> bool" where
  "reachable_at lib origin n url cap f v F a h e = (\<exists>s.
     site_reach lib origin n url (LRU (LRUCache_new cap)) s \<and> st_sem s = up f v F a \<and>
     sh_pc (st_handlers s) = h \<and> sh_cache (st_handlers s) = LRU (LRUCache_new cap) \<and> st_ended s = e \<and>
     \<not> st_exited s)"

lemma at_moves:
  assumes "reachable_at lib origin n url cap f v F a h e" "sem_worker_step n (up f v F a) w (up f' v' F' a')"
    and "\<And>fd c. f w \<noteq> Handling fd c"
  shows "reachable_at lib origin n url cap f' v' F' a' h e"
proof -
  from assms(1) obtain s where s: "site_reach lib origin n url (LRU (LRUCache_new cap)) s" "st_sem s = up f v F a"
    "sh_pc (st_handlers s) = h" "sh_cache (st_handlers s) = LRU (LRUCache_new cap)" "st_ended s = e" "\<not> st_exited s"
    by (auto simp: reachable_at_def)
  have "site_move lib origin n url s w (s\<lparr>st_sem := up f' v' F' a'\<rparr>)"
    by (rule worker_moves [OF s(6)]) (use assms(2,3) s(2) in auto)
  from site_next [OF s(1) moves [OF this]] s show ?thesis
    unfolding reachable_at_def by (intro exI conjI) (assumption, simp_all)
qed

lemma at_accepting:
  assumes "reachable_at lib origin n url cap f (Suc v) F a h e" "w < n" "f w = LoopTest"
  shows "reachable_at lib origin n url cap (f(w := Accepting)) v F a h e"
proof -
  have "reachable_at lib origin n url cap (f(w := SemWait)) (Suc v) F a h e"
    using at_moves [OF assms(1), of w] loop [OF assms(2), of "up f (Suc v) F a"] assms(3) by simp
  then have "reachable_at lib origin n url cap (f(w := Acquired)) v F a h e"
    using at_moves [of lib origin n url cap "f(w := SemWait)" "Suc v" F a h e w]
      sem_wait [OF assms(2), of "up (f(w := SemWait)) (Suc v) F a"] by simp
  then show ?thesis
    using at_moves [of lib origin n url cap "f(w := Acquired)" v F a h e w]
      check [OF assms(2), of "up (f(w := Acquired)) v F a"] by simp
qed

lemma at_accept:
  assumes "reachable_at lib origin n url cap f (Suc v) F a h e" "w < n" "f w = LoopTest" "least_free F fd"
  shows "reachable_at lib origin n url cap (f(w := Handling fd a)) v (F(fd \<mapsto> Some a)) (a + 1) h e"
proof -
  have "reachable_at lib origin n url cap (f(w := Accepting)) v F a h e"
    by (rule at_accepting [OF assms(1-3)])
  then show ?thesis
    using at_moves [of lib origin n url cap "f(w := Accepting)" v F a h e w]
      accept [OF assms(2), of "up (f(w := Accepting)) v F a" fd] assms(4) by simp
qed

lemma at_post:
  assumes "reachable_at lib origin n url cap f v F a h e" "w < n" "f w = Handled fd"
  shows "reachable_at lib origin n url cap (f(w := LoopTest)) (v + 1) (F(fd := None)) a h e"
proof -
  have "reachable_at lib origin n url cap (f(w := Posting)) v (F(fd := None)) a h e"
    using at_moves [OF assms(1), of w] worker_closes [OF assms(2), of "up f v F a"] assms(3) by simp
  then show ?thesis
    using at_moves [of lib origin n url cap "f(w := Posting)" v "F(fd := None)" a h e w]
      sem_post [OF assms(2), of "up (f(w := Posting)) v (F(fd := None)) a"] by simp
qed

text \<open>A handler reads its request and finds nothing in the cache.\<close>

lemma at_relaying:
  assumes "reachable_at lib origin n url cap f v F a h e" "w < n" "f w = Handling fd c" "h w = Ready" "\<not> e w"
    and "F fd = Some (Some d)" "url d = Some u"
  shows "reachable_at lib origin n url cap f v F a (h(w := Relaying u)) e"
proof -
  let ?c = "LRU (LRUCache_new cap)"
  from assms(1) obtain s where s: "site_reach lib origin n url ?c s" "st_sem s = up f v F a"
    "sh_pc (st_handlers s) = h" "sh_cache (st_handlers s) = ?c" "st_ended s = e" "\<not> st_exited s"
    by (auto simp: reachable_at_def)
  let ?h = "(st_handlers s)\<lparr>sh_pc := h(w := Parsed u)\<rparr>"
  have "shared_step lib origin n (st_handlers s) w ?h"
    using shared_step.parsed [OF assms(2), of "st_handlers s"] assms(4) s(3) by simp
  then have "site_move lib origin n url s w (s\<lparr>st_handlers := ?h\<rparr>)"
    using handler_reads [where s = s and w = w and fd = fd and c = c and d = d and u = u and h = ?h and url = url]
      assms s by (simp add: peer_def)
  note r = site_next [OF s(1) moves [OF this]]
  let ?g = "?h\<lparr>sh_cache := ?c, sh_pc := h(w := Relaying u), calls_since := count_call w (calls_since ?h)\<rparr>"
  have "shared_step lib origin n ?h w ?g"
    using shared_step.find_miss [OF assms(2), of ?h u lib 0 ?c] s(4)
    by (simp add: LRUCache_find_def LRUCache_new_def)
  then have "site_move lib origin n url (s\<lparr>st_handlers := ?h\<rparr>) w (s\<lparr>st_handlers := ?g\<rparr>)"
    using handler_works [where s = "s\<lparr>st_handlers := ?h\<rparr>" and w = w and fd = fd and c = c and h = ?g and url = url]
      assms(3) s by simp
  from site_next [OF r moves [OF this]] s show ?thesis
    unfolding reachable_at_def by (intro exI conjI) (assumption, simp_all)
qed

text \<open>The exchange with the origin server fails, and the handler closes its descriptor.\<close>

lemma at_gives_up:
  assumes "reachable_at lib origin n url cap f v F a h e" "w < n" "f w = Handling fd c" "h w = Relaying u" "\<not> e w"
  shows "reachable_at lib origin n url cap (f(w := Handled fd)) v (F(fd := None)) a (h(w := Ready)) e"
proof -
  let ?c = "LRU (LRUCache_new cap)"
  from assms(1) obtain s where s: "site_reach lib origin n url ?c s" "st_sem s = up f v F a"
    "sh_pc (st_handlers s) = h" "sh_cache (st_handlers s) = ?c" "st_ended s = e" "\<not> st_exited s"
    by (auto simp: reachable_at_def)
  let ?h = "(st_handlers s)\<lparr>sh_pc := h(w := Ready)\<rparr>"
  let ?s = "s\<lparr>st_handlers := ?h, st_ended := e(w := True)\<rparr>"
  have "shared_step lib origin n (st_handlers s) w ?h"
    using shared_step.relay_fails [OF assms(2), of "st_handlers s" u] assms(4) s(3) by simp
  then have "site_move lib origin n url s w ?s"
    using handler_answers [where s = s and w = w and fd = fd and c = c and h = ?h and url = url] assms s
    by (simp add: deliver_def)
  note r = site_next [OF s(1) moves [OF this]]
  let ?t = "?s\<lparr>st_sem := up (f(w := Handled fd)) v (F(fd := None)) a, st_ended := e\<rparr>"
  have "e(w := False) = e" using assms(5) by (simp add: fun_eq_iff)
  then have "site_move lib origin n url ?s w ?t"
    using closes_client [where s = ?s and w = w and fd = fd and c = c and url = url
        and p = "up (f(w := Handled fd)) v (F(fd := None)) a"] handler_closes [OF assms(2), of "up f v F a"] assms(3) s
    by simp
  from site_next [OF r moves [OF this]] s show ?thesis
    unfolding reachable_at_def by (intro exI conjI) (assumption, simp_all)
qed

text \<open>The response is written to the connection that the descriptor names by then.\<close>

lemma at_delivers:
  assumes "reachable_at lib origin n url cap f v F a h e" "w < n" "f w = Handling fd c" "h w = Relaying u"
    and "F fd = Some (Some d)" "0 < cap"
  shows "\<exists>s. site_reach lib origin n url (LRU (LRUCache_new cap)) s \<and> (d, origin u) \<in> set (delivered s)"
proof -
  let ?c = "LRU (LRUCache_new cap)"
  from assms(1) obtain s where s: "site_reach lib origin n url ?c s" "st_sem s = up f v F a"
    "sh_pc (st_handlers s) = h" "sh_cache (st_handlers s) = ?c" "st_ended s = e" "\<not> st_exited s"
    by (auto simp: reachable_at_def)
  have free: "0 \<notin> cache_used ?c" by (simp add: cache_used_def LRUCache_new_def)
  from strategy.add_law [OF new_cache_ok(1) [OF assms(6)] this refl, of lib 0 u "origin u"] obtain x where
    x: "cache_add lib ?c 0 0 u (origin u) (int (length (origin u))) = Some x" by auto
  let ?h = "(st_handlers s)\<lparr>sh_cache := x, sh_pc := h(w := Ready), sent := (u, origin u) # sent (st_handlers s),
    calls_since := count_call w (calls_since (st_handlers s))\<rparr>"
  have "shared_step lib origin n (st_handlers s) w ?h"
    using shared_step.relay_add [OF assms(2), of "st_handlers s" u 0 lib 0 origin x] assms(4) s(3,4) free x by simp
  then have "site_move lib origin n url s w (s\<lparr>st_handlers := ?h, st_ended := e(w := True),
      delivered := (d, origin u) # delivered s\<rparr>)"
    using handler_answers [where s = s and w = w and fd = fd and c = c and h = ?h and url = url] assms s
    by (simp add: deliver_def peer_def)
  from site_next [OF s(1) moves [OF this]] show ?thesis by (intro exI conjI) (assumption, simp)
qed

lemma responses_cross:
  assumes "2 \<le> n" "0 < cap" "url 0 = Some u0" "url 1 = Some u1"
  shows "\<exists>s. site_reach lib origin n url (LRU (LRUCache_new cap)) s \<and> (2, origin u1) \<in> set (delivered s)"
proof -
  define F :: "nat \<rightharpoonup> nat option" where "F = (\<lambda>fd. if fd < 4 then Some None else None)"
  have F: "F(4 := None) = F" "least_free F 4" by (auto simp: F_def least_free_def)
  obtain v where v: "n = Suc (Suc v)" using assms(1) by (metis Suc_le_D numeral_2_eq_2 Suc_le_mono)
  then have n: "0 < n" "1 < n" by simp_all
  let ?at = "reachable_at lib origin n url cap" and ?r = "\<lambda>_. Ready" and ?e = "\<lambda>_. False"
  have "?at (\<lambda>_. LoopTest) (Suc (Suc v)) F 0 ?r ?e"
    unfolding reachable_at_def
    by (rule exI, intro conjI, rule site_start) (simp_all add: site_init_def sem_init_def shared_init_def F_def v)
  from at_accept [OF this n(1) _ F(2)]
  have "?at ((\<lambda>_. LoopTest)(0 := Handling 4 0)) (Suc v) (F(4 \<mapsto> Some 0)) 1 ?r ?e" by simp
  from at_relaying [OF this n(1), of 4 0 0 u0] assms(3)
  have "?at ((\<lambda>_. LoopTest)(0 := Handling 4 0)) (Suc v) (F(4 \<mapsto> Some 0)) 1 (?r(0 := Relaying u0)) ?e" by simp
  from at_gives_up [OF this n(1), of 4 0 u0] F(1)
  have "?at ((\<lambda>_. LoopTest)(0 := Handled 4)) (Suc v) F 1 ?r ?e" by (simp add: fun_upd_idem)
  from at_accept [OF this n(2) _ F(2)]
  have "?at ((\<lambda>_. LoopTest)(0 := Handled 4, 1 := Handling 4 1)) v (F(4 \<mapsto> Some 1)) 2 ?r ?e" by (simp add: numeral_2_eq_2)
  from at_relaying [OF this n(2), of 4 1 1 u1] assms(4)
  have "?at ((\<lambda>_. LoopTest)(0 := Handled 4, 1 := Handling 4 1)) v (F(4 \<mapsto> Some 1)) 2 (?r(1 := Relaying u1)) ?e" by simp
  from at_post [OF this n(1), of 4] F(1)
  have "?at ((\<lambda>_. LoopTest)(0 := Handled 4, 1 := Handling 4 1, 0 := LoopTest)) (Suc v) F 2 (?r(1 := Relaying u1)) ?e"
    by simp
  from at_accept [OF this n(1) _ F(2)]
  have "?at ((\<lambda>_. LoopTest)(0 := Handled 4, 1 := Handling 4 1, 0 := LoopTest, 0 := Handling 4 2)) v (F(4 \<mapsto> Some 2)) 3
    (?r(1 := Relaying u1)) ?e" by simp
  from at_delivers [OF this n(2) _ _ _ assms(2), of 4 1 u1 2] show ?thesis by simp
qed

subsection \<open>Properties\<close>

text \<open>C17. What the second \<open>close\<close> means for the clients: on an LRU cache with places for all URLs, when
  the first three clients send good requests and the origin server answers differently to the
  second and the third, every client gets only responses to its own request, in every
  reachable state, exactly when the server has at most one thread. With two or more the response
  to the second client's request can be written to the connection of the third.\<close>

theorem responses_right_iff_one_thread:
  assumes "url 0 = Some u0" "url 1 = Some u1" "url 2 = Some u2" "origin u1 \<noteq> origin u2"
    and "finite U" "card U \<le> cap" "\<forall>t u. url t = Some u \<longrightarrow> u \<in> U" "0 < cap"
  shows "(\<forall>s d b. site_reach lib origin n url (LRU (LRUCache_new cap)) s \<longrightarrow> (d, b) \<in> set (delivered s) \<longrightarrow>
      (\<exists>u. url d = Some u \<and> b = origin u)) \<longleftrightarrow> n \<le> 1"
proof
  assume safe: "\<forall>s d b. site_reach lib origin n url (LRU (LRUCache_new cap)) s \<longrightarrow> (d, b) \<in> set (delivered s) \<longrightarrow>
      (\<exists>u. url d = Some u \<and> b = origin u)"
  show "n \<le> 1"
  proof (rule ccontr)
    assume "\<not> n \<le> 1"
    then have "2 \<le> n" by simp
    from responses_cross [where lib = lib and origin = origin, OF this assms(8,1,2)] safe assms(3,4)
    show False by fastforce
  qed
next
  assume "n \<le> 1"
  then consider "n = 0" | "n = 1" by linarith
  then show "\<forall>s d b. site_reach lib origin n url (LRU (LRUCache_new cap)) s \<longrightarrow> (d, b) \<in> set (delivered s) \<longrightarrow>
      (\<exists>u. url d = Some u \<and> b = origin u)"
  proof cases
    case 1
    have "delivered s = []" if "site_reach lib origin 0 url c0 s" for s c0
      using that
    proof (induction rule: site_reach.induct)
      case site_start
      then show ?case by (simp add: site_init_def)
    next
      case (site_next s s')
      from site_next.hyps(2) site_next.IH show ?case
        by (auto elim!: site_stepE site_moveE dest: shared_step_local(1))
    qed
    with 1 show ?thesis by fastforce
  next
    case 2
    have u: "set_option (url t) \<subseteq> U" for t using assms(7) by (cases "url t") auto
    have "card U \<le> cache_capacity (LRU (LRUCache_new cap))" using assms(6) by (simp add: LRUCache_new_def)
    with new_cache_ok(1,2) [OF assms(8)] assms(5) u have "roomy lib url (LRU (LRUCache_new cap)) U"
      by (simp add: roomy_def)
    with one_worker_inv [where lib = lib and origin = origin and url = url] 2 show ?thesis
      by (fastforce simp: right_deliveries_def)
  qed
qed

theorem responses_right_iff_one_thread_witness:
  "\<exists>s d b. site_reach standard (\<lambda>u. u @ ''!'') 25 (\<lambda>t. Some (if t = 2 then ''mine'' else ''yours'')) (LRU (LRUCache_new 100)) s \<and>
    (d, b) \<in> set (delivered s) \<and> b \<noteq> (if d = 2 then ''mine!'' else ''yours!'')"
proof -
  let ?url = "\<lambda>t :: nat. Some (if t = 2 then ''mine'' else ''yours'')"
  have "\<not> (\<forall>s d b. site_reach standard (\<lambda>u. u @ ''!'') 25 ?url (LRU (LRUCache_new 100)) s \<longrightarrow> (d, b) \<in> set (delivered s) \<longrightarrow>
      (\<exists>u. ?url d = Some u \<and> b = u @ ''!''))"
    by (subst responses_right_iff_one_thread [where U = "{''mine'', ''yours''}"]) auto
  then show ?thesis by (auto split: if_splits)
qed

lemma site_moves_signal:
  "(site_moves lib origin n url ^^ k) s s' \<Longrightarrow> \<not> sm_running (st_sem s) \<Longrightarrow> \<not> sm_running (st_sem s') \<and>
    sm_accepted (st_sem s') + accepts_left n (st_sem s') \<le> sm_accepted (st_sem s) + accepts_left n (st_sem s)"
proof (induction k arbitrary: s')
  case (Suc k)
  from Suc.prems(1) obtain t where t0: "(site_moves lib origin n url ^^ k) s t" "site_moves lib origin n url t s'"
    by auto
  then obtain w where t: "(site_moves lib origin n url ^^ k) s t" "site_move lib origin n url t w s'"
    unfolding site_moves_def by blast
  have i: "\<not> sm_running (st_sem t)" "sm_accepted (st_sem t) + accepts_left n (st_sem t) \<le>
      sm_accepted (st_sem s) + accepts_left n (st_sem s)" using Suc.IH [OF t(1)] Suc.prems(2) by blast+
  have "st_sem s' = st_sem t \<or> (\<exists>w. sem_worker_step n (st_sem t) w (st_sem s'))"
    using t(2) by (auto elim!: site_moveE)
  then show ?case using i accepts_step [OF _ i(1)] stop_step [OF _ i(1)] by fastforce
qed simp



end
