(* ===== verification/Server_Main.thy ===== *)
theory Server_Main
  imports Request_Parse Server_Cache Semaphore_Server
begin

text \<open>
  The program around the servers: \<^verbatim>\<open>main.cpp\<close> with \<open>std::stoi\<close>,
  \<^verbatim>\<open>ServerFactory.cpp\<close>, the two functions \<open>createServerSocket\<close> of
  \<^verbatim>\<open>ProxyUtils.cpp\<close>, and what the two \<open>start\<close> functions do with the listening socket.
  An exception is the left value of a sum. What the system calls give is the record
  \<open>network\<close>; the functions also return the calls they make.
\<close>

subsection \<open>\<open>std::stoi\<close>\<close>

datatype exn = invalid_argument string | out_of_range | runtime_error string

definition digits_value :: "string \<Rightarrow> int" where
  "digits_value ds = foldl (\<lambda>n c. 10 * n + (of_char c - 48)) 0 ds"

text \<open>\<open>strtol\<close> to base 10: blanks, a sign, digits; what follows is not looked at.\<close>

definition stoi :: "string \<Rightarrow> exn + int" where
  "stoi str = (
     let s = dropWhile isspace str;
         neg = (s \<noteq> [] \<and> hd s = CHR ''-'');
         u = (if s \<noteq> [] \<and> hd s \<in> {CHR ''-'', CHR ''+''} then tl s else s);
         ds = takeWhile isdigit u;
         n = (if neg then - digits_value ds else digits_value ds)
     in if ds = [] then Inl (invalid_argument ''stoi'')
        else if n < -2147483648 \<or> 2147483647 < n then Inl out_of_range
        else Inr n)"

subsection \<open>The factory\<close>

datatype server = ThreadPoolServer cache int | SemaphoreServer cache int

text \<open>The \<open>int\<close> becomes the \<open>size_t\<close> of the constructors.\<close>

definition createCacheStrategy :: "string \<Rightarrow> int \<Rightarrow> exn + cache" where
  "createCacheStrategy cacheType cacheSize =
    (if cacheType = ''LRUCache'' then Inr (LRU (LRUCache_new (to_size_t cacheSize)))
     else if cacheType = ''LFUCache'' then Inr (LFU (LFUCache_new (to_size_t cacheSize)))
     else Inl (invalid_argument ''Invalid cache type''))"

text \<open>The servers are made with the default of their second parameter, 25 threads.\<close>

definition createHTTPServer :: "string \<Rightarrow> string \<Rightarrow> int \<Rightarrow> int \<Rightarrow> exn + server" where
  "createHTTPServer serverType cacheType numThreads cacheSize =
    (case createCacheStrategy cacheType cacheSize of
       Inl e \<Rightarrow> Inl e
     | Inr cache \<Rightarrow>
         if serverType = ''Threadpool'' then Inr (ThreadPoolServer cache 25)
         else if serverType = ''Semaphore'' then Inr (SemaphoreServer cache 25)
         else Inl (invalid_argument ''Invalid server type''))"

subsection \<open>Listening and connecting sockets\<close>

text \<open>\<open>socket\<close> gives a descriptor or a negative number; the other calls succeed or fail.\<close>

record network =
  socket_result :: int
  bind_ok :: "nat \<Rightarrow> bool"
  listen_ok :: bool
  resolves :: "string \<Rightarrow> string \<Rightarrow> bool"
  connects :: bool

datatype syscall = Socket | Setsockopt int | Bind int nat | Listen int nat | Connect int | CloseFd int
  | Getaddrinfo string string | Freeaddrinfo | Gethostbyname string

text \<open>\<open>htons\<close> takes the port modulo 65536.\<close>

definition createServerSocket :: "network \<Rightarrow> int \<Rightarrow> int \<times> syscall list" where
  "createServerSocket net port = (
     let sockfd = socket_result net; p = nat (port mod 65536) in
     if sockfd < 0 then (-1, [Socket])
     else if \<not> bind_ok net p then (-1, [Socket, Bind sockfd p, CloseFd sockfd])
     else if \<not> listen_ok net then (-1, [Socket, Bind sockfd p, Listen sockfd 100, CloseFd sockfd])
     else (sockfd, [Socket, Bind sockfd p, Listen sockfd 100]))"

definition createServerSocket_to :: "network \<Rightarrow> string \<Rightarrow> string \<Rightarrow> int \<times> syscall list" where
  "createServerSocket_to net address port = (
     let sockfd = socket_result net in
     if \<not> resolves net address port then (-1, [Getaddrinfo address port])
     else if sockfd < 0 then (-1, [Getaddrinfo address port, Socket, Freeaddrinfo])
     else if \<not> connects net
       then (-1, [Getaddrinfo address port, Socket, Connect sockfd, CloseFd sockfd, Freeaddrinfo])
     else (sockfd, [Getaddrinfo address port, Socket, Connect sockfd, Freeaddrinfo]))"

subsection \<open>Starting\<close>

text \<open>
  \<open>SemaphoreServer::start\<close> throws when there is no socket and otherwise runs its n threads from
  the state \<open>sem_init n\<close> on. \<open>ThreadPoolServer::start\<close> goes on with whatever descriptor it got:
  its loop calls \<open>accept\<close> on it for ever, a call that fails is reported and repeated, and an
  accepted connection becomes a task of the pool. \<open>accept_loop\<close> is the tasks of the first
  calls, whose results are given.
\<close>

definition SemaphoreServer_start :: "network \<Rightarrow> int \<Rightarrow> int \<Rightarrow> exn + int \<times> sem_server" where
  "SemaphoreServer_start net numThreads port = (
     let serverSocket = fst (createServerSocket net port) in
     if serverSocket < 0 then Inl (runtime_error ''Failed to create server socket'')
     else Inr (serverSocket, sem_init (nat numThreads)))"

fun accept_loop :: "int list \<Rightarrow> int list" where
  "accept_loop [] = []"
| "accept_loop (clientSocket # rs) =
    (if clientSocket < 0 then accept_loop rs else clientSocket # accept_loop rs)"

definition ThreadPoolServer_start :: "network \<Rightarrow> (int \<Rightarrow> int list) \<Rightarrow> int \<Rightarrow> int \<times> int list" where
  "ThreadPoolServer_start net accept port = (
     let serverSocket = fst (createServerSocket net port) in
     (serverSocket, accept_loop (accept serverSocket)))"

subsection \<open>\<open>main\<close>\<close>

text \<open>Up to the call of \<open>start\<close>: the line on the error stream with exit code 1, or the server
  and the port it is started on.\<close>

datatype main_end = Usage string | Exit1 string | Start server int

definition number_arguments :: "string list \<Rightarrow> exn + int \<times> int \<times> int" where
  "number_arguments argv = (case stoi (argv ! 3) of
       Inl e \<Rightarrow> Inl e
     | Inr port \<Rightarrow> (case if 4 < length argv then stoi (argv ! 4) else Inr 25 of
         Inl e \<Rightarrow> Inl e
       | Inr numThreads \<Rightarrow> (case if 5 < length argv then stoi (argv ! 5) else Inr 100 of
           Inl e \<Rightarrow> Inl e
         | Inr cacheSize \<Rightarrow> Inr (port, numThreads, cacheSize))))"

definition main_program :: "string list \<Rightarrow> main_end" where
  "main_program argv =
    (if length argv < 4 \<or> 6 < length argv then Usage (if argv = [] then [] else hd argv)
     else case number_arguments argv of
       Inl out_of_range \<Rightarrow> Exit1 ''Error: Number out of range for port, num_threads, or cache_size.''
     | Inl _ \<Rightarrow> Exit1 ''Error: Invalid argument. Please provide valid numbers for port, num_threads, and cache_size.''
     | Inr (port, numThreads, cacheSize) \<Rightarrow>
        (case createHTTPServer (argv ! 1) (argv ! 2) numThreads cacheSize of
           Inl (invalid_argument w) \<Rightarrow> Exit1 (''Error: '' @ w)
         | Inl (runtime_error w) \<Rightarrow> Exit1 (''Runtime error: '' @ w)
         | Inl out_of_range \<Rightarrow> Exit1 ''Error: ''
         | Inr server \<Rightarrow> Start server port))"

subsection \<open>Decimal numbers\<close>

definition digit :: "nat \<Rightarrow> char" where
  "digit n = char_of (48 + n)"

fun decimal_nat :: "nat \<Rightarrow> string" where
  "decimal_nat n = (if n < 10 then [digit n] else decimal_nat (n div 10) @ [digit (n mod 10)])"

declare decimal_nat.simps [simp del]

definition decimal :: "int \<Rightarrow> string" where
  "decimal z = (if z < 0 then CHR ''-'' # decimal_nat (nat (- z)) else decimal_nat (nat z))"

lemma digit_code:
  assumes "n < 10"
  shows "(of_char (digit n) :: nat) = 48 + n" "(of_char (digit n) :: int) = 48 + int n"
proof -
  show n: "(of_char (digit n) :: nat) = 48 + n"
    unfolding digit_def of_char_of using assms by simp
  have "(of_char (digit n) :: int) = int (of_char (digit n))" by (rule of_nat_of_char [symmetric])
  then show "(of_char (digit n) :: int) = 48 + int n" unfolding n by simp
qed

lemma digit_is_digit: "n < 10 \<Longrightarrow> isdigit (digit n)"
  by (simp add: isdigit_def digit_code)

lemma digits_value_snoc: "digits_value (ds @ [c]) = 10 * digits_value ds + (of_char c - 48)"
  by (simp add: digits_value_def)

lemma decimal_nat_spec:
  "list_all isdigit (decimal_nat n) \<and> decimal_nat n \<noteq> [] \<and> digits_value (decimal_nat n) = int n"
proof (induction n rule: decimal_nat.induct)
  case (1 n)
  show ?case
  proof (cases "n < 10")
    case True
    then have "decimal_nat n = [digit n]" by (simp add: decimal_nat.simps)
    then show ?thesis using True by (simp add: digit_is_digit digits_value_def digit_code)
  next
    case False
    have m: "n mod 10 < 10" by simp
    have "int n = 10 * int (n div 10) + int (n mod 10)" by presburger
    moreover from False have "decimal_nat n = decimal_nat (n div 10) @ [digit (n mod 10)]"
      by (subst decimal_nat.simps) simp
    ultimately show ?thesis
      using 1 [OF False] by (simp add: digit_is_digit digits_value_snoc digit_code [OF m])
  qed
qed

lemma isdigit_not: "isdigit c \<Longrightarrow> \<not> isspace c \<and> c \<noteq> CHR ''-'' \<and> c \<noteq> CHR ''+''"
  by (auto simp: isdigit_def isspace_def)

lemma dropWhile_append_stop: "list_all P xs \<Longrightarrow> ys \<noteq> [] \<Longrightarrow> \<not> P (hd ys) \<Longrightarrow> dropWhile P (xs @ ys) = ys"
  by (induction xs) (auto simp: dropWhile_eq_self_iff)

lemma takeWhile_append_stop:
  "list_all P xs \<Longrightarrow> ys = [] \<or> \<not> P (hd ys) \<Longrightarrow> takeWhile P (xs @ ys) = xs"
  by (induction xs) (auto, cases ys, auto)

lemma stoi_decimal:
  assumes "list_all isspace blanks" "rest = [] \<or> \<not> isdigit (hd rest)"
  shows "stoi (blanks @ decimal z @ rest) =
    (if z < -2147483648 \<or> 2147483647 < z then Inl out_of_range else Inr z)"
proof -
  define ds where "ds = decimal_nat (nat \<bar>z\<bar>)"
  from decimal_nat_spec [of "nat \<bar>z\<bar>"] have ds: "list_all isdigit ds" "ds \<noteq> []" "digits_value ds = \<bar>z\<bar>"
    by (simp_all add: ds_def)
  obtain d t where dt: "ds = d # t" using ds(2) by (cases ds) auto
  with ds(1) have d: "isdigit d" by simp
  note nd = isdigit_not [OF d]
  have tw: "takeWhile isdigit (ds @ rest) = ds" by (rule takeWhile_append_stop [OF ds(1) assms(2)])
  show ?thesis
  proof (cases "z < 0")
    case True
    then have z: "decimal z = CHR ''-'' # ds" by (simp add: decimal_def ds_def)
    have "dropWhile isspace (blanks @ decimal z @ rest) = CHR ''-'' # ds @ rest"
      using dropWhile_append_stop [OF assms(1), of "CHR ''-'' # ds @ rest"] by (simp add: z isspace_def)
    then show ?thesis using tw ds(2,3) True by (simp add: stoi_def Let_def)
  next
    case False
    then have z: "decimal z = ds" by (simp add: decimal_def ds_def)
    have "dropWhile isspace (blanks @ decimal z @ rest) = ds @ rest"
      using dropWhile_append_stop [OF assms(1), of "ds @ rest"] nd by (simp add: z dt)
    then show ?thesis using tw ds(2,3) False nd by (simp add: stoi_def Let_def dt)
  qed
qed

subsection \<open>Which command lines start a server\<close>

fun server_cache :: "server \<Rightarrow> cache" where
  "server_cache (ThreadPoolServer c n) = c"
| "server_cache (SemaphoreServer c n) = c"

fun server_threads :: "server \<Rightarrow> int" where
  "server_threads (ThreadPoolServer c n) = n"
| "server_threads (SemaphoreServer c n) = n"

definition new_cache :: "string \<Rightarrow> nat \<Rightarrow> cache option" where
  "new_cache ct cap = (if ct = ''LRUCache'' then Some (LRU (LRUCache_new cap))
     else if ct = ''LFUCache'' then Some (LFU (LFUCache_new cap)) else None)"

lemma createCacheStrategy_new:
  "createCacheStrategy ct n =
    (case new_cache ct (to_size_t n) of None \<Rightarrow> Inl (invalid_argument ''Invalid cache type'') | Some c \<Rightarrow> Inr c)"
  by (simp add: createCacheStrategy_def new_cache_def)

lemma createHTTPServer_Inr:
  "createHTTPServer st ct nt n = Inr srv \<longleftrightarrow> new_cache ct (to_size_t n) = Some (server_cache srv) \<and>
    server_threads srv = 25 \<and>
    (st = ''Threadpool'' \<and> (\<exists>c k. srv = ThreadPoolServer c k) \<or>
     st = ''Semaphore'' \<and> (\<exists>c k. srv = SemaphoreServer c k))"
  unfolding createHTTPServer_def createCacheStrategy_new
  by (cases srv) (auto split: option.splits if_splits)

lemma number_arguments_Inr:
  "number_arguments argv = Inr (port, nt, n) \<longleftrightarrow> stoi (argv ! 3) = Inr port \<and>
    (if 4 < length argv then stoi (argv ! 4) = Inr nt else nt = 25) \<and>
    (if 5 < length argv then stoi (argv ! 5) = Inr n else n = 100)"
  by (auto simp: number_arguments_def split: sum.splits if_splits)

lemma main_Start:
  "main_program argv = Start srv port \<longleftrightarrow> 4 \<le> length argv \<and> length argv \<le> 6 \<and>
    (\<exists>nt n. number_arguments argv = Inr (port, nt, n) \<and> createHTTPServer (argv ! 1) (argv ! 2) nt n = Inr srv)"
  by (auto simp: main_program_def split: sum.splits exn.splits)

subsection \<open>Properties\<close>

text \<open>\<open>std::stoi\<close> reads back the decimal representation of every number in the range of
  \<open>int\<close>, with blanks before it and any text behind it that does not start with a digit (the
  port argument 8080x is accepted as 8080); every other number is reported as out of range.\<close>

theorem stoi_roundtrip:
  assumes "list_all isspace blanks" "rest = [] \<or> \<not> isdigit (hd rest)"
  shows "stoi (blanks @ decimal z @ rest) =
    (if -2147483648 \<le> z \<and> z \<le> 2147483647 then Inr z else Inl out_of_range)"
  using stoi_decimal [OF assms, of z] by auto

theorem stoi_roundtrip_witness: "stoi (''  '' @ decimal (-42) @ ''x7'') = Inr (-42)"
  using stoi_roundtrip [of "''  ''" "''x7''" "-42"] by (simp add: isspace_def isdigit_def)

text \<open>C36. The command lines that start a server, and the server they start: three to five
  arguments, a known server and cache type, numbers that \<open>stoi\<close> reads; the cache is empty
  with the given size converted to \<open>size_t\<close> (100 by default). The number of threads must be
  a number, and is otherwise ignored: every server has 25 threads.\<close>

theorem main_starts_server:
  "main_program argv = Start srv port \<longleftrightarrow> 4 \<le> length argv \<and> length argv \<le> 6 \<and>
    stoi (argv ! 3) = Inr port \<and> (\<exists>nt. if 4 < length argv then stoi (argv ! 4) = Inr nt else nt = 25) \<and>
    (\<exists>n. (if 5 < length argv then stoi (argv ! 5) = Inr n else n = 100) \<and>
      new_cache (argv ! 2) (to_size_t n) = Some (server_cache srv)) \<and>
    server_threads srv = 25 \<and>
    (argv ! 1 = ''Threadpool'' \<and> (\<exists>c k. srv = ThreadPoolServer c k) \<or>
     argv ! 1 = ''Semaphore'' \<and> (\<exists>c k. srv = SemaphoreServer c k))"
  unfolding main_Start number_arguments_Inr createHTTPServer_Inr by blast

text \<open>Cache sizes that the command line accepts and the caches do not expect. A negative size
  becomes a capacity of at least 2 to the 63, so that nothing is ever evicted; with size 0 a
  server starts, and adding the first response is undefined in both caches (\<open>evict\<close> looks for
  a victim in an empty list), whatever was asked before.\<close>

theorem cache_size_edge_cases:
  assumes "n \<le> 0" "-2147483648 \<le> n" "createHTTPServer st ct nt n = Inr srv"
  shows "case server_cache srv of
      LRU c \<Rightarrow> if n = 0 then LRUCache_add c a now u d len = None \<and> LRUCache_find c u' now = Some (c, None)
        else 2 ^ 63 \<le> capacity c
    | LFU c \<Rightarrow> if n = 0 then LFUCache_add lib c a now u d len = None \<and> LFUCache_find lib c u' now = Some (c, None)
        else 2 ^ 63 \<le> lfu_capacity c"
proof -
  have nc: "new_cache ct (to_size_t n) = Some (server_cache srv)"
    using assms(3) by (simp add: createHTTPServer_Inr)
  show ?thesis
  proof (cases "n = 0")
    case True
    then have "to_size_t n = 0" by (simp add: to_size_t_def)
    with nc True show ?thesis
      by (cases "server_cache srv") (auto simp: new_cache_def LRUCache_new_def LRUCache_find_def LRUCache_add_def LRUCache_evict_def
          LFUCache_new_def LFUCache_find_def LFUCache_add_def LFUCache_evict_def split: if_splits)
  next
    case False
    have "n mod 18446744073709551616 = n + 18446744073709551616"
      using assms(1,2) False mod_pos_pos_trivial [of "n + 18446744073709551616" 18446744073709551616] by simp
    then have "to_size_t n = nat (n + 18446744073709551616)" by (simp add: to_size_t_def)
    then have "2 ^ 63 \<le> to_size_t n" using assms(2) by simp
    with nc False show ?thesis
      by (cases "server_cache srv") (auto simp: new_cache_def LRUCache_new_def LFUCache_new_def split: if_splits)
  qed
qed

theorem cache_size_edge_cases_witness:
  "\<exists>c. createHTTPServer ''Semaphore'' ''LRUCache'' 30 0 = Inr (SemaphoreServer (LRU c) 25) \<and>
    LRUCache_add c 0 5 ''u'' ''data'' 4 = None"
proof -
  have s: "createHTTPServer ''Semaphore'' ''LRUCache'' 30 0 = Inr (SemaphoreServer (LRU (LRUCache_new 0)) 25)"
    by (simp add: createHTTPServer_def createCacheStrategy_def to_size_t_def)
  with cache_size_edge_cases [OF _ _ s, of 0 5 "''u''" "''data''" 4 "''v''" standard] show ?thesis by simp
qed

text \<open>When the listening socket cannot be set up (no socket, the port is taken, \<open>listen\<close> fails),
  the descriptor is closed again and \<open>createServerSocket\<close> gives -1. The semaphore server then
  reports the error; the thread pool server does not look at the result: it calls \<open>accept\<close>
  on -1, which always fails, for ever, and no task ever reaches its pool.\<close>

theorem listen_failure:
  assumes "socket_result net < 0 \<or> \<not> bind_ok net (nat (port mod 65536)) \<or> \<not> listen_ok net"
    and "\<forall>r \<in> set (accept (-1)). r < 0"
  shows "fst (createServerSocket net port) = -1 \<and>
    (0 \<le> socket_result net \<longrightarrow> CloseFd (socket_result net) \<in> set (snd (createServerSocket net port))) \<and>
    SemaphoreServer_start net n port = Inl (runtime_error ''Failed to create server socket'') \<and>
    ThreadPoolServer_start net accept port = (-1, [])"
proof -
  have none: "\<forall>r \<in> set rs. r < 0 \<Longrightarrow> accept_loop rs = []" for rs by (induction rs) auto
  have "fst (createServerSocket net port) = -1 \<and>
    (0 \<le> socket_result net \<longrightarrow> CloseFd (socket_result net) \<in> set (snd (createServerSocket net port)))"
    using assms(1) by (auto simp: createServerSocket_def Let_def)
  then show ?thesis
    using none [OF assms(2)] by (simp add: SemaphoreServer_start_def ThreadPoolServer_start_def Let_def)
qed

theorem listen_failure_witness:
  "ThreadPoolServer_start \<lparr>socket_result = 5, bind_ok = (\<lambda>p. p \<noteq> 8080), listen_ok = True,
     resolves = (\<lambda>_ _. True), connects = True\<rparr> (\<lambda>fd. if fd = 5 then [6, 7] else [-1, -1, -1]) 8080 = (-1, [])"
  using listen_failure [of "\<lparr>socket_result = 5, bind_ok = (\<lambda>p. p \<noteq> 8080), listen_ok = True,
     resolves = (\<lambda>_ _. True), connects = True\<rparr>" 8080 "\<lambda>fd. if fd = 5 then [6, 7] else [-1, -1, -1]" 25] by simp

end
