(* ===== verification/V1_Cache.thy ===== *)
theory V1_Cache
  imports Prelude
begin

text \<open>
  The cache of the first version (\<^verbatim>\<open>v1/proxy_server_with_cache.c\<close>; the version
  with the thread pool has the same functions): a singly linked list of elements under the
  global mutex \<open>lock\<close>, with a limit on the total size. A mutex of the default type is not
  recursive, so a thread that locks it twice waits for itself: an operation may \<open>Block\<close>.
  The outer option is \<open>None\<close> for undefined behaviour and for a walk along a cyclic list. An
  address is what \<open>malloc\<close> returned; the time is an argument.
\<close>

subsection \<open>State and operations\<close>

record element =
  el_data :: block
  el_len :: int
  el_url :: string
  el_time :: int
  el_next :: "nat option"

record v1_cache =
  mem :: "nat \<rightharpoonup> element"
  head :: "nat option"
  cache_size :: int
  lock :: bool

datatype 'a run = Returns 'a | Blocks

definition MAX_SIZE :: int where
  "MAX_SIZE = 200 * 1048576"

definition MAX_ELEMENT_SIZE :: int where
  "MAX_ELEMENT_SIZE = 10 * 1048576"

text \<open>\<open>sizeof(cache_element)\<close> on a 64-bit machine.\<close>

definition ELEMENT_SIZE :: int where
  "ELEMENT_SIZE = 40"

partial_function (option) find_loop ::
  "(nat \<rightharpoonup> element) \<Rightarrow> nat option \<Rightarrow> string \<Rightarrow> nat option option" where
  "find_loop m site url = (case site of
       None \<Rightarrow> Some None
     | Some a \<Rightarrow> (case m a of
           None \<Rightarrow> None
         | Some e \<Rightarrow> if el_url e = url then Some (Some a) else find_loop m (el_next e) url))"

definition v1_find :: "v1_cache \<Rightarrow> string \<Rightarrow> int \<Rightarrow> (v1_cache \<times> nat option) run option" where
  "v1_find c url now = (if lock c then Some Blocks else do {
     site \<leftarrow> find_loop (mem c) (head c) url;
     Some (Returns (case site of
         None \<Rightarrow> (c, None)
       | Some a \<Rightarrow> (c\<lparr>mem := (mem c)(a := map_option (\<lambda>e. e\<lparr>el_time := now\<rparr>) (mem c a))\<rparr>, Some a))) })"

text \<open>The search for the oldest element: \<open>temp\<close> is the oldest so far, \<open>p\<close> the one before it.\<close>

partial_function (option) scan ::
  "(nat \<rightharpoonup> element) \<Rightarrow> nat \<Rightarrow> nat \<Rightarrow> nat \<Rightarrow> (nat \<times> nat) option" where
  "scan m q p temp = (case m q of None \<Rightarrow> None | Some eq \<Rightarrow>
     (case el_next eq of
        None \<Rightarrow> Some (p, temp)
      | Some r \<Rightarrow> (case (m r, m temp) of
            (Some er, Some et) \<Rightarrow>
              if el_time er < el_time et then scan m r q r else scan m r p temp
          | _ \<Rightarrow> None)))"

definition remove_cache_element :: "v1_cache \<Rightarrow> v1_cache run option" where
  "remove_cache_element c = (if lock c then Some Blocks else (case head c of
       None \<Rightarrow> Some (Returns c)
     | Some h \<Rightarrow> do {
         (p, temp) \<leftarrow> scan (mem c) h h h;
         et \<leftarrow> mem c temp;
         c \<leftarrow> (if temp = h then Some (c\<lparr>head := el_next et\<rparr>)
           else do { ep \<leftarrow> mem c p;
             Some (c\<lparr>mem := (mem c)(p \<mapsto> ep\<lparr>el_next := el_next et\<rparr>)\<rparr>) });
         Some (Returns (c\<lparr>
           cache_size := cache_size c - el_len et - ELEMENT_SIZE - int (length (el_url et)) - 1,
           mem := (mem c)(temp := None)\<rparr>)) }))"

text \<open>The eviction loop of \<open>add_cache_element\<close>, which runs while the caller holds \<open>lock\<close>.\<close>

partial_function (option) make_room :: "v1_cache \<Rightarrow> int \<Rightarrow> v1_cache run option" where
  "make_room c n = (if cache_size c + n > MAX_SIZE
     then (case remove_cache_element c of
         None \<Rightarrow> None
       | Some Blocks \<Rightarrow> Some Blocks
       | Some (Returns c) \<Rightarrow> make_room c n)
     else Some (Returns c))"

text \<open>
  \<open>a\<close> is the address of the new element. The result is the state and the return code; when
  the call blocks, the state it leaves behind is given too: the lock is held for ever.
\<close>

definition add_cache_element ::
  "v1_cache \<Rightarrow> nat \<Rightarrow> int \<Rightarrow> string \<Rightarrow> int \<Rightarrow> string \<Rightarrow> (v1_cache \<times> int run) option" where
  "add_cache_element c a now data sz url = (if lock c then Some (c, Blocks) else do {
     let c = c\<lparr>lock := True\<rparr>;
     let element_size = to_int32 (sz + 1 + int (length url) + ELEMENT_SIZE);
     if element_size > MAX_ELEMENT_SIZE then Some (c\<lparr>lock := False\<rparr>, Returns 0)
     else (case make_room c element_size of
         None \<Rightarrow> None
       | Some Blocks \<Rightarrow> Some (c, Blocks)
       | Some (Returns c) \<Rightarrow>
           if sz < int (length data) then None
           else Some (c\<lparr>mem := (mem c)(a \<mapsto> \<lparr>
                 el_data = data @ NUL # replicate (nat sz - length data) (CHR ''?''),
                 el_len = sz, el_url = url, el_time = now, el_next = head c\<rparr>),
               head := Some a, cache_size := cache_size c + element_size, lock := False\<rparr>, Returns 1)) })"

subsection \<open>The list in the heap\<close>

fun chain :: "(nat \<rightharpoonup> element) \<Rightarrow> nat option \<Rightarrow> nat list \<Rightarrow> bool" where
  "chain m p [] = (p = None)"
| "chain m p (a # as) = (p = Some a \<and> (\<exists>e. m a = Some e \<and> chain m (el_next e) as))"

text \<open>What the list says: URL, response, length, time of the last access.\<close>

fun item :: "element option \<Rightarrow> string \<times> block \<times> int \<times> int" where
  "item None = ([], [], 0, 0)"
| "item (Some e) = (el_url e, el_data e, el_len e, el_time e)"

definition items :: "(nat \<rightharpoonup> element) \<Rightarrow> nat list \<Rightarrow> (string \<times> block \<times> int \<times> int) list" where
  "items m as = map (\<lambda>a. item (m a)) as"

abbreviation "it_url i \<equiv> fst i"
abbreviation "it_len i \<equiv> fst (snd (snd i))"
abbreviation "it_time i \<equiv> snd (snd (snd i))"

definition charge :: "(string \<times> block \<times> int \<times> int) list \<Rightarrow> int" where
  "charge is = sum_list (map (\<lambda>i. it_len i + ELEMENT_SIZE + int (length (it_url i)) + 1) is)"

text \<open>
  The invariant: the list is a chain of different elements, which are all that is allocated,
  and \<open>cache_size\<close> is the sum of what the elements were charged, within the limit.
\<close>

definition v1_wf :: "v1_cache \<Rightarrow> nat list \<Rightarrow> bool" where
  "v1_wf c as = (chain (mem c) (head c) as \<and> distinct as \<and> dom (mem c) = set as \<and>
     cache_size c = charge (items (mem c) as) \<and> cache_size c \<le> MAX_SIZE \<and>
     (\<forall>a e. mem c a = Some e \<longrightarrow> 0 \<le> el_len e) \<and> \<not> lock c)"

lemma chain_upd: "a \<notin> set as \<Longrightarrow> chain (m(a := x)) p as = chain m p as"
  by (induction as arbitrary: p) auto

lemma items_upd: "a \<notin> set as \<Longrightarrow> items (m(a := x)) as = items m as"
  by (auto simp: items_def)

lemma chain_time:
  "chain (m(a := map_option (\<lambda>e. e\<lparr>el_time := t\<rparr>) (m a))) p as = chain m p as"
  by (induction as arbitrary: p) auto

lemma chain_mem: "chain m p as \<Longrightarrow> a \<in> set as \<Longrightarrow> \<exists>e. m a = Some e"
  by (induction as arbitrary: p) auto


lemma v1_wf_mem: "v1_wf c as \<Longrightarrow> a \<in> set as \<Longrightarrow> \<exists>e. mem c a = Some e"
  using chain_mem [of "mem c" "head c" as a] by (simp add: v1_wf_def)

subsection \<open>Finding\<close>

lemma find_loop_spec:
  "chain m p as \<Longrightarrow> find_loop m p url = Some (List.find (\<lambda>a. it_url (item (m a)) = url) as)"
proof (induction as arbitrary: p)
  case Nil
  then show ?case by (subst find_loop.simps) simp
next
  case (Cons a as)
  then show ?case by (subst find_loop.simps) auto
qed

subsection \<open>Removing the oldest\<close>

abbreviation tm :: "(nat \<rightharpoonup> element) \<Rightarrow> nat \<Rightarrow> int" where
  "tm m a \<equiv> it_time (item (m a))"

text \<open>\<open>t\<close> is the first of the least recently used elements of the list \<open>as\<close>, \<open>p\<close> the one before.\<close>

definition oldest :: "(nat \<rightharpoonup> element) \<Rightarrow> nat list \<Rightarrow> nat \<Rightarrow> nat \<Rightarrow> nat list \<Rightarrow> nat list \<Rightarrow> bool" where
  "oldest m as p t us vs = (as = us @ t # vs \<and> (us \<noteq> [] \<longrightarrow> p = last us) \<and>
     (\<forall>u \<in> set us. tm m t < tm m u) \<and> (\<forall>v \<in> set vs. tm m t \<le> tm m v))"

lemma scan_spec:
  assumes "chain m (Some q) (q # post)" "oldest m visited p t us vs" "visited \<noteq> []" "last visited = q"
    and "\<forall>a \<in> set visited. \<exists>e. m a = Some e"
  shows "\<exists>p' t' us' vs'. scan m q p t = Some (p', t') \<and> oldest m (visited @ post) p' t' us' vs'"
  using assms
proof (induction post arbitrary: q visited p t us vs)
  case Nil
  then have "scan m q p t = Some (p, t)" by (subst scan.simps) auto
  with Nil.prems(2) show ?case by auto
next
  case (Cons r post)
  from Cons.prems(1) obtain eq er where q: "m q = Some eq" "el_next eq = Some r" "m r = Some er"
    "chain m (Some r) (r # post)" by auto
  from Cons.prems(2,5) obtain et where t: "m t = Some et" by (auto simp: oldest_def)
  show ?case
  proof (cases "el_time er < el_time et")
    case True
    then have s: "scan m q p t = scan m r q r" using q t by (subst scan.simps) simp
    have "oldest m (visited @ [r]) q r visited []"
      using Cons.prems(2,3,4) True q(3) t by (fastforce simp: oldest_def)
    from Cons.IH [OF q(4) this] Cons.prems(5) q(3) show ?thesis unfolding s by auto
  next
    case False
    then have s: "scan m q p t = scan m r p t" using q t by (subst scan.simps) simp
    have "oldest m (visited @ [r]) p t us (vs @ [r])"
      using Cons.prems(2) False q(3) t by (auto simp: oldest_def)
    from Cons.IH [OF q(4) this] Cons.prems(5) q(3) show ?thesis unfolding s by auto
  qed
qed

lemma chain_unlink:
  assumes "chain m q (us @ p # t # vs)" "distinct (us @ p # t # vs)" "m p = Some ep" "m t = Some et"
  shows "chain (m(p \<mapsto> ep\<lparr>el_next := el_next et\<rparr>)) q (us @ p # vs)"
  using assms
proof (induction us arbitrary: q)
  case Nil
  then have "p \<notin> set vs" "chain m (el_next et) vs" "q = Some p" by auto
  then show ?case using chain_upd [of p vs m "Some (ep\<lparr>el_next := el_next et\<rparr>)" "el_next et"]
    by (simp add: fun_upd_def)
next
  case (Cons u us)
  then show ?case by auto
qed

lemma charge_append: "charge (xs @ ys) = charge xs + charge ys"
  by (simp add: charge_def)

lemma charge_Cons: "charge (i # is) = it_len i + ELEMENT_SIZE + int (length (it_url i)) + 1 + charge is"
  by (simp add: charge_def)

lemma items_append: "items m (xs @ ys) = items m xs @ items m ys"
  by (simp add: items_def)

lemma items_Cons: "items m (a # as) = item (m a) # items m as"
  by (simp add: items_def)

lemma charge_nonneg:
  assumes "\<forall>a e. m a = Some e \<longrightarrow> 0 \<le> el_len e"
  shows "0 \<le> charge (items m as)"
proof (induction as)
  case Nil
  then show ?case by (simp add: charge_def items_def)
next
  case (Cons a as)
  have "0 \<le> it_len (item (m a))" using assms by (cases "m a") auto
  with Cons show ?case by (simp add: items_Cons charge_Cons ELEMENT_SIZE_def)
qed

text \<open>What is left when the element at t is gone, however it was unlinked.\<close>

lemma removed_wf:
  assumes "v1_wf c (us @ t # vs)" "mem c t = Some et" "chain m h (us @ vs)" "dom m = set (us @ vs)"
    and "items m (us @ vs) = items (mem c) us @ items (mem c) vs" "\<forall>a e. m a = Some e \<longrightarrow> 0 \<le> el_len e"
  shows "v1_wf (c\<lparr>mem := m, head := h,
    cache_size := cache_size c - el_len et - ELEMENT_SIZE - int (length (el_url et)) - 1\<rparr>) (us @ vs)"
proof -
  from assms(1) have wf: "distinct (us @ t # vs)" "cache_size c = charge (items (mem c) (us @ t # vs))"
    "cache_size c \<le> MAX_SIZE" "\<forall>a e. mem c a = Some e \<longrightarrow> 0 \<le> el_len e" "\<not> lock c" by (simp_all add: v1_wf_def)
  have size: "cache_size c - el_len et - ELEMENT_SIZE - int (length (el_url et)) - 1 = charge (items m (us @ vs))"
    unfolding assms(5) using wf(2) assms(2) by (simp add: items_append items_Cons charge_append charge_Cons)
  have "0 \<le> el_len et" using wf(4) assms(2) by blast
  then have "cache_size c - el_len et - ELEMENT_SIZE - int (length (el_url et)) - 1 \<le> MAX_SIZE"
    using wf(3) by (simp add: ELEMENT_SIZE_def)
  with wf(1,5) size assms(3,4,6) show ?thesis by (simp add: v1_wf_def)
qed

lemma items_cong: "(\<And>a. a \<in> set as \<Longrightarrow> item (m a) = item (m' a)) \<Longrightarrow> items m as = items m' as"
  by (simp add: items_def)

text \<open>The memory after the element at t is unlinked, and where the list then starts.\<close>

lemma unlinked:
  assumes wf: "v1_wf c (us @ t # vs)" and p: "us \<noteq> [] \<longrightarrow> p = last us"
  shows "\<exists>et m h. mem c t = Some et \<and> (if us = [] then m = (mem c)(t := None) \<and> h = el_next et
      else \<exists>ep. mem c p = Some ep \<and> m = (mem c)(p \<mapsto> ep\<lparr>el_next := el_next et\<rparr>, t := None) \<and> h = head c) \<and>
    chain m h (us @ vs) \<and> dom m = set (us @ vs) \<and>
    items m (us @ vs) = items (mem c) us @ items (mem c) vs \<and> (\<forall>a e. m a = Some e \<longrightarrow> 0 \<le> el_len e)"
proof -
  have ch: "chain (mem c) (head c) (us @ t # vs)" "distinct (us @ t # vs)" "dom (mem c) = set (us @ t # vs)"
    and nn: "\<forall>a e. mem c a = Some e \<longrightarrow> 0 \<le> el_len e" using wf by (simp_all add: v1_wf_def)
  obtain et where et: "mem c t = Some et" using v1_wf_mem [OF wf, of t] by auto
  have tn: "t \<notin> set us" "t \<notin> set vs" using ch(2) by auto
  show ?thesis
  proof (cases us rule: rev_cases)
    case Nil
    let ?m = "(mem c)(t := None)"
    have "chain ?m (el_next et) vs" using ch(1) et Nil tn by (simp add: chain_upd)
    moreover have "dom ?m = set vs" using ch(2,3) Nil by auto
    ultimately show ?thesis using Nil et tn nn
      by (intro exI [of _ et] exI [of _ ?m] exI [of _ "el_next et"]) (simp add: items_upd items_def)
  next
    case (snoc us1 q)
    then have pq: "p = q" "p \<in> set us" "p \<noteq> t" using p tn by auto
    obtain ep where ep: "mem c p = Some ep" using v1_wf_mem [OF wf, of p] pq(2) by auto
    let ?m = "(mem c)(p \<mapsto> ep\<lparr>el_next := el_next et\<rparr>, t := None)"
    have "chain ((mem c)(p \<mapsto> ep\<lparr>el_next := el_next et\<rparr>)) (head c) (us1 @ p # vs)"
      by (rule chain_unlink [OF _ _ ep et]) (use ch(1,2) snoc pq(1) in simp_all)
    then have c: "chain ?m (head c) (us @ vs)" using snoc pq(1) tn by (simp add: chain_upd)
    have d: "dom ?m = set (us @ vs)" using ch(3) tn pq(2) by auto
    have im: "items ?m (us @ vs) = items (mem c) us @ items (mem c) vs"
      unfolding items_append [symmetric] by (rule items_cong) (use tn ep in auto)
    have "0 \<le> el_len e" if "?m a = Some e" for a e using that nn ep by (auto split: if_splits)
    with c d im et ep snoc show ?thesis
      by (intro exI [of _ et] exI [of _ ?m] exI [of _ "head c"]) simp
  qed
qed

lemma remove_spec_v1:
  assumes wf: "v1_wf c as" and ne: "as \<noteq> []"
  shows "\<exists>c' us t vs. remove_cache_element c = Some (Returns c') \<and> as = us @ t # vs \<and>
    (\<forall>u \<in> set us. tm (mem c) t < tm (mem c) u) \<and> (\<forall>v \<in> set vs. tm (mem c) t \<le> tm (mem c) v) \<and>
    v1_wf c' (us @ vs) \<and> items (mem c') (us @ vs) = items (mem c) us @ items (mem c) vs"
proof -
  obtain h as1 where h: "as = h # as1" using ne by (cases as) auto
  have hd: "head c = Some h" "chain (mem c) (Some h) (h # as1)" "\<not> lock c" "distinct as"
    using wf h by (simp_all add: v1_wf_def)
  have "oldest (mem c) [h] h h [] []" by (simp add: oldest_def)
  moreover have "\<forall>a \<in> set [h]. \<exists>e. mem c a = Some e" using hd(2) by auto
  ultimately obtain p t us vs where
    sc: "scan (mem c) h h h = Some (p, t)" and old: "oldest (mem c) as p t us vs"
    using scan_spec [OF hd(2), of "[h]" h h "[]" "[]"] h by auto
  from old have sp: "as = us @ t # vs" "us \<noteq> [] \<longrightarrow> p = last us"
    "\<forall>u \<in> set us. tm (mem c) t < tm (mem c) u" "\<forall>v \<in> set vs. tm (mem c) t \<le> tm (mem c) v"
    by (auto simp: oldest_def)
  from unlinked [OF wf [unfolded sp(1)] sp(2)] obtain et m h' where
    et: "mem c t = Some et" and m: "if us = [] then m = (mem c)(t := None) \<and> h' = el_next et
      else \<exists>ep. mem c p = Some ep \<and> m = (mem c)(p \<mapsto> ep\<lparr>el_next := el_next et\<rparr>, t := None) \<and> h' = head c"
    and u: "chain m h' (us @ vs)" "dom m = set (us @ vs)" "items m (us @ vs) = items (mem c) us @ items (mem c) vs"
      "\<forall>a e. m a = Some e \<longrightarrow> 0 \<le> el_len e" by blast
  let ?c = "c\<lparr>mem := m, head := h', cache_size := cache_size c - el_len et - ELEMENT_SIZE - int (length (el_url et)) - 1\<rparr>"
  have th: "t = h \<longleftrightarrow> us = []" using sp(1) h hd(4) by (cases us) auto
  have "remove_cache_element c = Some (Returns ?c)"
    using hd(1,3) sc et m th by (auto simp: remove_cache_element_def split: if_splits)
  moreover have "v1_wf ?c (us @ vs)" by (rule removed_wf [OF wf [unfolded sp(1)] et u(1,2,3,4)])
  ultimately show ?thesis using sp(1,3,4) u(3)
    by (intro exI [of _ ?c] exI [of _ us] exI [of _ t] exI [of _ vs]) simp
qed

subsection \<open>Adding\<close>

lemma make_room_fits: "cache_size c + n \<le> MAX_SIZE \<Longrightarrow> make_room c n = Some (Returns c)"
  by (subst make_room.simps) simp

lemma make_room_full:
  "lock c \<Longrightarrow> MAX_SIZE < cache_size c + n \<Longrightarrow> make_room c n = Some Blocks"
  by (subst make_room.simps) (simp add: remove_cache_element_def)

lemma v1_empty: "v1_wf \<lparr>mem = Map.empty, head = None, cache_size = 0, lock = False\<rparr> []"
  by (simp add: v1_wf_def items_def charge_def MAX_SIZE_def)

lemma find_spec_v1:
  assumes "v1_wf c as"
  shows "\<exists>c' r. v1_find c url now = Some (Returns (c', r)) \<and> v1_wf c' as \<and>
    r = List.find (\<lambda>a. it_url (item (mem c a)) = url) as \<and>
    items (mem c') as = map (\<lambda>a. if r = Some a
      then (it_url (item (mem c a)), fst (snd (item (mem c a))), it_len (item (mem c a)), now)
      else item (mem c a)) as"
proof -
  let ?r = "List.find (\<lambda>a. it_url (item (mem c a)) = url) as"
  have ch: "chain (mem c) (head c) as" "\<not> lock c" "dom (mem c) = set as" using assms by (auto simp: v1_wf_def)
  note fl = find_loop_spec [OF ch(1), of url]
  show ?thesis
  proof (cases ?r)
    case None
    with fl ch(2) assms show ?thesis by (simp add: v1_find_def items_def)
  next
    case (Some a)
    then have "a \<in> set as" by (rule find_SomeD)
    then obtain e where e: "mem c a = Some e" using ch(3) by auto
    let ?c = "c\<lparr>mem := (mem c)(a := map_option (\<lambda>e. e\<lparr>el_time := now\<rparr>) (mem c a))\<rparr>"
    have im: "items (mem ?c) as = map (\<lambda>b. if Some a = Some b
      then (it_url (item (mem c b)), fst (snd (item (mem c b))), it_len (item (mem c b)), now)
      else item (mem c b)) as" using e by (auto simp: items_def)
    have "charge (items (mem ?c) as) = charge (items (mem c) as)"
      unfolding im by (simp add: charge_def items_def comp_def if_distrib cong: if_cong)
    moreover have "dom (mem ?c) = dom (mem c)" using e by auto
    ultimately have "v1_wf ?c as"
      using assms ch(1) chain_time [of "mem c" a now] by (auto simp: v1_wf_def split: if_splits)
    with fl Some ch(2) im show ?thesis by (simp add: v1_find_def)
  qed
qed

lemma add_spec_v1:
  assumes "v1_wf c as" "a \<notin> set as" "int (length data + length url) < 2147483600"
    and "cache_size c + int (length data + length url) + 41 \<le> MAX_SIZE"
  shows "\<exists>c'. add_cache_element c a now data (int (length data)) url =
      Some (c', Returns (if int (length data + length url) + 41 > MAX_ELEMENT_SIZE then 0 else 1)) \<and>
    (if int (length data + length url) + 41 > MAX_ELEMENT_SIZE then c' = c
     else v1_wf c' (a # as) \<and>
       items (mem c') (a # as) = (url, data @ [NUL], int (length data), now) # items (mem c) as)"
proof -
  let ?n = "int (length data) + 1 + int (length url) + ELEMENT_SIZE"
  have n: "to_int32 ?n = ?n" using assms(3) by (simp add: to_int32_id ELEMENT_SIZE_def)
  have eq: "?n = int (length data + length url) + 41" by (simp add: ELEMENT_SIZE_def)
  have lk: "\<not> lock c" using assms(1) by (simp add: v1_wf_def)
  have unl: "c\<lparr>lock := False\<rparr> = c" using lk by simp
  show ?thesis
  proof (cases "?n > MAX_ELEMENT_SIZE")
    case True
    then show ?thesis unfolding add_cache_element_def Let_def n using lk eq unl by simp
  next
    case False
    have room: "cache_size (c\<lparr>lock := True\<rparr>) + ?n \<le> MAX_SIZE" using assms(4) eq by simp
    let ?e = "\<lparr>el_data = data @ [NUL], el_len = int (length data), el_url = url, el_time = now, el_next = head c\<rparr>"
    let ?c = "c\<lparr>mem := (mem c)(a \<mapsto> ?e), head := Some a, cache_size := cache_size c + ?n, lock := False\<rparr>"
    have ad: "add_cache_element c a now data (int (length data)) url = Some (?c, Returns 1)"
      unfolding add_cache_element_def Let_def n using lk False make_room_fits [OF room] by simp
    have "v1_wf ?c (a # as)"
      using assms(1,2,4) eq by (auto simp: v1_wf_def chain_upd items_upd items_Cons charge_Cons ELEMENT_SIZE_def)
    moreover have "items (mem ?c) (a # as) = (url, data @ [NUL], int (length data), now) # items (mem c) as"
      using assms(2) by (simp add: items_Cons items_upd)
    ultimately show ?thesis using ad False eq by simp
  qed
qed

text \<open>An element that does not fit: the eviction waits for the mutex that its caller holds.\<close>

lemma full_cache_blocks:
  assumes "\<not> lock c" "0 \<le> n" "n + int (length url) + 41 \<le> MAX_ELEMENT_SIZE"
    and "MAX_SIZE < cache_size c + n + int (length url) + 41"
  shows "add_cache_element c a now data n url = Some (c\<lparr>lock := True\<rparr>, Blocks) \<and>
    v1_find (c\<lparr>lock := True\<rparr>) url' now' = Some Blocks"
proof -
  let ?n = "n + 1 + int (length url) + ELEMENT_SIZE"
  have n: "to_int32 ?n = ?n" using assms(2,3) by (simp add: to_int32_id ELEMENT_SIZE_def MAX_ELEMENT_SIZE_def)
  have "make_room (c\<lparr>lock := True\<rparr>) ?n = Some Blocks"
    using assms(4) by (intro make_room_full) (simp_all add: ELEMENT_SIZE_def)
  then show ?thesis unfolding add_cache_element_def Let_def n using assms(1,3)
    by (simp add: v1_find_def ELEMENT_SIZE_def)
qed

subsection \<open>Properties\<close>

text \<open>\<open>find\<close> walks the list to its end: it returns the first element of the URL, sets only
  its access time, and keeps the invariant; without such an element it returns NULL and
  changes nothing. It always returns and always releases the lock.\<close>

theorem v1_find_first:
  assumes "v1_wf c as"
  shows "\<exists>c' r. v1_find c url now = Some (Returns (c', r)) \<and> v1_wf c' as \<and>
    r = List.find (\<lambda>a. it_url (item (mem c a)) = url) as \<and>
    items (mem c') as = map (\<lambda>a. if r = Some a
      then (it_url (item (mem c a)), fst (snd (item (mem c a))), it_len (item (mem c a)), now)
      else item (mem c a)) as"
  by (rule find_spec_v1 [OF assms])

text \<open>An element for the examples.\<close>

definition one_element :: "int \<Rightarrow> v1_cache" where
  "one_element n = \<lparr>mem = [0 \<mapsto> \<lparr>el_data = [NUL], el_len = n, el_url = ''u'', el_time = 3, el_next = None\<rparr>],
     head = Some 0, cache_size = n + 42, lock = False\<rparr>"

lemma one_element_wf: "0 \<le> n \<Longrightarrow> n \<le> 1000 \<Longrightarrow> v1_wf (one_element n) [0]"
  by (simp add: v1_wf_def one_element_def items_def charge_def ELEMENT_SIZE_def MAX_SIZE_def)

theorem v1_find_first_witness:
  "\<exists>c. v1_find (one_element 5) ''u'' 9 = Some (Returns (c, Some 0)) \<and>
    items (mem c) [0] = [(''u'', [NUL], 5, 9)]"
  using v1_find_first [OF one_element_wf, of 5 "''u''" 9]
  by (auto simp: one_element_def items_def)

text \<open>\<open>remove_cache_element\<close> called without the lock: on a non-empty list it unlinks and frees
  exactly one element, the first of those with the least access time, keeps the order of the
  others, and \<open>cache_size\<close> stays the sum of what the remaining elements were charged.\<close>

theorem v1_remove_oldest:
  assumes "v1_wf c as" "as \<noteq> []"
  shows "\<exists>c' us t vs. remove_cache_element c = Some (Returns c') \<and> as = us @ t # vs \<and>
    (\<forall>u \<in> set us. tm (mem c) t < tm (mem c) u) \<and> (\<forall>v \<in> set vs. tm (mem c) t \<le> tm (mem c) v) \<and>
    v1_wf c' (us @ vs) \<and> items (mem c') (us @ vs) = items (mem c) us @ items (mem c) vs"
  by (rule remove_spec_v1 [OF assms])

theorem v1_remove_oldest_witness:
  "\<exists>c. remove_cache_element (one_element 5) = Some (Returns c) \<and> v1_wf c []"
  using v1_remove_oldest [OF one_element_wf, of 5] by (auto simp: Cons_eq_append_conv)

text \<open>\<open>add_cache_element\<close> with room: an element over 10 MB is refused with 0 and nothing
  changes; otherwise, when the total stays within 200 MB, the element is put at the head with a
  NUL-terminated copy of the data, the return code is 1, the lock is released and the
  accounting of \<open>cache_size\<close> holds.\<close>

theorem v1_add_with_room:
  assumes "v1_wf c as" "a \<notin> set as" "int (length data + length url) < 2147483600"
    and "cache_size c + int (length data + length url) + 41 \<le> MAX_SIZE"
  shows "\<exists>c'. add_cache_element c a now data (int (length data)) url =
      Some (c', Returns (if int (length data + length url) + 41 > MAX_ELEMENT_SIZE then 0 else 1)) \<and>
    (if int (length data + length url) + 41 > MAX_ELEMENT_SIZE then c' = c
     else v1_wf c' (a # as) \<and>
       items (mem c') (a # as) = (url, data @ [NUL], int (length data), now) # items (mem c) as)"
  by (rule add_spec_v1 [OF assms])

theorem v1_add_with_room_witness:
  "\<exists>c. add_cache_element (one_element 5) 1 7 ''data'' 4 ''w'' = Some (c, Returns 1) \<and> v1_wf c [1, 0]"
  using v1_add_with_room [OF one_element_wf, of 5 1 "''data''" "''w''" 7]
  by (auto simp: one_element_def MAX_SIZE_def MAX_ELEMENT_SIZE_def)

text \<open>Deadlock of the full cache: when an element of admissible size does not fit,
  \<open>add_cache_element\<close>, which holds \<open>lock\<close>, calls \<open>remove_cache_element\<close>, which locks it again.
  The call never returns, nothing is evicted, and the lock stays held, so every later \<open>find\<close>,
  and with it every client, blocks too.\<close>

theorem v1_full_cache_deadlocks:
  assumes "\<not> lock c" "0 \<le> n" "n + int (length url) + 41 \<le> MAX_ELEMENT_SIZE"
    and "MAX_SIZE < cache_size c + n + int (length url) + 41"
  shows "add_cache_element c a now data n url = Some (c\<lparr>lock := True\<rparr>, Blocks) \<and>
    v1_find (c\<lparr>lock := True\<rparr>) url' now' = Some Blocks"
  by (rule full_cache_blocks [OF assms])

theorem v1_full_cache_deadlocks_witness:
  "add_cache_element ((one_element 5)\<lparr>cache_size := MAX_SIZE\<rparr>) 1 7 ''data'' 4 ''w'' =
    Some ((one_element 5)\<lparr>cache_size := MAX_SIZE, lock := True\<rparr>, Blocks)"
  using v1_full_cache_deadlocks [of "(one_element 5)\<lparr>cache_size := MAX_SIZE\<rparr>" 4 "''w''" 1 7 "''data''"]
  by (simp add: one_element_def MAX_SIZE_def MAX_ELEMENT_SIZE_def)

end
