(* ===== verification/V1_Server.thy ===== *)
theory V1_Server
  imports Proxy_Utils V1_Cache
begin

text \<open>
  The handler of the first version with the thread pool
  (\<^verbatim>\<open>v1/proxy_server_with_threadpool_and_cache.c\<close>): the error pages, the request to
  the origin server, the relay of the response through \<open>temp_buffer\<close>, and \<open>handle_client\<close>.
  The \<open>thread_fn\<close> of \<^verbatim>\<open>v1/proxy_server_with_cache.c\<close> has the same loops. Memory
  that \<open>malloc\<close> does not initialise is an argument \<open>junk\<close>.
\<close>

definition MAX_BYTES :: nat where
  "MAX_BYTES = 4096"

subsection \<open>Error pages\<close>

definition checkHTTPversion :: "string \<Rightarrow> int" where
  "checkHTTPversion msg = (if strncmp_eq msg ''HTTP/1.1'' 8 then 1
     else if strncmp_eq msg ''HTTP/1.0'' 8 then 1 else -1)"

text \<open>
  Status line, \<open>Content-Length\<close>, whether \<open>Connection\<close> comes before \<open>Content-Type\<close> (\<open>Some
  True\<close>), after it (\<open>Some False\<close>) or is missing, title and heading of the page.
\<close>

definition error_page ::
  "string \<Rightarrow> string \<Rightarrow> bool option \<Rightarrow> string \<Rightarrow> string \<Rightarrow> string \<Rightarrow> string" where
  "error_page status len conn title body currentTime =
     ''HTTP/1.1 '' @ status @ CRLF @ ''Content-Length: '' @ len @ CRLF @
     (if conn = Some True then ''Connection: keep-alive'' @ CRLF else []) @
     ''Content-Type: text/html'' @ CRLF @
     (if conn = Some False then ''Connection: keep-alive'' @ CRLF else []) @
     ''Date: '' @ currentTime @ CRLF @ ''Server: VaibhavN/14785'' @ CRLF @ CRLF @
     ''<HTML><HEAD><TITLE>'' @ title @ ''</TITLE></HEAD>'' @ [LF] @ ''<BODY><H1>'' @ body @ [LF] @
     ''</BODY></HTML>''"

definition error_text :: "int \<Rightarrow> string \<Rightarrow> string option" where
  "error_text status_code currentTime =
    (if status_code = 400 then Some (error_page ''400 Bad Request'' ''95'' (Some True)
        ''400 Bad Request'' ''400 Bad Rqeuest</H1>'' currentTime)
     else if status_code = 403 then Some (error_page ''403 Forbidden'' ''112'' (Some False)
        ''403 Forbidden'' ''403 Forbidden</H1><br>Permission Denied'' currentTime)
     else if status_code = 404 then Some (error_page ''404 Not Found'' ''91'' (Some False)
        ''404 Not Found'' ''404 Not Found</H1>'' currentTime)
     else if status_code = 500 then Some (error_page ''500 Internal Server Error'' ''115'' (Some True)
        ''500 Internal Server Error'' ''500 Internal Server Error</H1>'' currentTime)
     else if status_code = 501 then Some (error_page ''501 Not Implemented'' ''103'' (Some True)
        ''404 Not Implemented'' ''501 Not Implemented</H1>'' currentTime)
     else if status_code = 505 then Some (error_page ''505 HTTP Version Not Supported'' ''125'' (Some True)
        ''505 HTTP Version Not Supported'' ''505 HTTP Version Not Supported</H1>'' currentTime)
     else None)"

text \<open>What is sent (through \<open>str\<close>, an array of 1024 bytes) and the return code.\<close>

definition sendErrorMessage :: "int \<Rightarrow> string \<Rightarrow> block \<times> int" where
  "sendErrorMessage status_code currentTime = (case error_text status_code currentTime of
       None \<Rightarrow> ([], -1)
     | Some t \<Rightarrow> (takeWhile (\<lambda>c. c \<noteq> NUL) (snprintf 1024 t), 1))"

subsection \<open>The request to the origin server\<close>

text \<open>
  The part of \<open>handle_request\<close> that builds the request in a fresh block \<open>junk\<close>; the result is
  the request object and the string that is sent, up to the first NUL behind the headers.
\<close>

definition build_request ::
  "(nat \<Rightarrow> bool) \<Rightarrow> ParsedRequest \<Rightarrow> block \<Rightarrow> (ParsedRequest \<times> string) option" where
  "build_request realloc_ok request junk = do {
     buf \<leftarrow> strcpy junk ''GET '';
     pa \<leftarrow> deref request (pr_path request);
     buf \<leftarrow> strcat buf pa;
     buf \<leftarrow> strcat buf '' '';
     ve \<leftarrow> deref request (pr_version request);
     buf \<leftarrow> strcat buf ve;
     buf \<leftarrow> strcat buf CRLF;
     len \<leftarrow> strlen buf 0;
     (request, _) \<leftarrow> ParsedHeader_set realloc_ok request ''Connection'' ''close'';
     r \<leftarrow> ParsedHeader_get request (Some ''Host'');
     request \<leftarrow> (if r = None then do {
         ho \<leftarrow> deref request (pr_host request);
         (request, _) \<leftarrow> ParsedHeader_set realloc_ok request ''Host'' ho;
         Some request } else Some request);
     (buf, _) \<leftarrow> ParsedRequest_unparse_headers request buf len (MAX_BYTES - len);
     s \<leftarrow> str_at buf 0;
     Some (request, s) }"

subsection \<open>The response\<close>

text \<open>
  The loop over the response: the bytes in \<open>temp_buffer\<close> (its index is their number), the size
  of that block, the bytes the client got. A \<open>send\<close> that fails gives -1, which the loop that
  copies \<open>bytes_send / sizeof(char)\<close> bytes takes for the largest \<open>size_t\<close>: it runs out of the
  buffers. A short \<open>send\<close> is not repeated. The size of the block is an \<open>int\<close>, which must
  not overflow; \<open>realloc\<close> is taken to succeed. When the calls of \<open>send\<close> given are used up, the
  next one does not return.
\<close>

function relay_v1 ::
  "recv_event list \<Rightarrow> int list \<Rightarrow> string \<Rightarrow> nat \<Rightarrow> block \<Rightarrow> (string \<times> nat \<times> block \<times> relay_end) option" where
  "relay_v1 es ks temp cap out = (case recv (MAX_BYTES - 1) es of
       None \<Rightarrow> Some (temp, cap, out, Pending)
     | Some (Closed, es) \<Rightarrow> Some (temp, cap, out, Clean)
     | Some (RecvError, es) \<Rightarrow> Some (temp, cap, out, Broken)
     | Some (Data d, es) \<Rightarrow> (case ks of
           [] \<Rightarrow> Some (temp, cap, out, Pending)
         | k # ks \<Rightarrow>
             if k < 0 then None
             else let sent = take (nat k) d in
               if cap < length temp + length sent \<or> 2147483648 \<le> cap + MAX_BYTES then None
               else relay_v1 es ks (temp @ sent) (cap + MAX_BYTES) (out @ sent)))"
  by pat_completeness auto
termination
  by (relation "measure (\<lambda>(es, _). weight es)") (auto dest: recv_weight simp: MAX_BYTES_def)

declare relay_v1.simps [simp del]

text \<open>What is given to \<open>add_cache_element\<close>: the string in \<open>temp_buffer\<close>, up to its first NUL.\<close>

definition relay_response ::
  "recv_event list \<Rightarrow> int list \<Rightarrow> (block \<times> string option \<times> relay_end) option" where
  "relay_response es ks = do {
     (temp, cap, out, e) \<leftarrow> relay_v1 es ks [] MAX_BYTES [];
     if e = Pending then Some (out, None, e)
     else if cap \<le> length temp then None
     else Some (out, Some (takeWhile (\<lambda>c. c \<noteq> NUL) temp), e) }"

subsection \<open>The client\<close>

text \<open>
  A cached response goes out in pieces of 4096 bytes, read from the element's block whether or
  not it has that many left.
\<close>

function send_cached :: "block \<Rightarrow> nat \<Rightarrow> nat \<Rightarrow> block option" where
  "send_cached data sz pos = (if pos < sz then
       (if pos + MAX_BYTES \<le> length data
        then map_option (\<lambda>out. take MAX_BYTES (drop pos data) @ out) (send_cached data sz (pos + MAX_BYTES))
        else None)
     else Some [])"
  by pat_completeness auto
termination
  by (relation "measure (\<lambda>(_, sz, pos). sz - pos)") (auto simp: MAX_BYTES_def)

declare send_cached.simps [simp del]

text \<open>
  Receiving the request into the zeroed block of 4096 bytes; the result is the block and the
  last return code, or nothing when the client keeps it waiting.
\<close>

function recv_request :: "block \<Rightarrow> int \<Rightarrow> recv_event list \<Rightarrow> (block \<times> int) option option" where
  "recv_request buffer n es = (if n \<le> 0 then Some (Some (buffer, n)) else do {
     s \<leftarrow> str_at buffer 0;
     if strstr s (CRLF @ CRLF) \<noteq> None then Some (Some (buffer, n))
     else case recv (MAX_BYTES - length s) es of
       None \<Rightarrow> Some None
     | Some (Closed, es) \<Rightarrow> Some (Some (buffer, 0))
     | Some (RecvError, es) \<Rightarrow> Some (Some (buffer, -1))
     | Some (Data d, es) \<Rightarrow> if d = [] then Some (Some (buffer, 0)) else do {
         buffer \<leftarrow> memcpy buffer (length s) d;
         recv_request buffer (int (length d)) es } })"
  by pat_completeness auto


lemma recv_weight0: "recv n es = Some (Data d, es') \<Longrightarrow> d \<noteq> [] \<Longrightarrow> weight es' < weight es"
  by (induction n es arbitrary: es' rule: recv.induct) (auto split: if_splits)

termination recv_request
  by (relation "measure (\<lambda>(_, _, es). weight es)") (auto dest: recv_weight0)

declare recv_request.simps [simp del]

definition first_recv :: "recv_event list \<Rightarrow> (block \<times> int) option option" where
  "first_recv es = (case recv MAX_BYTES es of
       None \<Rightarrow> Some None
     | Some (Closed, es) \<Rightarrow> Some (Some (replicate MAX_BYTES NUL, 0))
     | Some (RecvError, es) \<Rightarrow> Some (Some (replicate MAX_BYTES NUL, -1))
     | Some (Data d, es) \<Rightarrow> do {
         buffer \<leftarrow> memcpy (replicate MAX_BYTES NUL) 0 d;
         recv_request buffer (int (length d)) es })"

text \<open>What happens on one connection; the state of the cache is threaded through.\<close>

record v1_conn =
  vc_in :: "recv_event list"
  vc_ks :: "int list"
  vc_connect :: "string \<Rightarrow> int \<Rightarrow> bool"
  vc_server_k :: int
  vc_server_in :: "recv_event list"
  vc_now :: int
  vc_addr :: nat
  vc_junk :: block
  vc_date :: string

record v1_reply =
  vr_client :: block
  vr_server :: "(string \<times> int \<times> block) option"
  vr_done :: bool

text \<open>\<open>add_cache_element\<close> on the pointer to the URL, a block: read once the lock is held.\<close>

definition add_cache_element_at ::
  "v1_cache \<Rightarrow> nat \<Rightarrow> int \<Rightarrow> string \<Rightarrow> int \<Rightarrow> block \<Rightarrow> (v1_cache \<times> int run) option" where
  "add_cache_element_at c a now data sz url_block = (if lock c then Some (c, Blocks) else do {
     url \<leftarrow> str_at url_block 0;
     add_cache_element c a now data sz url })"

lemma add_cache_element_at_string:
  assumes "NUL \<notin> set url"
  shows "add_cache_element_at c a now data sz (url @ [NUL]) = add_cache_element c a now data sz url"
  using str_at_0 [OF assms, of "[]"] by (simp add: add_cache_element_at_def add_cache_element_def)

text \<open>
  \<open>handle_request\<close>: -1 when the server cannot be reached. \<open>vr_done\<close> is false when a call of
  it does not return.
\<close>

definition handle_request ::
  "(nat \<Rightarrow> bool) \<Rightarrow> v1_cache \<Rightarrow> v1_conn \<Rightarrow> ParsedRequest \<Rightarrow> block \<Rightarrow>
   (v1_cache \<times> ParsedRequest \<times> v1_reply \<times> int) option" where
  "handle_request realloc_ok c conn request tempReq = do {
     (request, msg) \<leftarrow> build_request realloc_ok request (vc_junk conn);
     ho \<leftarrow> deref request (pr_host request);
     server_port \<leftarrow> (if pr_port request = Null then Some 80
       else map_option (\<lambda>p. to_int32 (strtol10 p)) (deref request (pr_port request)));
     if \<not> vc_connect conn ho server_port
     then Some (c, request, \<lparr>vr_client = [], vr_server = None, vr_done = True\<rparr>, -1)
     else do {
       let sent = take (nat (vc_server_k conn)) msg;
       (out, resp, e) \<leftarrow> relay_response (vc_server_in conn) (vc_ks conn);
       case resp of
         None \<Rightarrow> Some (c, request, \<lparr>vr_client = out, vr_server = Some (ho, server_port, sent),
             vr_done = False\<rparr>, 0)
       | Some d \<Rightarrow> do {
           (c, r) \<leftarrow> add_cache_element_at c (vc_addr conn) (vc_now conn) d (int (length d)) tempReq;
           Some (c, request, \<lparr>vr_client = out, vr_server = Some (ho, server_port, sent),
             vr_done = (r \<noteq> Blocks)\<rparr>, 0) } } }"

text \<open>
  What the handlers of all three files do with a request that is not in the cache; they differ
  in \<open>handle_request\<close>, the argument \<open>handler\<close>. \<open>'s\<close> is the state it works on.
\<close>

definition process_request ::
  "('s \<Rightarrow> ParsedRequest \<Rightarrow> ('s \<times> ParsedRequest \<times> v1_reply \<times> int) option) \<Rightarrow>
   bool \<Rightarrow> (nat \<Rightarrow> bool) \<Rightarrow> ParsedRequest \<Rightarrow> string \<Rightarrow> 's \<Rightarrow> string \<Rightarrow> ('s \<times> v1_reply) option" where
  "process_request handler einval realloc_ok junk date c s = do {
     (request, r) \<leftarrow> ParsedRequest_parse einval realloc_ok (ParsedRequest_create junk) s (int (length s));
     (c, request, rep) \<leftarrow>
       (if r < 0 then Some (c, request, \<lparr>vr_client = [], vr_server = None, vr_done = True\<rparr>)
        else do {
          me \<leftarrow> deref request (pr_method request);
          if me \<noteq> ''GET'' then Some (c, request, \<lparr>vr_client = [], vr_server = None, vr_done = True\<rparr>)
          else do {
            ve \<leftarrow> deref request (pr_version request);
            let err = fst (sendErrorMessage 500 date);
            if pr_host request \<noteq> Null \<and> pr_path request \<noteq> Null \<and> checkHTTPversion ve = 1 then do {
              (c, request, rep, rc) \<leftarrow> handler c request;
              Some (c, request, if rc = -1 then rep\<lparr>vr_client := vr_client rep @ err\<rparr> else rep) }
            else Some (c, request, \<lparr>vr_client = err, vr_server = None, vr_done = True\<rparr>) } });
     if \<not> vr_done rep then Some (c, rep) else do {
       _ \<leftarrow> ParsedRequest_destroy request;
       Some (c, rep) } }"

definition v1_process ::
  "bool \<Rightarrow> (nat \<Rightarrow> bool) \<Rightarrow> ParsedRequest \<Rightarrow> v1_cache \<Rightarrow> v1_conn \<Rightarrow> string \<Rightarrow> block \<Rightarrow>
   (v1_cache \<times> v1_reply) option" where
  "v1_process einval realloc_ok junk c conn s tempReq =
     process_request (\<lambda>c request. handle_request realloc_ok c conn request tempReq)
       einval realloc_ok junk (vc_date conn) c s"

text \<open>\<open>handle_client\<close> from the first \<open>recv\<close> to the close; \<open>tempReq\<close> is a copy of the request.\<close>

definition handle_client ::
  "bool \<Rightarrow> (nat \<Rightarrow> bool) \<Rightarrow> ParsedRequest \<Rightarrow> v1_cache \<Rightarrow> v1_conn \<Rightarrow> (v1_cache \<times> v1_reply) option" where
  "handle_client einval realloc_ok junk c conn = do {
     rv \<leftarrow> first_recv (vc_in conn);
     case rv of None \<Rightarrow> Some (c, \<lparr>vr_client = [], vr_server = None, vr_done = False\<rparr>)
     | Some (buffer, bytes_send_client) \<Rightarrow> do {
         tempReq \<leftarrow> str_at buffer 0;
         fr \<leftarrow> v1_find c tempReq (vc_now conn);
         case fr of
           Blocks \<Rightarrow> Some (c, \<lparr>vr_client = [], vr_server = None, vr_done = False\<rparr>)
         | Returns (c, Some a) \<Rightarrow> do {
             e \<leftarrow> mem c a;
             out \<leftarrow> send_cached (el_data e) (nat (el_len e)) 0;
             Some (c, \<lparr>vr_client = out, vr_server = None, vr_done = True\<rparr>) }
         | Returns (c, None) \<Rightarrow>
             if bytes_send_client > 0 then v1_process einval realloc_ok junk c conn tempReq (tempReq @ [NUL])
             else Some (c, \<lparr>vr_client = [], vr_server = None, vr_done = True\<rparr>) } }"


subsection \<open>The relay loop\<close>

text \<open>One round: what it sends, and that the buffer it has by then holds a further packet.\<close>

lemma relay_v1_step:
  assumes rv: "recv (MAX_BYTES - 1) es = Some (Data d, es1)" and k: "0 \<le> k"
    and cap: "length temp + MAX_BYTES \<le> cap" "cap + weight es * MAX_BYTES < 2147483648"
  shows "weight es1 < weight es" "cap + MAX_BYTES + weight es1 * MAX_BYTES < 2147483648"
    "length (temp @ take (nat k) d) + MAX_BYTES \<le> cap + MAX_BYTES"
    "\<not> (cap < length temp + length (take (nat k) d) \<or> 2147483648 \<le> cap + MAX_BYTES)"
    "relay_v1 es (k # ks) temp cap out = relay_v1 es1 ks (temp @ take (nat k) d) (cap + MAX_BYTES) (out @ take (nat k) d)"
proof -
  have "length d \<le> MAX_BYTES - 1" using recv_stream [of "MAX_BYTES - 1" es] rv by (simp add: MAX_BYTES_def)
  then have ls: "length (take (nat k) d) < MAX_BYTES" by (simp add: MAX_BYTES_def)
  show w: "weight es1 < weight es" using recv_weight [OF rv] by (simp add: MAX_BYTES_def)
  then have "Suc (weight es1) * MAX_BYTES \<le> weight es * MAX_BYTES" by (intro mult_le_mono1) simp
  then show c: "cap + MAX_BYTES + weight es1 * MAX_BYTES < 2147483648" using cap(2) by simp
  show "length (temp @ take (nat k) d) + MAX_BYTES \<le> cap + MAX_BYTES" using ls cap(1) by simp
  show nb: "\<not> (cap < length temp + length (take (nat k) d) \<or> 2147483648 \<le> cap + MAX_BYTES)"
    using ls cap(1) c by auto
  show "relay_v1 es (k # ks) temp cap out = relay_v1 es1 ks (temp @ take (nat k) d) (cap + MAX_BYTES) (out @ take (nat k) d)"
    using rv k nb by (subst relay_v1.simps) (simp add: Let_def)
qed

lemma relay_v1_spec:
  assumes "\<forall>k \<in> set ks. 0 \<le> k" "length temp + MAX_BYTES \<le> cap"
    and "cap + weight es * MAX_BYTES < 2147483648"
  shows "\<exists>u cap' e. relay_v1 es ks temp cap out = Some (temp @ u, cap', out @ u, e) \<and>
    length temp + length u < cap' \<and> subseq u (stream es) \<and> (e = Pending \<or> e = stream_end es) \<and>
    ((\<forall>k \<in> set ks. 4095 \<le> k) \<and> weight es \<le> length ks \<longrightarrow> u = stream es \<and> e = stream_end es)"
  using assms
proof (induction es ks temp cap out rule: relay_v1.induct)
  case (1 es ks temp cap out)
  note rs = recv_stream [of "MAX_BYTES - 1" es]
  have mb: "MAX_BYTES = 4096" by (simp add: MAX_BYTES_def)
  show ?case
  proof (cases "recv (MAX_BYTES - 1) es")
    case None
    with rs "1.prems"(2) mb show ?thesis by (subst relay_v1.simps) simp
  next
    case (Some p)
    obtain ev es1 where p: "p = (ev, es1)" by (cases p)
    show ?thesis
    proof (cases ev)
      case (Data d)
      from rs Some p Data have "stream es = d @ stream es1 \<and> stream_end es1 = stream_end es \<and> length d \<le> MAX_BYTES - 1"
        by (simp add: MAX_BYTES_def)
      then have s: "stream es = d @ stream es1" "stream_end es1 = stream_end es" "length d \<le> 4095"
        unfolding mb by simp_all
      show ?thesis
      proof (cases ks)
        case Nil
        have "weight es1 < weight es" using Some p Data recv_weight [of "MAX_BYTES - 1" es d es1] mb by simp
        with Nil Some p Data "1.prems"(2) mb show ?thesis by (subst relay_v1.simps) simp
      next
        case (Cons k ks1)
        define sent where "sent = take (nat k) d"
        have k: "\<not> k < 0" and k1: "\<forall>k \<in> set ks1. 0 \<le> k" using "1.prems"(1) Cons by auto
        note n = relay_v1_step [OF Some [unfolded p Data] _ "1.prems"(2,3), of k, folded sent_def]
        have "0 \<le> k" using k by simp
        note n = n [OF this]
        note ih = "1.IH" [OF Some p [symmetric] Data Cons k sent_def n(4) k1 n(3) n(2)]
        obtain u cap' e where
          r: "relay_v1 es1 ks1 (temp @ sent) (cap + MAX_BYTES) (out @ sent)
              = Some ((temp @ sent) @ u, cap', (out @ sent) @ u, e)"
            "length (temp @ sent) + length u < cap'" "subseq u (stream es1)" "e = Pending \<or> e = stream_end es1"
            "(\<forall>k \<in> set ks1. 4095 \<le> k) \<and> weight es1 \<le> length ks1 \<longrightarrow> u = stream es1 \<and> e = stream_end es1"
          using ih s(2) by blast
        have "subseq (sent @ u) (stream es)"
          unfolding s sent_def by (intro list_emb_append_mono r(3)) (simp add: prefix_imp_subseq take_is_prefix)
        moreover have "sent @ u = stream es \<and> e = stream_end es"
          if all: "(\<forall>k \<in> set ks. 4095 \<le> k) \<and> weight es \<le> length ks"
        proof -
          have "4095 \<le> k" "\<forall>k \<in> set ks1. 4095 \<le> k" "weight es1 \<le> length ks1" using all n(1) Cons by simp_all
          moreover from this(1) s(3) have "sent = d" by (simp add: sent_def)
          ultimately show ?thesis using r(5) s(1,2) by simp
        qed
        ultimately show ?thesis using n(5) [of ks1 out] Cons r(1,2,4) s(2) by (intro exI [of _ "sent @ u"] exI [of _ cap'] exI [of _ e]) simp
      qed
    qed (use rs Some p "1.prems"(2) mb in \<open>subst relay_v1.simps, simp\<close>)+
  qed
qed


subsection \<open>The error pages\<close>

lemma error_text_sent:
  assumes "error_text code date = Some t" "NUL \<notin> set t" "length t < 1024"
  shows "sendErrorMessage code date = (t, 1)"
proof -
  have "takeWhile (\<lambda>c. c \<noteq> NUL) (t @ [NUL]) = t"
    using assms(2) by (intro takeWhile_eq_append_notP) auto
  with assms(1,3) show ?thesis by (simp add: sendErrorMessage_def snprintf_def)
qed

definition error_rest :: "bool option \<Rightarrow> string \<Rightarrow> string" where
  "error_rest conn date = (if conn = Some True then ''Connection: keep-alive'' @ CRLF else []) @
     ''Content-Type: text/html'' @ CRLF @
     (if conn = Some False then ''Connection: keep-alive'' @ CRLF else []) @
     ''Date: '' @ date @ CRLF @ ''Server: VaibhavN/14785''"

definition error_body :: "string \<Rightarrow> string \<Rightarrow> string" where
  "error_body title body = ''<HTML><HEAD><TITLE>'' @ title @ ''</TITLE></HEAD>'' @ [LF] @ ''<BODY><H1>'' @
     body @ [LF] @ ''</BODY></HTML>''"

lemma error_page_parts:
  "error_page status len conn title body date = ''HTTP/1.1 '' @ status @ CRLF @ ''Content-Length: '' @ len @
     CRLF @ error_rest conn date @ CRLF @ CRLF @ error_body title body"
  by (simp add: error_page_def error_rest_def error_body_def)

lemma error_text_codes:
  "error_text 400 date = Some (error_page ''400 Bad Request'' ''95'' (Some True)
     ''400 Bad Request'' ''400 Bad Rqeuest</H1>'' date)"
  "error_text 403 date = Some (error_page ''403 Forbidden'' ''112'' (Some False)
     ''403 Forbidden'' ''403 Forbidden</H1><br>Permission Denied'' date)"
  "error_text 404 date = Some (error_page ''404 Not Found'' ''91'' (Some False)
     ''404 Not Found'' ''404 Not Found</H1>'' date)"
  "error_text 500 date = Some (error_page ''500 Internal Server Error'' ''115'' (Some True)
     ''500 Internal Server Error'' ''500 Internal Server Error</H1>'' date)"
  "error_text 501 date = Some (error_page ''501 Not Implemented'' ''103'' (Some True)
     ''404 Not Implemented'' ''501 Not Implemented</H1>'' date)"
  "error_text 505 date = Some (error_page ''505 HTTP Version Not Supported'' ''125'' (Some True)
     ''505 HTTP Version Not Supported'' ''505 HTTP Version Not Supported</H1>'' date)"
  by (simp_all add: error_text_def)

lemma strtol10_simps:
  "strtol10 ''400 Bad Request'' = 400" "strtol10 ''403 Forbidden'' = 403" "strtol10 ''404 Not Found'' = 404"
  "strtol10 ''500 Internal Server Error'' = 500" "strtol10 ''501 Not Implemented'' = 501"
  "strtol10 ''505 HTTP Version Not Supported'' = 505"
  "strtol10 ''95'' = 95" "strtol10 ''112'' = 112" "strtol10 ''91'' = 91" "strtol10 ''115'' = 115"
  "strtol10 ''103'' = 103" "strtol10 ''125'' = 125"
  by (simp_all add: strtol10_def isspace_def isdigit_def)

lemma error_page_sent:
  assumes "error_text code date = Some (error_page status len conn title body date)"
    and "NUL \<notin> set date" "length date < 50"
    and "NUL \<notin> set (status @ len @ title @ body)" "length (status @ len @ title @ body) < 500"
    and "strtol10 status = code" "strtol10 len = int (length (error_body title body))"
  shows "\<exists>status len rest body. sendErrorMessage code date =
      (''HTTP/1.1 '' @ status @ CRLF @ ''Content-Length: '' @ len @ CRLF @ rest @ CRLF @ CRLF @ body, 1) \<and>
    strtol10 status = code \<and> strtol10 len = int (length body) \<and> sublist (''Date: '' @ date @ CRLF) rest \<and>
    prefix ''<HTML>'' body \<and> suffix ''</HTML>'' body"
proof -
  let ?t = "error_page status len conn title body date"
  have "NUL \<notin> set ?t" using assms(2,4) by (auto simp: error_page_def)
  moreover have "length ?t < 1024" using assms(3,5) by (auto simp: error_page_def)
  ultimately have "sendErrorMessage code date = (?t, 1)" by (rule error_text_sent [OF assms(1)])
  moreover have "sublist (''Date: '' @ date @ CRLF) (error_rest conn date)"
  proof -
    have "\<exists>p. error_rest conn date = p @ (''Date: '' @ date @ CRLF) @ ''Server: VaibhavN/14785''"
      by (rule exI [of _ "(if conn = Some True then ''Connection: keep-alive'' @ CRLF else []) @
        ''Content-Type: text/html'' @ CRLF @ (if conn = Some False then ''Connection: keep-alive'' @ CRLF else [])"])
        (simp add: error_rest_def)
    then show ?thesis unfolding sublist_def by blast
  qed
  moreover have "prefix ''<HTML>'' (error_body title body)" by (simp add: error_body_def)
  moreover have "suffix ''</HTML>'' (error_body title body)"
    unfolding error_body_def
    by (rule suffixI [of _ "''<HTML><HEAD><TITLE>'' @ title @ ''</TITLE></HEAD>'' @ [LF] @ ''<BODY><H1>'' @
     body @ [LF] @ ''</BODY>''"]) simp
  ultimately show ?thesis using assms(6,7) unfolding error_page_parts by blast
qed

subsection \<open>The request to the origin server\<close>

text \<open>The block after \<open>strcpy\<close> and \<open>strcat\<close> have put the string \<open>s\<close> at its start.\<close>

definition filled :: "block \<Rightarrow> string \<Rightarrow> block" where
  "filled junk s = s @ NUL # drop (Suc (length s)) junk"

lemma strcpy_filled: "strcpy junk s = (if length s < length junk then Some (filled junk s) else None)"
  by (auto simp: strcpy_def memcpy_def filled_def)

lemma str_at_filled: "NUL \<notin> set s \<Longrightarrow> str_at (filled junk s) 0 = Some s"
  by (simp add: filled_def str_at_0)

lemma strcat_filled:
  assumes "NUL \<notin> set s" "length s < length junk"
  shows "strcat (filled junk s) t =
    (if length (s @ t) < length junk then Some (filled junk (s @ t)) else None)"
  using assms by (auto simp: strcat_def str_at_filled memcpy_def) (auto simp: filled_def add.commute)

definition v1_forward_headers :: "string \<Rightarrow> (string \<times> string) list \<Rightarrow> (string \<times> string) list" where
  "v1_forward_headers ho hl = filter (\<lambda>(k, v). k \<noteq> ''Connection'') hl @ [(''Connection'', ''close'')] @
     (if ''Host'' \<in> fst ` set hl then [] else [(''Host'', ho)])"

definition v1_line :: "request \<Rightarrow> string" where
  "v1_line r = ''GET '' @ rq_path r @ '' '' @ rq_version r @ CRLF"

text \<open>The strings of the request line, one after the other.\<close>

lemma build_line:
  assumes "NUL \<notin> set pa" "NUL \<notin> set ve" "length junk = MAX_BYTES"
  shows "do { buf \<leftarrow> strcpy junk ''GET ''; buf \<leftarrow> strcat buf pa; buf \<leftarrow> strcat buf '' '';
      buf \<leftarrow> strcat buf ve; buf \<leftarrow> strcat buf CRLF; f buf } =
    (if length (''GET '' @ pa @ '' '' @ ve @ CRLF) < MAX_BYTES
     then f (filled junk (''GET '' @ pa @ '' '' @ ve @ CRLF)) else None)"
  using assms by (simp add: strcpy_filled strcat_filled MAX_BYTES_def)

lemma v1_headers_spec:
  assumes "header_wf pr" "\<forall>n. realloc_ok n" "deref pr (pr_host pr) = Some ho"
  shows "\<exists>pr1 pr2 hs n u r. ParsedHeader_set realloc_ok pr ''Connection'' ''close'' = Some (pr1, 0) \<and>
    ParsedHeader_get pr1 (Some ''Host'') = Some r \<and>
    (if r = None then do { ho \<leftarrow> deref pr1 (pr_host pr1); (pr2, _) \<leftarrow> ParsedHeader_set realloc_ok pr1 ''Host'' ho; Some pr2 }
     else Some pr1) = Some pr2 \<and> header_wf pr2 \<and>
    header_list pr2 = v1_forward_headers ho (header_list pr) \<and>
    pr2 = pr\<lparr>pr_headers := hs, pr_headerslen := n, pr_headersused := u\<rparr>"
proof -
  from set_spec [OF assms(1,2), of "''Connection''" "''close''"] obtain pr1 hs n where
    p1: "ParsedHeader_set realloc_ok pr ''Connection'' ''close'' = Some (pr1, 0)" "header_wf pr1"
    "header_list pr1 = filter (\<lambda>(k', v). k' \<noteq> ''Connection'') (header_list pr) @ [(''Connection'', ''close'')]"
    "pr1 = pr\<lparr>pr_headers := Some hs, pr_headerslen := n, pr_headersused := pr_headersused pr + 1\<rparr>"
    by blast
  have host: "''Host'' \<in> fst ` set (header_list pr1) \<longleftrightarrow> ''Host'' \<in> fst ` set (header_list pr)"
    unfolding p1(3) by force
  from get_spec [OF p1(2), of "''Host''"] obtain r where
    r: "ParsedHeader_get pr1 (Some ''Host'') = Some r"
    and rc: "case r of None \<Rightarrow> map_of (header_list pr1) ''Host'' = None
      | Some i \<Rightarrow> \<exists>h v. slot pr1 i = Some h \<and> ph_key h = Some ''Host'' \<and> ph_value h = Some v \<and>
          map_of (header_list pr1) ''Host'' = Some v" by blast
  have rn: "r = None \<longleftrightarrow> ''Host'' \<notin> fst ` set (header_list pr)"
  proof -
    have "r = None \<longleftrightarrow> map_of (header_list pr1) ''Host'' = None" using rc by (cases r) auto
    then show ?thesis unfolding map_of_eq_None_iff host .
  qed
  show ?thesis
  proof (cases "r = None")
    case False
    then have "header_list pr1 = v1_forward_headers ho (header_list pr)"
      using rn by (simp add: p1(3) v1_forward_headers_def)
    with p1(2) have "header_wf pr1 \<and> header_list pr1 = v1_forward_headers ho (header_list pr)" by (rule conjI)
    then show ?thesis using p1(1) r False unfolding if_not_P [OF False]
      by (intro exI [of _ pr1] exI [of _ pr1] exI [of _ "Some hs"] exI [of _ n]
          exI [of _ "pr_headersused pr + 1"] exI [of _ r]) (simp only: p1(4) simp_thms if_False)
  next
    case True
    from set_spec [OF p1(2) assms(2), of "''Host''" ho] obtain pr2 hs2 n2 where
      p2: "ParsedHeader_set realloc_ok pr1 ''Host'' ho = Some (pr2, 0)" "header_wf pr2"
      "header_list pr2 = filter (\<lambda>(k', v). k' \<noteq> ''Host'') (header_list pr1) @ [(''Host'', ho)]"
      "pr2 = pr1\<lparr>pr_headers := Some hs2, pr_headerslen := n2, pr_headersused := pr_headersused pr1 + 1\<rparr>"
      by blast
    have "''Host'' \<notin> fst ` set (header_list pr1)" using host rn True by simp
    then have "header_list pr2 = v1_forward_headers ho (header_list pr)"
      using rn True unfolding p2(3) filter_key_absent [OF \<open>''Host'' \<notin> fst ` set (header_list pr1)\<close>]
      by (simp add: p1(3) v1_forward_headers_def)
    moreover have "deref pr1 (pr_host pr1) = Some ho" using assms(3) by (simp add: p1(4) deref_headers)
    ultimately show ?thesis using True p1(1) r p2(1,2)
      by (intro exI [of _ pr1] exI [of _ pr2] exI [of _ "Some hs2"] exI [of _ n2]
          exI [of _ "pr_headersused pr + 2"] exI [of _ r]) (simp add: p2(4) p1(4))
  qed
qed

text \<open>The headers printed behind the request line of the buffer, and the string that it then is.\<close>

lemma unparse_after_line:
  assumes "header_wf pr" "pr_buf pr \<noteq> None" "length junk = MAX_BYTES" "length l < MAX_BYTES"
    and hl: "hl = render_headers (header_list pr)" "length hl < 2147483648"
  shows "ParsedRequest_unparse_headers pr (filled junk l) (length l) (MAX_BYTES - length l) =
    (if MAX_BYTES < length (l @ hl) then Some (filled junk l, -1)
     else Some (l @ hl @ drop (length (l @ hl)) junk, 0))"
proof -
  let ?m = "filled junk l"
  have "length ?m = MAX_BYTES" using assms(3,4) by (simp add: filled_def)
  then have off: "length l + (MAX_BYTES - length l) \<le> length ?m" using assms(4) by simp
  have fit: "headers_fit pr" using hl by simp
  have "take (length l) ?m = l" by (simp add: filled_def)
  moreover have "drop (length l + length hl) ?m = drop (length (l @ hl)) junk"
    using hl(1) by (cases "length hl") (simp_all add: filled_def render_headers_def add.commute)
  moreover have "MAX_BYTES - length l < length hl \<longleftrightarrow> MAX_BYTES < length (l @ hl)" using assms(4) by auto
  ultimately show ?thesis using unparse_headers_spec [OF assms(1,2) fit off] by (simp add: hl(1) [symmetric])
qed

lemma str_at_prefix:
  assumes "NUL \<notin> set l"
  shows "str_at (l @ t) 0 = map_option (append l) (cstr t)"
proof (cases "cstr t")
  case None
  then have "NUL \<notin> set (l @ t)" using assms by (simp add: cstr_None_iff)
  then have "str_at (l @ t) 0 = None" by (simp only: str_at_def drop_0 cstr_None_iff not_False_eq_True)
  with None show ?thesis by simp
next
  case (Some s)
  then obtain post where "t = s @ NUL # post" "NUL \<notin> set s" by (auto simp: cstr_Some_iff)
  with Some assms show ?thesis using cstr_append [of "l @ s" post] by (simp add: str_at_def)
qed

lemma build_request_spec:
  assumes rq: "request_of pr = Some r" and wf: "header_wf pr" and b: "pr_buf pr \<noteq> None"
    and ok: "\<forall>n. realloc_ok n" and j: "length junk = MAX_BYTES"
    and nul: "NUL \<notin> set (rq_path r)" "NUL \<notin> set (rq_version r)" "NUL \<notin> set (rq_host r)"
      "nul_free_headers (rq_headers r)"
    and ln: "length (v1_line r) < MAX_BYTES"
    and hl: "hl = render_headers (v1_forward_headers (rq_host r) (rq_headers r))" "length hl < 2147483648"
  shows "\<exists>pr' hs n u. header_wf pr' \<and> pr' = pr\<lparr>pr_headers := hs, pr_headerslen := n, pr_headersused := u\<rparr> \<and>
    build_request realloc_ok pr junk =
      (if MAX_BYTES < length (v1_line r @ hl) then Some (pr', v1_line r)
       else map_option (Pair pr') (map_option (append (v1_line r @ hl)) (cstr (drop (length (v1_line r @ hl)) junk))))"
proof -
  note d = request_ofD [OF rq]
  from v1_headers_spec [OF wf ok d(3)] obtain pr1 pr2 hs n u q where
    h: "ParsedHeader_set realloc_ok pr ''Connection'' ''close'' = Some (pr1, 0)"
      "ParsedHeader_get pr1 (Some ''Host'') = Some q"
      "(if q = None then do { ho \<leftarrow> deref pr1 (pr_host pr1); (pr2, _) \<leftarrow> ParsedHeader_set realloc_ok pr1 ''Host'' ho; Some pr2 }
        else Some pr1) = Some pr2" "header_wf pr2"
      "header_list pr2 = v1_forward_headers (rq_host r) (rq_headers r)"
      "pr2 = pr\<lparr>pr_headers := hs, pr_headerslen := n, pr_headersused := u\<rparr>"
    unfolding d(8) by blast
  have b2: "pr_buf pr2 \<noteq> None" using b h(6) by simp
  let ?l = "v1_line r" and ?m = "filled junk (v1_line r)"
  have nl: "NUL \<notin> set ?l" using nul by (auto simp: v1_line_def)
  have nh: "NUL \<notin> set hl"
    unfolding hl(1) using nul(3,4)
    by (intro render_headers_nul) (auto simp: nul_free_headers_def v1_forward_headers_def list_all_iff)
  note un = unparse_after_line [OF h(4) b2 j ln hl(1) [folded h(5)] hl(2)]
  have sl: "strlen ?m 0 = Some (length ?l)" using nl by (simp add: strlen_def str_at_filled)
  have rd: "str_at (?l @ hl @ t) 0 = map_option (append (?l @ hl)) (cstr t)" for t
    using str_at_prefix [of "?l @ hl" t] nl nh by simp
  have le: "''GET '' @ rq_path r @ '' '' @ rq_version r @ CRLF = ?l" by (simp add: v1_line_def)
  have "build_request realloc_ok pr junk = do {
      (buf, _) \<leftarrow> ParsedRequest_unparse_headers pr2 ?m (length ?l) (MAX_BYTES - length ?l);
      s \<leftarrow> str_at buf 0; Some (pr2, s) }"
    unfolding build_request_def d(4,5) Option.bind_lunit build_line [OF nul(1,2) j] le if_P [OF ln] sl
      h(1) prod.case h(2)
    using h(3) by simp
  also have "\<dots> = (if MAX_BYTES < length (?l @ hl) then Some (pr2, ?l)
       else map_option (Pair pr2) (map_option (append (?l @ hl)) (cstr (drop (length (?l @ hl)) junk))))"
    unfolding un using rd [of "drop (length (?l @ hl)) junk"] nl
    by (simp add: str_at_filled bind_Some_map)
  finally show ?thesis using h(4,6) by blast
qed

subsection \<open>Receiving the request\<close>

definition zero_padded :: "string \<Rightarrow> block" where
  "zero_padded b = b @ replicate (MAX_BYTES - length b) NUL"

lemma zero_padded_str:
  assumes "NUL \<notin> set b" "length b \<le> MAX_BYTES"
  shows "str_at (zero_padded b) 0 = (if length b < MAX_BYTES then Some b else None)"
proof (cases "length b < MAX_BYTES")
  case True
  then obtain k where "MAX_BYTES - length b = Suc k" by (metis Suc_diff_Suc)
  with True assms show ?thesis by (simp add: zero_padded_def str_at_0)
next
  case False
  with assms have "zero_padded b = b" by (simp add: zero_padded_def)
  moreover have "str_at b 0 = None" unfolding str_at_def drop_0 cstr_None_iff by (rule assms(1))
  ultimately show ?thesis using False by simp
qed

lemma zero_padded_memcpy:
  assumes "length b + length d \<le> MAX_BYTES"
  shows "memcpy (zero_padded b) (length b) d = Some (zero_padded (b @ d))"
  using assms by (simp add: memcpy_def zero_padded_def drop_replicate)

lemma recv_nonempty: "stream es \<noteq> [] \<Longrightarrow> 0 < n \<Longrightarrow> \<exists>d es'. recv n es = Some (Data d, es')"
  by (induction n es rule: recv.induct) auto

text \<open>What one turn of the loop does, in terms of the bytes received so far.\<close>

lemma recv_request_turn:
  assumes "NUL \<notin> set b" "length b < MAX_BYTES" "0 < n"
  shows "recv_request (zero_padded b) n es =
    (if sublist EOH b then Some (Some (zero_padded b, n))
     else case recv (MAX_BYTES - length b) es of
         None \<Rightarrow> Some None
       | Some (Closed, es) \<Rightarrow> Some (Some (zero_padded b, 0))
       | Some (RecvError, es) \<Rightarrow> Some (Some (zero_padded b, -1))
       | Some (Data d, es) \<Rightarrow> recv_request (zero_padded (b @ d)) (int (length d)) es)"
proof -
  have st: "str_at (zero_padded b) 0 = Some b" using zero_padded_str [OF assms(1)] assms(2) by simp
  have nn: "\<not> n \<le> 0" using assms(3) by simp
  have unf: "recv_request (zero_padded b) n es =
    (if strstr b EOH \<noteq> None then Some (Some (zero_padded b, n))
     else case recv (MAX_BYTES - length b) es of
       None \<Rightarrow> Some None
     | Some (Closed, es) \<Rightarrow> Some (Some (zero_padded b, 0))
     | Some (RecvError, es) \<Rightarrow> Some (Some (zero_padded b, -1))
     | Some (Data d, es) \<Rightarrow> if d = [] then Some (Some (zero_padded b, 0)) else do {
         buffer \<leftarrow> memcpy (zero_padded b) (length b) d;
         recv_request buffer (int (length d)) es })"
    unfolding recv_request.simps [of "zero_padded b" n es] if_not_P [OF nn] st Option.bind_lunit ..
  show ?thesis
  proof (cases "sublist EOH b")
    case True
    then have "strstr b EOH \<noteq> None" using strstr_None_iff by blast
    with True show ?thesis unfolding unf by (simp only: if_True not_False_eq_True)
  next
    case False
    then have no: "strstr b EOH = None" using strstr_None_iff by blast
    note rs = recv_stream [of "MAX_BYTES - length b" es]
    show ?thesis
    proof (cases "recv (MAX_BYTES - length b) es")
      case None
      then show ?thesis unfolding unf no if_not_P [OF False] by simp
    next
      case (Some q)
      obtain ev es1 where q: "q = (ev, es1)" by (cases q)
      show ?thesis
      proof (cases ev)
        case (Data d)
        with rs Some q assms(2) have "d \<noteq> []" "length d \<le> MAX_BYTES - length b" by simp_all
        moreover from this(2) have "length b + length d \<le> MAX_BYTES" using assms(2) by simp
        ultimately show ?thesis unfolding unf no if_not_P [OF False] Some q Data
          by (simp add: zero_padded_memcpy)
      next
        case Closed
        show ?thesis unfolding unf no if_not_P [OF False] Some q Closed by simp
      next
        case RecvError
        show ?thesis unfolding unf no if_not_P [OF False] Some q RecvError by simp
      qed
    qed
  qed
qed

lemma recv_request_full:
  assumes "NUL \<notin> set b" "length b = MAX_BYTES" "0 < n"
  shows "recv_request (zero_padded b) n es = None"
  using zero_padded_str [OF assms(1)] assms(2,3) by (subst recv_request.simps) simp

lemma recv_request_short:
  assumes "NUL \<notin> set (b @ stream es)" "length (b @ stream es) < MAX_BYTES" "0 < n"
  shows "case recv_request (zero_padded b) n es of
      None \<Rightarrow> False
    | Some None \<Rightarrow> stream_end es = Pending \<and> \<not> sublist EOH (b @ stream es)
    | Some (Some (buffer, m)) \<Rightarrow> \<exists>t. buffer = zero_padded t \<and> prefix t (b @ stream es) \<and>
        (if 0 < m then sublist EOH t
         else t = b @ stream es \<and> \<not> sublist EOH t \<and> stream_end es = (if m = 0 then Clean else Broken))"
  using assms
proof (induction "weight es" arbitrary: b n es rule: less_induct)
  case less
  have b: "NUL \<notin> set b" "length b < MAX_BYTES" using less.prems by auto
  note t = recv_request_turn [OF b less.prems(3), of es]
  note rs = recv_stream [of "MAX_BYTES - length b" es]
  show ?case
  proof (cases "sublist EOH b")
    case True
    then show ?thesis unfolding t using less.prems(3) by (auto intro!: exI [of _ b])
  next
    case no: False
    show ?thesis
    proof (cases "recv (MAX_BYTES - length b) es")
      case None
      with rs b no show ?thesis unfolding t by simp
    next
      case (Some q)
      obtain ev es1 where q: "q = (ev, es1)" by (cases q)
      show ?thesis
      proof (cases ev)
        case (Data d)
        with rs Some q b(2) have s: "stream es = d @ stream es1" "stream_end es1 = stream_end es" "d \<noteq> []"
          by simp_all
        have w: "weight es1 < weight es" using Some q Data b(2) recv_weight by simp
        have p: "NUL \<notin> set ((b @ d) @ stream es1)" "length ((b @ d) @ stream es1) < MAX_BYTES" "0 < int (length d)"
          using less.prems s by simp_all
        have "recv_request (zero_padded b) n es = recv_request (zero_padded (b @ d)) (int (length d)) es1"
          unfolding t using no Some q Data by simp
        then show ?thesis using less.hyps [OF w p] by (simp only: s append_assoc)
      qed (use rs b no Some q in \<open>simp_all add: t\<close>)
    qed
  qed
qed

lemma recv_request_long:
  assumes "NUL \<notin> set (b @ stream es)" "MAX_BYTES \<le> length (b @ stream es)" "length b \<le> MAX_BYTES"
    and "0 < n" "\<not> sublist EOH (take MAX_BYTES (b @ stream es))"
  shows "recv_request (zero_padded b) n es = None"
  using assms
proof (induction "weight es" arbitrary: b n es rule: less_induct)
  case less
  have nb: "NUL \<notin> set b" using less.prems(1) by simp
  show ?case
  proof (cases "length b = MAX_BYTES")
    case True
    then show ?thesis by (rule recv_request_full [OF nb _ less.prems(4)])
  next
    case False
    then have lb: "length b < MAX_BYTES" using less.prems(3) by simp
    note t = recv_request_turn [OF nb lb less.prems(4), of es]
    note rs = recv_stream [of "MAX_BYTES - length b" es]
    have "prefix b (take MAX_BYTES (b @ stream es))" using lb by simp
    then have no: "\<not> sublist EOH b"
      using less.prems(5) by (meson prefix_imp_sublist sublist_order.order_trans)
    have ne: "stream es \<noteq> []" using less.prems(2) lb by auto
    then obtain d es1 where r: "recv (MAX_BYTES - length b) es = Some (Data d, es1)"
      using recv_nonempty lb by (metis zero_less_diff)
    with rs lb have s: "stream es = d @ stream es1" "d \<noteq> []" "length d \<le> MAX_BYTES - length b" by simp_all
    have w: "weight es1 < weight es" using recv_weight [OF r] lb by simp
    have p: "NUL \<notin> set ((b @ d) @ stream es1)" "MAX_BYTES \<le> length ((b @ d) @ stream es1)"
      "length (b @ d) \<le> MAX_BYTES" "0 < int (length d)" "\<not> sublist EOH (take MAX_BYTES ((b @ d) @ stream es1))"
      using less.prems lb s by simp_all
    show ?thesis unfolding t r using no less.hyps [OF w p] by simp
  qed
qed

lemma first_recv_start:
  assumes "stream es \<noteq> []"
  obtains d es1 where "first_recv es = recv_request (zero_padded d) (int (length d)) es1"
    "stream es = d @ stream es1" "d \<noteq> []" "length d \<le> MAX_BYTES" "stream_end es1 = stream_end es"
proof -
  have mb: "0 < MAX_BYTES" by (simp add: MAX_BYTES_def)
  note rs = recv_stream [OF mb, of es]
  from recv_nonempty [OF assms mb] obtain d es1 where r: "recv MAX_BYTES es = Some (Data d, es1)" by blast
  with rs have s: "stream es = d @ stream es1" "d \<noteq> []" "length d \<le> MAX_BYTES" "stream_end es1 = stream_end es"
    by simp_all
  have "memcpy (replicate MAX_BYTES NUL) 0 d = Some (zero_padded d)"
    using zero_padded_memcpy [of "[]" d] s(3) by (simp add: zero_padded_def)
  then have "first_recv es = recv_request (zero_padded d) (int (length d)) es1"
    by (simp add: first_recv_def r)
  with s that show ?thesis by blast
qed

subsection \<open>Properties\<close>

text \<open>The error pages: for the six status codes the code knows and every date that fits its
  array, the page is sent whole (its buffer of 1024 bytes is large enough), its status line
  has the code, its Date header the date, and the hand-written \<open>Content-Length\<close> is the length
  of the HTML body. Every other code sends nothing and returns -1.\<close>

theorem v1_error_pages:
  assumes "NUL \<notin> set date" "length date < 50"
  shows "if code \<in> {400, 403, 404, 500, 501, 505}
    then \<exists>status len rest body. sendErrorMessage code date =
        (''HTTP/1.1 '' @ status @ CRLF @ ''Content-Length: '' @ len @ CRLF @ rest @ CRLF @ CRLF @ body, 1) \<and>
      strtol10 status = code \<and> strtol10 len = int (length body) \<and> sublist (''Date: '' @ date @ CRLF) rest \<and>
      prefix ''<HTML>'' body \<and> suffix ''</HTML>'' body
    else sendErrorMessage code date = ([], -1)"
proof (cases "code \<in> {400, 403, 404, 500, 501, 505}")
  case True
  from True consider "code = 400" | "code = 403" | "code = 404" | "code = 500" | "code = 501" | "code = 505" by auto
  then show ?thesis
  proof cases
    case 1
    show ?thesis unfolding if_P [OF True] unfolding 1
      by (rule error_page_sent [OF error_text_codes(1) assms]) (simp_all add: error_body_def strtol10_simps)
  next
    case 2
    show ?thesis unfolding if_P [OF True] unfolding 2
      by (rule error_page_sent [OF error_text_codes(2) assms]) (simp_all add: error_body_def strtol10_simps)
  next
    case 3
    show ?thesis unfolding if_P [OF True] unfolding 3
      by (rule error_page_sent [OF error_text_codes(3) assms]) (simp_all add: error_body_def strtol10_simps)
  next
    case 4
    show ?thesis unfolding if_P [OF True] unfolding 4
      by (rule error_page_sent [OF error_text_codes(4) assms]) (simp_all add: error_body_def strtol10_simps)
  next
    case 5
    show ?thesis unfolding if_P [OF True] unfolding 5
      by (rule error_page_sent [OF error_text_codes(5) assms]) (simp_all add: error_body_def strtol10_simps)
  next
    case 6
    show ?thesis unfolding if_P [OF True] unfolding 6
      by (rule error_page_sent [OF error_text_codes(6) assms]) (simp_all add: error_body_def strtol10_simps)
  qed
next
  case False
  then show ?thesis by (auto simp: sendErrorMessage_def error_text_def)
qed

theorem v1_error_pages_witness:
  "\<exists>status len rest body. sendErrorMessage 404 ''now'' =
      (''HTTP/1.1 '' @ status @ CRLF @ ''Content-Length: '' @ len @ CRLF @ rest @ CRLF @ CRLF @ body, 1) \<and>
    strtol10 status = 404 \<and> strtol10 len = int (length body)"
proof -
  have "404 \<in> {400, 403, 404, 500, 501, 505 :: int}" by simp
  with v1_error_pages [of "''now''" 404] show ?thesis unfolding if_P by auto
qed


text \<open>The relay of a response, for every behaviour of the origin server and of a client
  socket on which no \<open>send\<close> fails: \<open>temp_buffer\<close> is never overrun and has room for the NUL;
  the client gets the bytes of the response in order, without those that a short \<open>send\<close>
  dropped, and all of them when every call takes a full chunk; the string given to the cache
  is what the client got up to its first NUL, also when the connection to the server broke.\<close>

theorem v1_relay_bounds:
  assumes "\<forall>k \<in> set ks. 0 \<le> k" "weight es < 524287"
  shows "\<exists>out r e. relay_response es ks = Some (out, r, e) \<and> subseq out (stream es) \<and>
    r = (if e = Pending then None else Some (takeWhile (\<lambda>c. c \<noteq> NUL) out)) \<and>
    (e = Pending \<or> e = stream_end es) \<and>
    ((\<forall>k \<in> set ks. 4095 \<le> k) \<and> weight es \<le> length ks \<longrightarrow> out = stream es \<and> e = stream_end es)"
proof -
  have c: "MAX_BYTES + weight es * MAX_BYTES < 2147483648" using assms(2) by (simp add: MAX_BYTES_def)
  from relay_v1_spec [OF assms(1) _ c, of "[]" "[]"] obtain u cap e where
    r: "relay_v1 es ks [] MAX_BYTES [] = Some (u, cap, u, e)" "length u < cap"
    and s: "subseq u (stream es)" "e = Pending \<or> e = stream_end es"
      "(\<forall>k \<in> set ks. 4095 \<le> k) \<and> weight es \<le> length ks \<longrightarrow> u = stream es \<and> e = stream_end es" by auto
  have "relay_response es ks = Some (u, if e = Pending then None else Some (takeWhile (\<lambda>c. c \<noteq> NUL) u), e)"
    using r by (simp add: relay_response_def)
  with s show ?thesis by blast
qed

theorem v1_relay_bounds_witness:
  "\<exists>out. relay_response [Data [CHR ''a'', NUL, CHR ''b''], RecvError] [4095, 4095, 4095, 4095, 4095] = Some (out, Some ''a'', Broken)"
  using v1_relay_bounds [of "[4095, 4095, 4095, 4095, 4095]" "[Data [CHR ''a'', NUL, CHR ''b''], RecvError]"] by auto

text \<open>A client that goes away: after any number of chunks that were sent, a \<open>send\<close> that
  fails makes the copy loop run past both buffers (its bound is \<open>-1\<close> converted to \<open>size_t\<close>),
  so the failure that the next lines mean to handle is undefined behaviour.\<close>

theorem v1_send_failure_overruns:
  assumes "\<forall>d \<in> set ds. d \<noteq> [] \<and> length d \<le> 4095" "\<forall>k \<in> set ks. 0 \<le> k" "length ks < length ds" "n < 0"
  shows "relay_response (map Data ds @ es) (ks @ n # ks') = None"
proof -
  have "relay_v1 (map Data ds @ es) (ks @ n # ks') temp cap out = None" for temp cap out
    using assms(1-3)
  proof (induction ds arbitrary: ks temp cap out)
    case Nil
    then show ?case by simp
  next
    case (Cons d ds)
    show ?case
    proof (cases ks)
      case Nil
      with Cons.prems assms(4) show ?thesis by (subst relay_v1.simps) (simp add: MAX_BYTES_def)
    next
      case (Cons k ks1)
      with Cons.prems Cons.IH [of ks1] show ?thesis
        by (subst relay_v1.simps) (simp add: MAX_BYTES_def Let_def)
    qed
  qed
  then show ?thesis by (simp add: relay_response_def)
qed

theorem v1_send_failure_overruns_witness:
  "relay_response [Data ''ab'', Data ''c'', Closed] [2, -1] = None"
  using v1_send_failure_overruns [of "[''ab'', ''c'']" "[2]" "-1" "[Closed]" "[]"] by simp

lemma send_cached_spec:
  assumes "length data = Suc n" "pos \<le> n" "pos mod 4096 = 0"
  shows "send_cached data n pos = (if n mod 4096 = 0 then Some (drop pos (take n data))
    else if n mod 4096 = 4095 then Some (drop pos data) else None)"
  using assms
proof (induction data n pos rule: send_cached.induct)
  case (1 data n pos)
  show ?case
  proof (cases "pos < n")
    case False
    with "1.prems" show ?thesis by (subst send_cached.simps) simp
  next
    case lt: True
    show ?thesis
    proof (cases "pos + MAX_BYTES \<le> length data")
      case False
      then have "n < pos + 4095" using "1.prems"(1) by (simp add: MAX_BYTES_def)
      moreover obtain q where "pos = 4096 * q" using "1.prems"(3) by auto
      ultimately obtain r where r: "n = 4096 * q + r" "r < 4095" "0 < r"
        using lt by (metis less_imp_add_positive nat_add_left_cancel_less)
      then have "n mod 4096 = r" unfolding r(1) mod_mult_self4 by simp
      then have "n mod 4096 \<noteq> 0" "n mod 4096 \<noteq> 4095" using r by simp_all
      with lt False show ?thesis by (subst send_cached.simps) simp
    next
      case True
      have st: "send_cached data n pos =
        map_option (\<lambda>out. take 4096 (drop pos data) @ out) (send_cached data n (pos + 4096))"
        using lt True by (subst send_cached.simps) (simp add: MAX_BYTES_def)
      have m: "(pos + 4096) mod 4096 = 0" using "1.prems"(3) by simp
      have join: "take 4096 (drop pos xs) @ drop (pos + 4096) xs = drop pos xs" for xs :: block
        using append_take_drop_id [of 4096 "drop pos xs"] by (simp add: add.commute)
      show ?thesis
      proof (cases "pos + 4096 \<le> n")
        case le: True
        have tk: "take 4096 (drop pos data) = take 4096 (drop pos (take n data))"
          using le by (simp add: drop_take)
        from "1.IH" [OF lt True "1.prems"(1), unfolded MAX_BYTES_def, OF le m] st
        show ?thesis using join [of data] join [of "take n data"] tk by simp
      next
        case False
        then have n: "n = pos + 4095" using True "1.prems"(1) by (simp add: MAX_BYTES_def)
        then have "n mod 4096 = 4095" using "1.prems"(3) by (simp add: mod_add_left_eq [symmetric])
        moreover have "send_cached data n (pos + 4096) = Some []" by (subst send_cached.simps) (simp add: n)
        ultimately show ?thesis using st "1.prems"(1) n by simp
      qed
    qed
  qed
qed

text \<open>A cache hit: the element's block holds the n bytes of the response and a NUL. It is
  sent in whole pieces of 4096 bytes, so the reply is the response only when n is a multiple of
  4096; when n is one less, the NUL goes out too; for every other length the loop reads past
  the end of the block.\<close>

theorem v1_cached_reply:
  assumes "length data = Suc n"
  shows "send_cached data n 0 = (if n mod 4096 = 0 then Some (take n data)
    else if n mod 4096 = 4095 then Some data else None)"
  using send_cached_spec [OF assms, of 0] by simp

theorem v1_cached_reply_witness:
  "send_cached ''HTTP/1.0 200 OK?'' 15 0 = None"
  using v1_cached_reply [of "''HTTP/1.0 200 OK?''" 15] by simp

text \<open>The request of the first version to the origin server: the request line, the client's
  headers without its Connection, then \<open>Connection: close\<close>, then a Host header when the
  client sent none. When they do not fit in the 4096 bytes, only the request line goes out, and
  no empty line ends the request. When they fit nothing puts a NUL behind them: what is sent
  goes on with the old contents of the block up to their first NUL, and reads past the block
  when there is none.\<close>

theorem v1_request_tail:
  assumes "request_of pr = Some r" "header_wf pr" "pr_buf pr \<noteq> None" "\<forall>n. realloc_ok n"
    and "length junk = MAX_BYTES" "NUL \<notin> set (rq_path r @ rq_version r @ rq_host r)"
    and "nul_free_headers (rq_headers r)" "length (v1_line r) < MAX_BYTES"
    and "hl = render_headers (v1_forward_headers (rq_host r) (rq_headers r))" "length hl < 2147483648"
  shows "\<exists>pr'. build_request realloc_ok pr junk =
    (let rest = drop (length (v1_line r @ hl)) junk in
     if MAX_BYTES < length (v1_line r @ hl) then Some (pr', v1_line r)
     else if NUL \<in> set rest then Some (pr', v1_line r @ hl @ takeWhile (\<lambda>c. c \<noteq> NUL) rest)
     else None)"
proof -
  have nul: "NUL \<notin> set (rq_path r)" "NUL \<notin> set (rq_version r)" "NUL \<notin> set (rq_host r)" using assms(6) by auto
  from build_request_spec [OF assms(1-5) nul assms(7-10)] obtain pr' where
    b: "build_request realloc_ok pr junk =
      (if MAX_BYTES < length (v1_line r @ hl) then Some (pr', v1_line r)
       else map_option (Pair pr') (map_option (append (v1_line r @ hl)) (cstr (drop (length (v1_line r @ hl)) junk))))"
    by blast
  show ?thesis
  proof (cases "NUL \<in> set (drop (length (v1_line r @ hl)) junk)")
    case True
    from cstr_takeWhile [OF this] True show ?thesis unfolding b Let_def by simp
  next
    case False
    then have "cstr (drop (length (v1_line r @ hl)) junk) = None" unfolding cstr_None_iff .
    with False show ?thesis unfolding b Let_def by simp
  qed
qed

theorem v1_request_tail_witness:
  "\<exists>pr pr'. build_request (\<lambda>_. True) pr (replicate 47 (CHR ''?'') @ ''GARBAGE'' @ replicate 4042 NUL) = Some (pr',
      ''GET /x HTTP/1.0'' @ CRLF @ ''Connection: close'' @ CRLF @ ''Host: a'' @ CRLF @ CRLF @ ''GARBAGE'')"
proof -
  let ?pr = "(ParsedRequest_create \<lparr>pr_method = Null, pr_protocol = Null, pr_host = Null, pr_port = Null,
    pr_path = Null, pr_version = Null, pr_buf = None, pr_buflen = 0, pr_headers = None,
    pr_headersused = 0, pr_headerslen = 0\<rparr>)\<lparr>pr_method := Own ''GET'', pr_protocol := Own ''http'',
    pr_host := Own ''a'', pr_port := Own ''81'', pr_path := Own ''/x'', pr_version := Own ''HTTP/1.0'', pr_buf := Some [NUL]\<rparr>"
  let ?r = "\<lparr>rq_method = ''GET'', rq_protocol = ''http'', rq_host = ''a'', rq_port = Some ''81'',
    rq_path = ''/x'', rq_version = ''HTTP/1.0'', rq_headers = []\<rparr>"
  let ?junk = "replicate 47 (CHR ''?'') @ ''GARBAGE'' @ replicate 4042 NUL"
  have rq: "request_of ?pr = Some ?r"
    by (simp add: request_of_def ParsedRequest_create_def ParsedHeader_create_def header_list_def)
  have wf: "header_wf ?pr"
    by (simp add: header_wf_def ParsedRequest_create_def ParsedHeader_create_def DEFAULT_NHDRS_def)
  have line: "v1_line ?r = ''GET /x HTTP/1.0'' @ CRLF" by (simp add: v1_line_def)
  let ?hl = "''Connection: close'' @ CRLF @ ''Host: a'' @ CRLF @ CRLF"
  have hl: "?hl = render_headers (v1_forward_headers (rq_host ?r) (rq_headers ?r))"
    by (simp add: v1_forward_headers_def render_headers_def)
  have len: "length (v1_line ?r @ ?hl) = 47" by (simp add: line)
  have rest: "drop 47 ?junk = ''GARBAGE'' @ replicate 4042 NUL" by (subst drop_append) simp
  have nr: "replicate 4042 NUL = NUL # replicate 4041 NUL" by (simp flip: replicate_Suc)
  have tw: "takeWhile (\<lambda>c. c \<noteq> NUL) (''GARBAGE'' @ replicate 4042 NUL) = ''GARBAGE''"
    unfolding nr by simp
  have "\<exists>pr'. build_request (\<lambda>_. True) ?pr ?junk = (let rest = drop (length (v1_line ?r @ ?hl)) ?junk in
     if MAX_BYTES < length (v1_line ?r @ ?hl) then Some (pr', v1_line ?r)
     else if NUL \<in> set rest then Some (pr', v1_line ?r @ ?hl @ takeWhile (\<lambda>c. c \<noteq> NUL) rest) else None)"
    by (rule v1_request_tail [OF rq wf _ _ _ _ _ _ hl])
      (simp_all add: nul_free_headers_def line MAX_BYTES_def)
  then obtain pr' where "build_request (\<lambda>_. True) ?pr ?junk = Some (pr', v1_line ?r @ ?hl @ ''GARBAGE'')"
    unfolding len Let_def rest tw by (auto simp: MAX_BYTES_def)
  then show ?thesis unfolding line by (intro exI [of _ ?pr] exI [of _ pr']) simp
qed

text \<open>Receiving a request without a NUL, for every way the network cuts it into pieces. When
  the client sends fewer than 4096 bytes, every access stays in the buffer; the loop stops with
  a positive code only when the received prefix has the empty line, with 0 or -1 only when the
  client closed or broke the connection before it, and waits only for a client that sends
  neither. When the client sends 4096 bytes or more with no empty line in the first 4096, the
  buffer has no NUL left and \<open>strlen\<close> reads past it.\<close>

theorem v1_receive_request:
  assumes "NUL \<notin> set (stream es)"
  shows "if length (stream es) < MAX_BYTES
    then (case first_recv es of
        None \<Rightarrow> False
      | Some None \<Rightarrow> stream_end es = Pending \<and> \<not> sublist EOH (stream es)
      | Some (Some (buffer, m)) \<Rightarrow> \<exists>t. buffer = zero_padded t \<and> prefix t (stream es) \<and>
          (if 0 < m then sublist EOH t
           else t = stream es \<and> \<not> sublist EOH t \<and> stream_end es = (if m = 0 then Clean else Broken)))
    else \<not> sublist EOH (take MAX_BYTES (stream es)) \<longrightarrow> first_recv es = None"
proof (cases "stream es = []")
  case True
  have mb: "0 < MAX_BYTES" by (simp add: MAX_BYTES_def)
  from recv_stream [OF mb, of es] True show ?thesis
    by (auto simp: first_recv_def zero_padded_def mb split: option.splits recv_event.splits)
next
  case False
  then obtain d es1 where f: "first_recv es = recv_request (zero_padded d) (int (length d)) es1"
    "stream es = d @ stream es1" "d \<noteq> []" "length d \<le> MAX_BYTES" "stream_end es1 = stream_end es"
    by (rule first_recv_start)
  have n: "0 < int (length d)" using f(3) by simp
  show ?thesis
  proof (cases "length (stream es) < MAX_BYTES")
    case True
    with recv_request_short [of d es1 "int (length d)"] assms n show ?thesis
      unfolding f(1,2) f(5) [symmetric] by simp
  next
    case long: False
    with recv_request_long [of d es1 "int (length d)"] assms n f(4) show ?thesis
      unfolding f(1,2) by simp
  qed
qed

theorem v1_receive_request_witness:
  "first_recv [Data (replicate 4096 (CHR ''a''))] = None \<and>
   (case first_recv [Data ''GET'', Closed] of Some (Some (buffer, m)) \<Rightarrow> m \<le> 0 | _ \<Rightarrow> False)"
proof
  have nosub: "\<not> sublist EOH (take MAX_BYTES (replicate 4096 (CHR ''a'')))"
    by (auto simp: sublist_def MAX_BYTES_def dest!: arg_cong [where f = set])
  with v1_receive_request [of "[Data (replicate 4096 (CHR ''a''))]"]
  show "first_recv [Data (replicate 4096 (CHR ''a''))] = None" by (simp add: MAX_BYTES_def)
  have "\<not> sublist EOH t" if "prefix t ''GET''" for t
    using that by (auto simp: sublist_def prefix_def Cons_eq_append_conv)
  with v1_receive_request [of "[Data ''GET'', Closed]"]
  show "case first_recv [Data ''GET'', Closed] of Some (Some (buffer, m)) \<Rightarrow> m \<le> 0 | _ \<Rightarrow> False"
    by (auto simp: MAX_BYTES_def not_less [symmetric] split: option.splits)
qed

end
