(* ===== verification/V1_Handler.thy ===== *)
theory V1_Handler
  imports Client_Handler V1_Server
begin

text \<open>
  The first version's \<open>handle_client\<close> as a whole: what the parts of \<open>V1_Server\<close>, the
  parser and the cache of \<open>V1_Cache\<close> do together on a complete request, and what the same
  request does the second time.
\<close>

subsection \<open>Receiving a printed request\<close>

lemma render_nul: "request_ok r \<Longrightarrow> NUL \<notin> set (render r)"
proof -
  assume ok: "request_ok r"
  then have "list_all header_ok (rq_headers r)" by (simp add: request_ok_def)
  then have "NUL \<notin> set (concat (map render_header (rq_headers r)))"
    using render_header_ok by (auto simp: list_all_iff)
  with render_line_clean [OF ok] show ?thesis by (auto simp: render_def render_headers_def)
qed

lemma v1_received:
  assumes ok: "request_ok r" and st: "stream es = render r" and len: "length (render r) < MAX_BYTES"
  shows "\<exists>n. first_recv es = Some (Some (zero_padded (render r), n)) \<and> 0 < n"
proof -
  have nul: "NUL \<notin> set (render r)" by (rule render_nul [OF ok])
  have eoh: "sublist EOH (render r)"
    using render_eoh [of r "rq_headers r" "[]"] by (simp only: render_def append_Nil2)
  have "stream es \<noteq> []" using eoh unfolding st by auto
  then obtain d es1 where f: "first_recv es = recv_request (zero_padded d) (int (length d)) es1"
    "stream es = d @ stream es1" "d \<noteq> []" "length d \<le> MAX_BYTES" "stream_end es1 = stream_end es"
    by (rule first_recv_start)
  have s: "d @ stream es1 = render r" using f(2) st by simp
  have n: "0 < int (length d)" using f(3) by simp
  from recv_request_short [of d es1 "int (length d)"] nul len n
  have cs: "case first_recv es of
      None \<Rightarrow> False
    | Some None \<Rightarrow> stream_end es1 = Pending \<and> \<not> sublist EOH (render r)
    | Some (Some (buffer, m)) \<Rightarrow> \<exists>t. buffer = zero_padded t \<and> prefix t (render r) \<and>
        (if 0 < m then sublist EOH t
         else t = render r \<and> \<not> sublist EOH t \<and> stream_end es1 = (if m = 0 then Clean else Broken))"
    unfolding s f(1) by blast
  then obtain buffer m where bm: "first_recv es = Some (Some (buffer, m))"
    using eoh by (cases "first_recv es") (auto split: option.splits)
  from cs obtain t where t: "buffer = zero_padded t" "prefix t (render r)"
    "if 0 < m then sublist EOH t
     else t = render r \<and> \<not> sublist EOH t \<and> stream_end es1 = (if m = 0 then Clean else Broken)"
    unfolding bm by auto
  have m: "0 < m" "sublist EOH t" using t(3) eoh by (auto split: if_splits)
  have "prefix (render r) t" by (rule received_render [OF ok _ m(2), of "[]"]) (simp add: t(2))
  with t(2) have "t = render r" by (simp add: prefix_order.antisym)
  with bm t(1) m(1) show ?thesis by blast
qed

subsection \<open>Serving it\<close>

definition v1_port :: "request \<Rightarrow> int" where
  "v1_port r = (case rq_port r of None \<Rightarrow> 80 | Some p \<Rightarrow> to_int32 (strtol10 p))"

definition v1_text :: "request \<Rightarrow> string" where
  "v1_text r = v1_line r @ render_headers (v1_forward_headers (rq_host r) (rq_headers r))"

lemma v1_line_short: "request_ok r \<Longrightarrow> length (v1_line r) < length (render r)"
  by (simp add: v1_line_def render_def render_line_def render_addr_def request_ok_def)

lemma handle_request_spec:
  assumes rq: "request_of pr = Some r" and wf: "header_wf pr" "pr_buf pr \<noteq> None"
    and re: "\<forall>n. realloc_ok n" and j: "length (vc_junk conn) = MAX_BYTES" and ok: "request_ok r"
    and fit: "length (v1_text r) \<le> MAX_BYTES" "length (v1_line r) < MAX_BYTES"
    and g: "cstr (drop (length (v1_text r)) (vc_junk conn)) = Some g"
    and cn: "vc_connect conn (rq_host r) (v1_port r)"
    and rl: "relay_response (vc_server_in conn) (vc_ks conn) = Some (out, Some d, e)"
  shows "\<exists>pr' hs n u. handle_request realloc_ok c conn pr url = map_option (\<lambda>(c', x). (c', pr',
      \<lparr>vr_client = out, vr_server = Some (rq_host r, v1_port r, take (nat (vc_server_k conn)) (v1_text r @ g)),
       vr_done = (x \<noteq> Blocks)\<rparr>, 0))
      (add_cache_element_at c (vc_addr conn) (vc_now conn) d (int (length d)) url) \<and> header_wf pr' \<and>
    pr' = pr\<lparr>pr_headers := hs, pr_headerslen := n, pr_headersused := u\<rparr>"
proof -
  let ?hl = "render_headers (v1_forward_headers (rq_host r) (rq_headers r))"
  have t: "v1_line r @ ?hl = v1_text r" by (simp add: v1_text_def)
  have nul: "NUL \<notin> set (rq_path r)" "NUL \<notin> set (rq_version r)" "NUL \<notin> set (rq_host r)"
    "nul_free_headers (rq_headers r)"
    using ok by (auto simp: request_ok_def nul_free_headers_def header_ok_def list_all_iff)
  have l: "length ?hl < 2147483648" using fit(1) by (simp add: v1_text_def MAX_BYTES_def)
  from build_request_spec [OF rq wf re j nul fit(2) refl l] obtain pr' hs n u where
    p: "header_wf pr'" "pr' = pr\<lparr>pr_headers := hs, pr_headerslen := n, pr_headersused := u\<rparr>"
    and b: "build_request realloc_ok pr (vc_junk conn) =
      (if MAX_BYTES < length (v1_text r) then Some (pr', v1_line r)
       else map_option (Pair pr') (map_option (append (v1_text r)) (cstr (drop (length (v1_text r)) (vc_junk conn)))))"
    unfolding t by blast
  have b2: "build_request realloc_ok pr (vc_junk conn) = Some (pr', v1_text r @ g)"
    using fit(1) unfolding b g by simp
  note d = request_ofD [OF rq]
  have ho: "deref pr' (pr_host pr') = Some (rq_host r)" using d(3) by (simp add: p(2) deref_headers)
  have po: "(if pr_port pr' = Null then Some 80
       else map_option (\<lambda>p. to_int32 (strtol10 p)) (deref pr' (pr_port pr'))) = Some (v1_port r)"
    using d(6,7) by (auto simp: p(2) deref_headers v1_port_def)
  have "handle_request realloc_ok c conn pr url = map_option (\<lambda>(c', x). (c', pr',
      \<lparr>vr_client = out, vr_server = Some (rq_host r, v1_port r, take (nat (vc_server_k conn)) (v1_text r @ g)),
       vr_done = (x \<noteq> Blocks)\<rparr>, 0))
      (add_cache_element_at c (vc_addr conn) (vc_now conn) d (int (length d)) url)"
    unfolding handle_request_def b2 Option.bind_lunit prod.case ho po using cn
    by (auto simp: rl Let_def split: bind_splits)
  with p show ?thesis by blast
qed

text \<open>A well-formed request gets to \<open>handle_request\<close>, in whichever version.\<close>

lemma process_request_run:
  assumes ok: "request_ok r" and port: "port_ok einval r" and re: "\<forall>n. realloc_ok n"
    and ver: "checkHTTPversion (rq_version r) = 1" and len: "length (render r) < MAX_BYTES"
  shows "\<exists>pr. request_of pr = Some r \<and> header_wf pr \<and> pr_buf pr \<noteq> None \<and> path_ok pr \<and>
    process_request handler einval realloc_ok junk date c (render r) = do {
      (c, request, rep, rc) \<leftarrow> handler c pr;
      let rep = (if rc = -1 then rep\<lparr>vr_client := vr_client rep @ fst (sendErrorMessage 500 date)\<rparr> else rep);
      if \<not> vr_done rep then Some (c, rep) else do { _ \<leftarrow> ParsedRequest_destroy request; Some (c, rep) } }"
proof -
  have new: "pr_buf (ParsedRequest_create junk) = None" "path_ok (ParsedRequest_create junk)"
    by (simp_all add: ParsedRequest_create_def path_ok_def)
  have ln: "int (length (render r @ [])) \<le> MAX_REQ_LEN" using len by (simp add: MAX_REQ_LEN_def MAX_BYTES_def)
  from parse_render [OF new(1) create_wf create_empty ok port re ln] obtain pr where
    p: "ParsedRequest_parse einval realloc_ok (ParsedRequest_create junk) (render r) (int (length (render r)))
      = Some (pr, 0)" "request_of pr = Some r" "header_wf pr" "pr_buf pr \<noteq> None" by auto
  from parse_wf [OF p(1) create_wf re new(2)] have po: "path_ok pr" by simp
  note d = request_ofD [OF p(2)]
  have me: "deref pr (pr_method pr) = Some ''GET''" using d(1) ok by (simp add: request_ok_def)
  have nn: "pr_host pr \<noteq> Null" "pr_path pr \<noteq> Null" using d(3,4) by auto
  show ?thesis
    using p(2-4) po unfolding process_request_def p(1) Option.bind_lunit prod.case me d(5)
    using nn ver by (intro exI [of _ pr]) (auto simp: Let_def split: bind_splits)
qed

lemma destroy_headers:
  assumes "header_wf pr'" "path_ok pr" "pr' = pr\<lparr>pr_headers := hs, pr_headerslen := n, pr_headersused := u\<rparr>"
  shows "\<exists>y. ParsedRequest_destroy pr' = Some y"
  using destroy_defined [OF assms(1)] assms(2,3) by (simp add: path_ok_def)

lemma v1_process_spec:
  assumes ok: "request_ok r" and port: "port_ok einval r" and re: "\<forall>n. realloc_ok n"
    and ver: "checkHTTPversion (rq_version r) = 1" and j: "length (vc_junk conn) = MAX_BYTES"
    and len: "length (render r) < MAX_BYTES" and fit: "length (v1_text r) \<le> MAX_BYTES"
    and g: "cstr (drop (length (v1_text r)) (vc_junk conn)) = Some g"
    and cn: "vc_connect conn (rq_host r) (v1_port r)"
    and rl: "relay_response (vc_server_in conn) (vc_ks conn) = Some (out, Some d, e)"
  shows "v1_process einval realloc_ok junk c conn (render r) url = map_option (\<lambda>(c', x). (c',
      \<lparr>vr_client = out, vr_server = Some (rq_host r, v1_port r, take (nat (vc_server_k conn)) (v1_text r @ g)),
       vr_done = (x \<noteq> Blocks)\<rparr>)) (add_cache_element_at c (vc_addr conn) (vc_now conn) d (int (length d)) url)"
proof -
  from process_request_run [OF ok port re ver len,
      of "\<lambda>c request. handle_request realloc_ok c conn request url" junk "vc_date conn" c] obtain pr where
    p: "request_of pr = Some r" "header_wf pr" "pr_buf pr \<noteq> None" "path_ok pr" and
    run: "v1_process einval realloc_ok junk c conn (render r) url = do {
      (c, request, rep, rc) \<leftarrow> handle_request realloc_ok c conn pr url;
      let rep = (if rc = -1 then rep\<lparr>vr_client := vr_client rep @ fst (sendErrorMessage 500 (vc_date conn))\<rparr> else rep);
      if \<not> vr_done rep then Some (c, rep) else do { _ \<leftarrow> ParsedRequest_destroy request; Some (c, rep) } }"
    unfolding v1_process_def by blast
  have lv: "length (v1_line r) < MAX_BYTES" using v1_line_short [OF ok] len by simp
  from handle_request_spec [OF p(1-3) re j ok fit lv g cn rl] obtain pr' hs n u where
    h: "handle_request realloc_ok c conn pr url = map_option (\<lambda>(c', x). (c', pr',
      \<lparr>vr_client = out, vr_server = Some (rq_host r, v1_port r, take (nat (vc_server_k conn)) (v1_text r @ g)),
       vr_done = (x \<noteq> Blocks)\<rparr>, 0))
      (add_cache_element_at c (vc_addr conn) (vc_now conn) d (int (length d)) url)" "header_wf pr'"
      "pr' = pr\<lparr>pr_headers := hs, pr_headerslen := n, pr_headersused := u\<rparr>" by blast
  from destroy_headers [OF h(2) p(4) h(3)] show ?thesis
    unfolding run h(1) by (cases "add_cache_element_at c (vc_addr conn) (vc_now conn) d (int (length d)) url") (auto simp: Let_def)
qed

text \<open>The whole connection, when the request is not in the cache.\<close>

lemma handle_client_miss:
  assumes wf: "v1_wf c as" and miss: "\<forall>a \<in> set as. it_url (item (mem c a)) \<noteq> render r"
    and fresh: "vc_addr conn \<notin> set as"
    and ok: "request_ok r" and port: "port_ok einval r" and re: "\<forall>n. realloc_ok n"
    and ver: "checkHTTPversion (rq_version r) = 1" and j: "length (vc_junk conn) = MAX_BYTES"
    and st: "stream (vc_in conn) = render r" "length (render r) < MAX_BYTES"
    and fit: "length (v1_text r) \<le> MAX_BYTES"
    and g: "cstr (drop (length (v1_text r)) (vc_junk conn)) = Some g"
    and cn: "vc_connect conn (rq_host r) (v1_port r)"
    and srv: "stream_end (vc_server_in conn) = Clean" "weight (vc_server_in conn) < 524287"
      "\<forall>k \<in> set (vc_ks conn). 4095 \<le> k" "weight (vc_server_in conn) \<le> length (vc_ks conn)"
    and d: "d = takeWhile (\<lambda>c. c \<noteq> NUL) (stream (vc_server_in conn))"
    and room: "int (length d + length (render r)) + 41 \<le> MAX_ELEMENT_SIZE"
      "cache_size c + int (length d + length (render r)) + 41 \<le> MAX_SIZE"
  shows "\<exists>c'. handle_client einval realloc_ok junk c conn = Some (c',
      \<lparr>vr_client = stream (vc_server_in conn),
       vr_server = Some (rq_host r, v1_port r, take (nat (vc_server_k conn)) (v1_text r @ g)), vr_done = True\<rparr>) \<and>
    v1_wf c' (vc_addr conn # as) \<and>
    items (mem c') (vc_addr conn # as) = (render r, d @ [NUL], int (length d), vc_now conn) # items (mem c) as"
proof -
  let ?es = "vc_server_in conn"
  from v1_received [OF ok st] obtain n where
    n: "first_recv (vc_in conn) = Some (Some (zero_padded (render r), n))" "0 < n" by blast
  have rd: "str_at (zero_padded (render r)) 0 = Some (render r)"
    using zero_padded_str [OF render_nul [OF ok]] st(2) by simp
  have "List.find (\<lambda>a. it_url (item (mem c a)) = render r) as = None"
    using miss by (auto simp: find_None_iff)
  with find_spec_v1 [OF wf, of "render r" "vc_now conn"] obtain c1 where
    f: "v1_find c (render r) (vc_now conn) = Some (Returns (c1, None))" "v1_wf c1 as"
      "items (mem c1) as = items (mem c) as" by (auto simp: items_def)
  have cs: "cache_size c1 = cache_size c" using f(2,3) wf by (simp add: v1_wf_def)
  have ks0: "\<forall>k \<in> set (vc_ks conn). 0 \<le> k" using srv(3) by auto
  have c0: "MAX_BYTES + weight ?es * MAX_BYTES < 2147483648" using srv(2) by (simp add: MAX_BYTES_def)
  from relay_v1_spec [OF ks0 _ c0, of "[]" "[]"] srv obtain cap where
    r: "relay_v1 ?es (vc_ks conn) [] MAX_BYTES [] = Some (stream ?es, cap, stream ?es, Clean)"
      "length (stream ?es) < cap" by auto
  have rl: "relay_response ?es (vc_ks conn) = Some (stream ?es, Some d, Clean)"
    using r by (simp add: relay_response_def d)
  have b: "int (length d + length (render r)) < 2147483600"
    using room(1) by (simp add: MAX_ELEMENT_SIZE_def)
  from add_spec_v1 [OF f(2) fresh b, of "vc_now conn"] room cs obtain c' where
    ad: "add_cache_element c1 (vc_addr conn) (vc_now conn) d (int (length d)) (render r) = Some (c', Returns 1)"
    and c': "v1_wf c' (vc_addr conn # as)"
      "items (mem c') (vc_addr conn # as) = (render r, d @ [NUL], int (length d), vc_now conn) # items (mem c1) as"
    by (auto simp: not_less [symmetric])
  note ad' = ad [folded add_cache_element_at_string [OF render_nul [OF ok]]]
  have "handle_client einval realloc_ok junk c conn = Some (c',
      \<lparr>vr_client = stream ?es,
       vr_server = Some (rq_host r, v1_port r, take (nat (vc_server_k conn)) (v1_text r @ g)), vr_done = True\<rparr>)"
    unfolding handle_client_def n(1) Option.bind_lunit option.case prod.case rd f(1) run.case
    using v1_process_spec [OF ok port re ver j st(2) fit g cn rl] ad' n(2) by simp
  with c' f(3) show ?thesis by auto
qed

text \<open>The whole connection, when the request is in the cache.\<close>

lemma find_hit:
  assumes wf: "v1_wf c as" and hit: "List.find (\<lambda>a. it_url (item (mem c a)) = url) as = Some a"
    and it: "item (mem c a) = (u, d, len, t)"
  shows "\<exists>c' e. v1_find c url now = Some (Returns (c', Some a)) \<and> v1_wf c' as \<and>
    mem c' a = Some e \<and> el_data e = d \<and> el_len e = len"
proof -
  from find_spec_v1 [OF wf, of url now] hit obtain c1 where
    f: "v1_find c url now = Some (Returns (c1, Some a))" "v1_wf c1 as"
    and im: "items (mem c1) as = map (\<lambda>b. if Some a = Some b
      then (it_url (item (mem c b)), fst (snd (item (mem c b))), it_len (item (mem c b)), now)
      else item (mem c b)) as" by auto
  have a: "a \<in> set as" by (rule find_SomeD [OF hit])
  then have "item (mem c1 a) = (u, d, len, now)"
    using im it by (auto simp: items_def)
  moreover have "mem c1 a \<noteq> None" using a f(2) by (auto simp: v1_wf_def)
  ultimately show ?thesis using f by (cases "mem c1 a") auto
qed

lemma handle_client_hit:
  assumes wf: "v1_wf c as" and ok: "request_ok r"
    and st: "stream (vc_in conn) = render r" "length (render r) < MAX_BYTES"
    and hit: "List.find (\<lambda>a. it_url (item (mem c a)) = render r) as = Some a"
    and it: "item (mem c a) = (u, d, len, t)"
  shows "\<exists>c'. v1_wf c' as \<and> handle_client einval realloc_ok junk c conn =
    map_option (\<lambda>out. (c', \<lparr>vr_client = out, vr_server = None, vr_done = True\<rparr>)) (send_cached d (nat len) 0)"
proof -
  from v1_received [OF ok st] obtain n where
    n: "first_recv (vc_in conn) = Some (Some (zero_padded (render r), n))" "0 < n" by blast
  have rd: "str_at (zero_padded (render r)) 0 = Some (render r)"
    using zero_padded_str [OF render_nul [OF ok]] st(2) by simp
  from find_hit [OF wf hit it, of "vc_now conn"] obtain c1 e where
    f: "v1_find c (render r) (vc_now conn) = Some (Returns (c1, Some a))" "v1_wf c1 as"
    and e: "mem c1 a = Some e" "el_data e = d" "el_len e = len" by blast
  have "handle_client einval realloc_ok junk c conn =
      map_option (\<lambda>out. (c1, \<lparr>vr_client = out, vr_server = None, vr_done = True\<rparr>)) (send_cached d (nat len) 0)"
    unfolding handle_client_def n(1) Option.bind_lunit option.case prod.case rd f(1) run.case e
    by (simp add: bind_Some_map)
  with f(2) show ?thesis by blast
qed


subsection \<open>Properties\<close>

text \<open>C28. The first version end to end, for a well-formed request of fewer than 4096 bytes (in
  any packets; at most 4096 when rewritten) that is not in the cache, while the sockets work,
  when the response is small enough (\<open>weight\<close> below 524287, so that \<open>temp_buffer_size\<close> stays an
  \<open>int\<close>) and its element fits, both the limit for an element and what is left of the cache (if it
  does not, the handler never returns): the origin server at the request's host and port gets the rewritten request, followed by what was left in the
  uninitialised block up to its first NUL; the client gets exactly the bytes of the response;
  the cache, with its accounting intact, has a new first element for the whole text of the
  request, with the response up to its first NUL.\<close>

theorem v1_miss_end_to_end:
  assumes "v1_wf c as" "\<forall>a \<in> set as. it_url (item (mem c a)) \<noteq> render r" "vc_addr conn \<notin> set as"
    and "request_ok r" "port_ok einval r" "\<forall>n. realloc_ok n" "checkHTTPversion (rq_version r) = 1"
    and "stream (vc_in conn) = render r" "length (render r) < MAX_BYTES"
    and "length (vc_junk conn) = MAX_BYTES" "length (v1_text r) \<le> MAX_BYTES"
    and "cstr (drop (length (v1_text r)) (vc_junk conn)) = Some g"
    and "vc_connect conn (rq_host r) (v1_port r)"
    and "stream_end (vc_server_in conn) = Clean" "weight (vc_server_in conn) < 524287"
      "\<forall>k \<in> set (vc_ks conn). 4095 \<le> k" "weight (vc_server_in conn) \<le> length (vc_ks conn)"
    and "d = takeWhile (\<lambda>c. c \<noteq> NUL) (stream (vc_server_in conn))"
    and "int (length d + length (render r)) + 41 \<le> MAX_ELEMENT_SIZE"
      "cache_size c + int (length d + length (render r)) + 41 \<le> MAX_SIZE"
  shows "\<exists>c'. handle_client einval realloc_ok junk c conn = Some (c',
      \<lparr>vr_client = stream (vc_server_in conn),
       vr_server = Some (rq_host r, v1_port r, take (nat (vc_server_k conn)) (v1_text r @ g)), vr_done = True\<rparr>) \<and>
    v1_wf c' (vc_addr conn # as) \<and>
    items (mem c') (vc_addr conn # as) = (render r, d @ [NUL], int (length d), vc_now conn) # items (mem c) as"
  by (rule handle_client_miss [OF assms(1-7,10,8,9,11-20)])

definition v1_example :: v1_conn where
  "v1_example = \<lparr>vc_in = [Data ''GET '', Data (drop 4 (render (example_request None)))],
     vc_ks = replicate 20 5000, vc_connect = (\<lambda>_ _. True), vc_server_k = 5000,
     vc_server_in = [Data ''hello'', Closed], vc_now = 7, vc_addr = 0,
     vc_junk = replicate 4096 NUL, vc_date = ''now''\<rparr>"

definition v1_empty_cache :: v1_cache where
  "v1_empty_cache = \<lparr>mem = Map.empty, head = None, cache_size = 0, lock = False\<rparr>"

lemma example_text:
  "render (example_request None) = ''GET http://h/x HTTP/1.0'' @ CRLF @ CRLF"
  "v1_text (example_request None) = ''GET /x HTTP/1.0'' @ CRLF @ ''Connection: close'' @ CRLF @ ''Host: h'' @ CRLF @ CRLF"
  by (simp_all add: example_request_def render_def render_line_def render_addr_def render_headers_def
      v1_text_def v1_line_def v1_forward_headers_def)

lemma example_zero: "n < 4096 \<Longrightarrow> cstr (drop n (replicate 4096 NUL)) = Some []"
  by (cases "4096 - n") (auto simp: drop_replicate)

theorem v1_miss_end_to_end_witness:
  "\<exists>c'. handle_client False (\<lambda>_. True) zeroed v1_empty_cache v1_example = Some (c',
    \<lparr>vr_client = ''hello'', vr_server = Some (''h'', 80, ''GET /x HTTP/1.0'' @ CRLF @ ''Connection: close'' @ CRLF @
       ''Host: h'' @ CRLF @ CRLF), vr_done = True\<rparr>) \<and> v1_wf c' [0]"
proof -
  let ?r = "example_request None"
  have w: "v1_wf v1_empty_cache []" unfolding v1_empty_cache_def by (rule v1_empty)
  have z: "cstr (drop (length (v1_text ?r)) (vc_junk v1_example)) = Some []"
    unfolding example_text v1_example_def v1_conn.simps by (rule example_zero) simp
  have p: "v1_port ?r = 80" "rq_host ?r = ''h''" by (simp_all add: v1_port_def example_request_def)
  have s: "stream (vc_in v1_example) = render ?r" by (simp add: v1_example_def example_text)
  have srv: "stream (vc_server_in v1_example) = ''hello''" "stream_end (vc_server_in v1_example) = Clean"
    "weight (vc_server_in v1_example) = 7" by (simp_all add: v1_example_def)
  have v: "checkHTTPversion (rq_version ?r) = 1"
    by (simp add: checkHTTPversion_def strncmp_eq_def example_request_def)
  have "\<exists>c'. handle_client False (\<lambda>_. True) zeroed v1_empty_cache v1_example = Some (c',
      \<lparr>vr_client = stream (vc_server_in v1_example),
       vr_server = Some (rq_host ?r, v1_port ?r, take (nat (vc_server_k v1_example)) (v1_text ?r @ [])),
       vr_done = True\<rparr>) \<and> v1_wf c' (vc_addr v1_example # []) \<and>
    items (mem c') (vc_addr v1_example # []) = (render ?r, ''hello'' @ [NUL], int (length ''hello''), vc_now v1_example) #
      items (mem v1_empty_cache) []"
    by (rule v1_miss_end_to_end [OF w _ _ example_ok(1) example_port _ v s _ _ _ z])
      (simp_all add: srv, simp_all add: v1_example_def example_text MAX_BYTES_def MAX_SIZE_def
        MAX_ELEMENT_SIZE_def v1_empty_cache_def)
  then show ?thesis unfolding srv p by (auto simp: v1_example_def example_text)
qed

text \<open>The same request again: the cache has an element for its text, and the first one holds
  the n bytes of a response and a NUL. The origin server is not contacted; the client gets the
  n bytes when n is a multiple of 4096, one NUL more when n is one less, and for every other
  length the handler reads past the element's block.\<close>

theorem v1_repeated_request:
  assumes "v1_wf c (a # as)" "item (mem c a) = (render r, d @ [NUL], int (length d), t)"
    and "request_ok r" "stream (vc_in conn) = render r" "length (render r) < MAX_BYTES"
  shows "\<exists>c'. v1_wf c' (a # as) \<and> handle_client einval realloc_ok junk c conn =
    (if length d mod 4096 = 0 then Some (c', \<lparr>vr_client = d, vr_server = None, vr_done = True\<rparr>)
     else if length d mod 4096 = 4095 then Some (c', \<lparr>vr_client = d @ [NUL], vr_server = None, vr_done = True\<rparr>)
     else None)"
proof -
  have f: "List.find (\<lambda>a. it_url (item (mem c a)) = render r) (a # as) = Some a" using assms(2) by simp
  from handle_client_hit [OF assms(1,3,4,5) f assms(2)] obtain c' where
    c': "v1_wf c' (a # as)" "handle_client einval realloc_ok junk c conn =
      map_option (\<lambda>out. (c', \<lparr>vr_client = out, vr_server = None, vr_done = True\<rparr>))
        (send_cached (d @ [NUL]) (nat (int (length d))) 0)" by blast
  have "send_cached (d @ [NUL]) (length d) 0 = (if length d mod 4096 = 0 then Some d
      else if length d mod 4096 = 4095 then Some (d @ [NUL]) else None)"
    using send_cached_spec [of "d @ [NUL]" "length d" 0] by simp
  with c' show ?thesis by (intro exI [of _ c']) simp
qed

theorem v1_repeated_request_witness:
  "\<exists>c. handle_client False (\<lambda>_. True) zeroed c v1_example = None"
proof -
  let ?r = "example_request None"
  let ?e = "\<lparr>el_data = ''hello'' @ [NUL], el_len = 5, el_url = render ?r, el_time = 3, el_next = None\<rparr>"
  let ?c = "\<lparr>mem = [0 \<mapsto> ?e], head = Some 0, cache_size = 5 + 41 + int (length (render ?r)), lock = False\<rparr>"
  have "v1_wf ?c [0]" by (simp add: v1_wf_def items_def charge_def ELEMENT_SIZE_def MAX_SIZE_def example_text)
  moreover have "item (mem ?c 0) = (render ?r, ''hello'' @ [NUL], int (length ''hello''), 3)" by simp
  moreover have "stream (vc_in v1_example) = render ?r" "length (render ?r) < MAX_BYTES"
    by (simp_all add: v1_example_def example_text MAX_BYTES_def)
  ultimately obtain c' where "handle_client False (\<lambda>_. True) zeroed ?c v1_example =
    (if length ''hello'' mod 4096 = 0 then Some (c', \<lparr>vr_client = ''hello'', vr_server = None, vr_done = True\<rparr>)
     else if length ''hello'' mod 4096 = 4095 then Some (c', \<lparr>vr_client = ''hello'' @ [NUL], vr_server = None, vr_done = True\<rparr>)
     else None)"
    using v1_repeated_request [of ?c 0 "[]" ?r "''hello''" 3 v1_example False "\<lambda>_. True" zeroed] example_ok(1) by blast
  then show ?thesis by (intro exI [of _ ?c]) simp
qed

end
