(* ===== verification/V1_With_Cache.thy ===== *)
theory V1_With_Cache
  imports V1_Handler
begin

text \<open>
  What \<^verbatim>\<open>v1/proxy_server_with_cache.c\<close> does differently from the version with the
  thread pool, whose other functions it shares: \<open>thread_fn\<close>, which copies the request without
  its terminating NUL and prints the last piece of a cached response, and the accept loop of
  \<open>main\<close>, which starts one thread per connection. The same loop is in
  \<^verbatim>\<open>v1/proxy_server_without_cache.c\<close>.
\<close>

subsection \<open>\<open>thread_fn\<close>\<close>

text \<open>\<open>!strcmp\<close> on two blocks: undefined when it reads past the end of one of them.\<close>

fun strcmp_eq :: "block \<Rightarrow> block \<Rightarrow> bool option" where
  "strcmp_eq (a # as) (b # bs) =
    (if a \<noteq> b then Some False else if a = NUL then Some True else strcmp_eq as bs)"
| "strcmp_eq _ _ = None"

partial_function (option) find_loop_at ::
  "(nat \<rightharpoonup> element) \<Rightarrow> nat option \<Rightarrow> block \<Rightarrow> nat option option" where
  "find_loop_at m site url = (case site of
       None \<Rightarrow> Some None
     | Some a \<Rightarrow> (case m a of
           None \<Rightarrow> None
         | Some e \<Rightarrow> (case strcmp_eq (el_url e @ [NUL]) url of
               None \<Rightarrow> None
             | Some eq \<Rightarrow> if eq then Some (Some a) else find_loop_at m (el_next e) url)))"

definition find_at :: "v1_cache \<Rightarrow> block \<Rightarrow> int \<Rightarrow> (v1_cache \<times> nat option) run option" where
  "find_at c url now = (if lock c then Some Blocks else do {
     site \<leftarrow> find_loop_at (mem c) (head c) url;
     Some (Returns (case site of
         None \<Rightarrow> (c, None)
       | Some a \<Rightarrow> (c\<lparr>mem := (mem c)(a := map_option (\<lambda>e. e\<lparr>el_time := now\<rparr>) (mem c a))\<rparr>, Some a))) })"

text \<open>
  \<open>tempReq\<close> has room for one byte more than is copied: \<open>j\<close>, whatever \<open>malloc\<close> left there.
  \<open>response\<close> is an array of 4096 bytes on the stack, first uninitialised, that is printed with
  \<open>%s\<close>.
\<close>

definition thread_fn ::
  "bool \<Rightarrow> (nat \<Rightarrow> bool) \<Rightarrow> ParsedRequest \<Rightarrow> char \<Rightarrow> block \<Rightarrow> v1_cache \<Rightarrow> v1_conn \<Rightarrow>
   (v1_cache \<times> v1_reply) option" where
  "thread_fn einval realloc_ok junk j response c conn = do {
     rv \<leftarrow> first_recv (vc_in conn);
     case rv of None \<Rightarrow> Some (c, \<lparr>vr_client = [], vr_server = None, vr_done = False\<rparr>)
     | Some (buffer, bytes_send_client) \<Rightarrow> do {
         s \<leftarrow> str_at buffer 0;
         let tempReq = s @ [j];
         temp \<leftarrow> find_at c tempReq (vc_now conn);
         case temp of
           Blocks \<Rightarrow> Some (c, \<lparr>vr_client = [], vr_server = None, vr_done = False\<rparr>)
         | Returns (c, Some a) \<Rightarrow> do {
             e \<leftarrow> mem c a;
             out \<leftarrow> send_cached (el_data e) (nat (el_len e)) 0;
             _ \<leftarrow> str_at (if out = [] then response else drop (length out - MAX_BYTES) out) 0;
             Some (c, \<lparr>vr_client = out, vr_server = None, vr_done = True\<rparr>) }
         | Returns (c, None) \<Rightarrow>
             if bytes_send_client > 0 then v1_process einval realloc_ok junk c conn s tempReq
             else Some (c, \<lparr>vr_client = [], vr_server = None, vr_done = True\<rparr>) } }"

subsection \<open>The accept loop\<close>

definition MAX_CLIENTS :: nat where
  "MAX_CLIENTS = 400"

text \<open>
  From index i on, for the given results of \<open>accept\<close>: the sockets that got a thread, and
  whether the process has exited. The arrays \<open>Connected_socketId\<close> and \<open>tid\<close> have
  \<open>MAX_CLIENTS\<close> places.
\<close>

fun main_accept :: "nat \<Rightarrow> int list \<Rightarrow> (int list \<times> bool) option" where
  "main_accept i [] = Some ([], False)"
| "main_accept i (client_socketId # rs) =
    (if client_socketId < 0 then Some ([], True)
     else if MAX_CLIENTS \<le> i then None
     else map_option (\<lambda>(ts, e). (client_socketId # ts, e)) (main_accept (i + 1) rs))"

subsection \<open>Comparing with an unterminated copy\<close>

lemma strcmp_eq_strings: "NUL \<notin> set u \<Longrightarrow> NUL \<notin> set s \<Longrightarrow> strcmp_eq (u @ [NUL]) (s @ [NUL]) = Some (u = s)"
proof (induction u arbitrary: s)
  case Nil
  then show ?case by (cases s) auto
next
  case (Cons a u)
  then show ?case by (cases s) auto
qed

lemma strcmp_eq_open:
  "NUL \<notin> set u \<Longrightarrow> NUL \<notin> set s \<Longrightarrow> j \<noteq> NUL \<Longrightarrow> strcmp_eq (u @ [NUL]) (s @ [j]) \<in> {None, Some False}"
proof (induction u arbitrary: s)
  case Nil
  then show ?case by (cases s) auto
next
  case (Cons a u)
  show ?case
  proof (cases s)
    case Nil
    with Cons.prems show ?thesis by (cases u) auto
  next
    case (Cons b t)
    with Cons.prems Cons.IH [of t] show ?thesis by auto
  qed
qed

definition urls_ok :: "(nat \<rightharpoonup> element) \<Rightarrow> nat list \<Rightarrow> bool" where
  "urls_ok m as = (\<forall>a \<in> set as. NUL \<notin> set (it_url (item (m a))))"

lemma find_loop_at_string:
  "chain m p as \<Longrightarrow> urls_ok m as \<Longrightarrow> NUL \<notin> set s \<Longrightarrow> find_loop_at m p (s @ [NUL]) = find_loop m p s"
proof (induction as arbitrary: p)
  case Nil
  then show ?case by (subst find_loop_at.simps, subst find_loop.simps) simp
next
  case (Cons a as)
  then obtain e where e: "p = Some a" "m a = Some e" "chain m (el_next e) as" by auto
  have "NUL \<notin> set (el_url e)" "urls_ok m as" using Cons.prems(2) e(2) by (auto simp: urls_ok_def)
  with Cons.IH [OF e(3)] Cons.prems(3) e strcmp_eq_strings [of "el_url e" s] show ?case
    by (subst find_loop_at.simps, subst find_loop.simps) simp
qed

lemma find_loop_at_open:
  "chain m p as \<Longrightarrow> urls_ok m as \<Longrightarrow> NUL \<notin> set s \<Longrightarrow> j \<noteq> NUL \<Longrightarrow> find_loop_at m p (s @ [j]) \<in> {None, Some None}"
proof (induction as arbitrary: p)
  case Nil
  then show ?case by (subst find_loop_at.simps) simp
next
  case (Cons a as)
  then obtain e where e: "p = Some a" "m a = Some e" "chain m (el_next e) as" by auto
  have "NUL \<notin> set (el_url e)" "urls_ok m as" using Cons.prems(2) e(2) by (auto simp: urls_ok_def)
  with Cons.IH [OF e(3)] Cons.prems(3,4) e strcmp_eq_open [of "el_url e" s j] show ?case
    by (subst find_loop_at.simps) auto
qed

lemma find_at_string:
  assumes "v1_wf c as" "urls_ok (mem c) as" "NUL \<notin> set s"
  shows "find_at c (s @ [NUL]) now = v1_find c s now"
  using find_loop_at_string [OF _ assms(2,3), of "head c"] assms(1) by (simp add: find_at_def v1_find_def v1_wf_def)

lemma find_at_open:
  assumes "v1_wf c as" "urls_ok (mem c) as" "NUL \<notin> set s" "j \<noteq> NUL"
  shows "find_at c (s @ [j]) now \<in> {None, Some (Returns (c, None))}"
  using find_loop_at_open [OF _ assms(2-4), of "head c"] assms(1) by (auto simp: find_at_def v1_wf_def)

lemma open_url_undefined:
  assumes "NUL \<notin> set s" "j \<noteq> NUL" "\<not> lock c"
  shows "add_cache_element_at c a now d n (s @ [j]) = None"
proof -
  have "NUL \<notin> set (s @ [j])" using assms(1,2) by auto
  then have "str_at (s @ [j]) 0 = None" by (simp only: str_at_def drop_0 cstr_None_iff simp_thms)
  then show ?thesis using assms(3) by (simp add: add_cache_element_at_def)
qed

lemma main_accept_places:
  assumes "\<forall>s \<in> set ss. 0 \<le> s" "i \<le> MAX_CLIENTS"
  shows "main_accept i ss = (if i + length ss \<le> MAX_CLIENTS then Some (ss, False) else None)"
  using assms
proof (induction ss arbitrary: i)
  case Nil
  then show ?case by simp
next
  case (Cons s ss)
  then show ?case by (cases "i = MAX_CLIENTS") auto
qed

subsection \<open>Properties\<close>

text \<open>The copy without a NUL. For a complete well-formed request that is not in the cache, with
  working sockets, \<open>thread_fn\<close> does exactly what the thread pool version does when the byte
  that \<open>malloc\<close> left behind the copied request happens to be 0; for each of the 255 other
  values it is undefined: the key of the new element, or the comparison with a cached one,
  is read past the block.\<close>

theorem thread_fn_needs_zero_byte:
  assumes "v1_wf c as" "urls_ok (mem c) as" "\<forall>a \<in> set as. it_url (item (mem c a)) \<noteq> render r"
    and "request_ok r" "port_ok einval r" "\<forall>n. realloc_ok n" "checkHTTPversion (rq_version r) = 1"
    and "stream (vc_in conn) = render r" "length (render r) < MAX_BYTES"
    and "length (vc_junk conn) = MAX_BYTES" "length (v1_text r) \<le> MAX_BYTES"
    and "cstr (drop (length (v1_text r)) (vc_junk conn)) = Some g"
    and "vc_connect conn (rq_host r) (v1_port r)"
    and "relay_response (vc_server_in conn) (vc_ks conn) = Some (out, Some d, e)"
  shows "thread_fn einval realloc_ok junk j response c conn =
    (if j = NUL then handle_client einval realloc_ok junk c conn else None)"
proof -
  from v1_received [OF assms(4,8,9)] obtain n where
    n: "first_recv (vc_in conn) = Some (Some (zero_padded (render r), n))" "0 < n" by blast
  have nul: "NUL \<notin> set (render r)" by (rule render_nul [OF assms(4)])
  have rd: "str_at (zero_padded (render r)) 0 = Some (render r)"
    using zero_padded_str [OF nul] assms(9) by simp
  show ?thesis
  proof (cases "j = NUL")
    case True
    have "List.find (\<lambda>a. it_url (item (mem c a)) = render r) as = None"
      using assms(3) by (auto simp: find_None_iff)
    with find_spec_v1 [OF assms(1), of "render r" "vc_now conn"] obtain c1 where
      f: "v1_find c (render r) (vc_now conn) = Some (Returns (c1, None))" by auto
    show ?thesis
      unfolding thread_fn_def handle_client_def n(1) Option.bind_lunit option.case prod.case rd True Let_def
        find_at_string [OF assms(1,2) nul] f run.case by simp
  next
    case False
    have "\<not> lock c" using assms(1) by (simp add: v1_wf_def)
    then have "v1_process einval realloc_ok junk c conn (render r) (render r @ [j]) = None"
      using v1_process_spec [OF assms(4-7,10,9,11-14), of junk c "render r @ [j]"]
        open_url_undefined [OF nul False] by simp
    with find_at_open [OF assms(1,2) nul False, of "vc_now conn"] n(2) False show ?thesis
      unfolding thread_fn_def n(1) Option.bind_lunit option.case prod.case rd Let_def by auto
  qed
qed

theorem thread_fn_needs_zero_byte_witness:
  "thread_fn False (\<lambda>_. True) zeroed NUL [] v1_empty_cache v1_example =
     handle_client False (\<lambda>_. True) zeroed v1_empty_cache v1_example \<and>
   thread_fn False (\<lambda>_. True) zeroed (CHR ''x'') [] v1_empty_cache v1_example = None"
proof -
  let ?r = "example_request None"
  have w: "v1_wf v1_empty_cache []" unfolding v1_empty_cache_def by (rule v1_empty)
  have z: "cstr (drop (length (v1_text ?r)) (vc_junk v1_example)) = Some []"
    unfolding example_text v1_example_def v1_conn.simps by (rule example_zero) simp
  have p: "v1_port ?r = 80" "rq_host ?r = ''h''" by (simp_all add: v1_port_def example_request_def)
  have s: "stream (vc_in v1_example) = render ?r" by (simp add: v1_example_def example_text)
  have v: "checkHTTPversion (rq_version ?r) = 1"
    by (simp add: checkHTTPversion_def strncmp_eq_def example_request_def)
  have k: "replicate 20 (5000 :: int) = 5000 # replicate 19 5000" by (simp add: eval_nat_numeral)
  have rl: "relay_response (vc_server_in v1_example) (vc_ks v1_example) = Some (''hello'', Some ''hello'', Clean)"
    by (simp add: relay_response_def v1_example_def MAX_BYTES_def relay_v1.simps k Let_def)
  have "thread_fn False (\<lambda>_. True) zeroed j [] v1_empty_cache v1_example =
    (if j = NUL then handle_client False (\<lambda>_. True) zeroed v1_empty_cache v1_example else None)" for j
    by (rule thread_fn_needs_zero_byte [OF w _ _ example_ok(1) example_port _ v s _ _ _ z _ rl])
      (simp_all add: urls_ok_def, simp_all add: v1_example_def example_text MAX_BYTES_def)
  from this [of NUL] this [of "CHR ''x''"] show ?thesis by simp
qed

text \<open>The second time, even when that byte was 0: the response of n NUL-free bytes goes out in
  whole pieces of 4096 and its last piece is printed as a string. This is defined only when n
  is 4095 modulo 4096, or when n is 0 and the uninitialised array on the stack has a NUL.\<close>

theorem thread_fn_cached_reply:
  assumes "v1_wf c (a # as)" "urls_ok (mem c) (a # as)" "item (mem c a) = (render r, d @ [NUL], int (length d), t)"
    and "NUL \<notin> set d" "request_ok r" "stream (vc_in conn) = render r" "length (render r) < MAX_BYTES"
  shows "\<exists>c'. v1_wf c' (a # as) \<and> thread_fn einval realloc_ok junk NUL response c conn =
    (if length d mod 4096 = 4095 then Some (c', \<lparr>vr_client = d @ [NUL], vr_server = None, vr_done = True\<rparr>)
     else if d = [] \<and> NUL \<in> set response then Some (c', \<lparr>vr_client = [], vr_server = None, vr_done = True\<rparr>)
     else None)"
proof -
  from v1_received [OF assms(5-7)] obtain n where
    n: "first_recv (vc_in conn) = Some (Some (zero_padded (render r), n))" "0 < n" by blast
  have nul: "NUL \<notin> set (render r)" by (rule render_nul [OF assms(5)])
  have rd: "str_at (zero_padded (render r)) 0 = Some (render r)"
    using zero_padded_str [OF nul] assms(7) by simp
  have hit: "List.find (\<lambda>a. it_url (item (mem c a)) = render r) (a # as) = Some a" using assms(3) by simp
  from find_hit [OF assms(1) hit assms(3), of "vc_now conn"] obtain c1 e where
    f: "v1_find c (render r) (vc_now conn) = Some (Returns (c1, Some a))" "v1_wf c1 (a # as)"
    and e: "mem c1 a = Some e" "el_data e = d @ [NUL]" "el_len e = int (length d)" by blast
  have sc: "send_cached (d @ [NUL]) (length d) 0 = (if length d mod 4096 = 0 then Some d
      else if length d mod 4096 = 4095 then Some (d @ [NUL]) else None)"
    using send_cached_spec [of "d @ [NUL]" "length d" 0] by simp
  let ?p = "\<lambda>out. str_at (if out = [] then response else drop (length out - MAX_BYTES) out) 0"
  have run: "thread_fn einval realloc_ok junk NUL response c conn = do {
      out \<leftarrow> send_cached (d @ [NUL]) (length d) 0; _ \<leftarrow> ?p out;
      Some (c1, \<lparr>vr_client = out, vr_server = None, vr_done = True\<rparr>) }"
    unfolding thread_fn_def n(1) Option.bind_lunit option.case prod.case rd Let_def
      find_at_string [OF assms(1,2) nul] f(1) run.case e by simp
  have nn: "NUL \<notin> set m \<Longrightarrow> str_at m 0 = None" for m using cstr_None_iff [of m] by (simp add: str_at_def)
  have ns: "NUL \<in> set m \<Longrightarrow> \<exists>s. str_at m 0 = Some s" for m using cstr_is_Some by (simp add: str_at_def)
  consider "length d mod 4096 = 4095" | "d = []" | "length d mod 4096 = 0" "d \<noteq> []"
    | "length d mod 4096 \<noteq> 4095" "length d mod 4096 \<noteq> 0" by blast
  then have "thread_fn einval realloc_ok junk NUL response c conn =
    (if length d mod 4096 = 4095 then Some (c1, \<lparr>vr_client = d @ [NUL], vr_server = None, vr_done = True\<rparr>)
     else if d = [] \<and> NUL \<in> set response then Some (c1, \<lparr>vr_client = [], vr_server = None, vr_done = True\<rparr>)
     else None)"
  proof cases
    case 1
    have "NUL \<in> set (drop (length (d @ [NUL]) - MAX_BYTES) (d @ [NUL]))"
      using last_drop [of "length (d @ [NUL]) - MAX_BYTES" "d @ [NUL]"]
      by (metis MAX_BYTES_def diff_less drop_eq_Nil2 last_in_set last_snoc length_append_singleton not_le zero_less_Suc zero_less_numeral)
    from ns [OF this] show ?thesis unfolding run sc using 1 by auto
  next
    case 2
    then show ?thesis unfolding run sc using nn [of response] ns [of response] by auto
  next
    case 3
    have "NUL \<notin> set (drop (length d - MAX_BYTES) d)" using assms(4) by (auto dest: in_set_dropD)
    from nn [OF this] show ?thesis unfolding run sc using 3 by simp
  next
    case 4
    then have "d \<noteq> []" by auto
    with 4 show ?thesis unfolding run sc by simp
  qed
  with f(2) show ?thesis by blast
qed

theorem thread_fn_cached_reply_witness:
  "\<exists>c. thread_fn False (\<lambda>_. True) zeroed NUL (replicate 4096 NUL) c v1_example = None"
proof -
  let ?r = "example_request None"
  let ?e = "\<lparr>el_data = ''hello'' @ [NUL], el_len = 5, el_url = render ?r, el_time = 3, el_next = None\<rparr>"
  let ?c = "\<lparr>mem = [0 \<mapsto> ?e], head = Some 0, cache_size = 5 + 41 + int (length (render ?r)), lock = False\<rparr>"
  have "v1_wf ?c [0]" by (simp add: v1_wf_def items_def charge_def ELEMENT_SIZE_def MAX_SIZE_def example_text)
  moreover have "urls_ok (mem ?c) [0]" using render_nul [OF example_ok(1)] by (simp add: urls_ok_def)
  moreover have "item (mem ?c 0) = (render ?r, ''hello'' @ [NUL], int (length ''hello''), 3)" by simp
  moreover have "stream (vc_in v1_example) = render ?r" "length (render ?r) < MAX_BYTES"
    by (simp_all add: v1_example_def example_text MAX_BYTES_def)
  moreover have "NUL \<notin> set ''hello''" by simp
  ultimately obtain c' where "thread_fn False (\<lambda>_. True) zeroed NUL (replicate 4096 NUL) ?c v1_example =
    (if length ''hello'' mod 4096 = 4095 then Some (c', \<lparr>vr_client = ''hello'' @ [NUL], vr_server = None, vr_done = True\<rparr>)
     else if ''hello'' = [] \<and> NUL \<in> set (replicate 4096 NUL)
       then Some (c', \<lparr>vr_client = [], vr_server = None, vr_done = True\<rparr>) else None)"
    using thread_fn_cached_reply [of ?c 0 "[]" ?r "''hello''" 3 v1_example False "\<lambda>_. True" zeroed "replicate 4096 NUL"]
      example_ok(1) by blast
  then show ?thesis by (intro exI [of _ ?c]) simp
qed

text \<open>The accept loops of the two versions with a thread per connection never reuse a place of
  their arrays: with working \<open>accept\<close> calls every connection gets its thread up to the 400th,
  and the 401st is written behind the arrays, however many have been closed by then.\<close>

theorem accept_loop_400:
  assumes "\<forall>s \<in> set ss. 0 \<le> s"
  shows "main_accept 0 ss = (if length ss \<le> 400 then Some (ss, False) else None)"
  using main_accept_places [OF assms, of 0] by (simp add: MAX_CLIENTS_def)

theorem accept_loop_400_witness:
  "main_accept 0 (replicate 400 5) = Some (replicate 400 5, False) \<and> main_accept 0 (replicate 401 5) = None"
  using accept_loop_400 [of "replicate 400 5"] accept_loop_400 [of "replicate 401 5"] by simp

end
