(* ===== verification/V1_Threads.thy ===== *)
theory V1_Threads
  imports V1_With_Cache
begin

text \<open>
  The threads of \<^verbatim>\<open>v1/proxy_server_with_cache.c\<close>: \<open>main\<close> stores the descriptor of each
  connection in the next place of \<open>Connected_socketId\<close> and starts a thread that reads it from
  there; \<open>thread_fn\<close> waits for the semaphore, handles the connection, closes it and posts the
  semaphore. The descriptors are part of the state: those of the clients, and those that
  \<open>handle_request\<close> makes for the origin servers. Connections are numbered like their places.
\<close>

subsection \<open>States and steps\<close>

datatype fd_use = Std | Client nat | Remote nat

text \<open>
  A thread is not created, before \<open>sem_wait\<close>, has its client's descriptor, has a connection to
  the origin server too, is about to close the client's, before \<open>sem_post\<close>, or has returned.
  \<open>main\<close> is at \<open>accept\<close>, before \<open>pthread_create\<close>, has exited, or has written behind its array.
\<close>

datatype client_thread = Uncreated | AtSemWait | Serving nat | Connected nat nat | Answered nat
  | AtSemPost | Finished

datatype main_thread_at = AtAccept | AtCreate | MainExited | Overrun

record client_threads =
  ct_pc :: "nat \<Rightarrow> client_thread"
  Connected_socketId :: "nat list"
  seamaphore :: nat
  ct_fds :: "nat \<rightharpoonup> fd_use"
  ct_main :: main_thread_at

definition threads_init :: client_threads where
  "threads_init = \<lparr>ct_pc = (\<lambda>_. Uncreated), Connected_socketId = [], seamaphore = MAX_CLIENTS,
     ct_fds = (\<lambda>fd. if fd < 4 then Some Std else None), ct_main = AtAccept\<rparr>"

text \<open>The loop of \<open>main\<close>; its index i is the number of places it has filled.\<close>

inductive main_loop :: "client_threads \<Rightarrow> client_threads \<Rightarrow> bool" where
  store_socket: "ct_main s = AtAccept \<Longrightarrow> least_free (ct_fds s) fd \<Longrightarrow>
    length (Connected_socketId s) < MAX_CLIENTS \<Longrightarrow>
    main_loop s (s\<lparr>Connected_socketId := Connected_socketId s @ [fd],
      ct_fds := (ct_fds s)(fd \<mapsto> Client (length (Connected_socketId s))), ct_main := AtCreate\<rparr>)"
| overrun_array: "ct_main s = AtAccept \<Longrightarrow> \<not> length (Connected_socketId s) < MAX_CLIENTS \<Longrightarrow>
    main_loop s (s\<lparr>ct_main := Overrun\<rparr>)"
| accept_error: "ct_main s = AtAccept \<Longrightarrow> main_loop s (s\<lparr>ct_main := MainExited\<rparr>)"
| create: "ct_main s = AtCreate \<Longrightarrow>
    main_loop s (s\<lparr>ct_pc := (ct_pc s)(length (Connected_socketId s) - 1 := AtSemWait), ct_main := AtAccept\<rparr>)"

text \<open>
  \<open>thread_fn\<close>. No connection to an origin server is made when the response is cached, when the
  request is not a good one, or when there is no socket. A connection that fails leaves its
  descriptor open.
\<close>

inductive client_step :: "client_threads \<Rightarrow> nat \<Rightarrow> client_threads \<Rightarrow> bool" where
  wait_semaphore: "ct_pc s i = AtSemWait \<Longrightarrow> 0 < seamaphore s \<Longrightarrow> i < length (Connected_socketId s) \<Longrightarrow>
    client_step s i (s\<lparr>ct_pc := (ct_pc s)(i := Serving (Connected_socketId s ! i)), seamaphore := seamaphore s - 1\<rparr>)"
| no_origin: "ct_pc s i = Serving fd \<Longrightarrow> client_step s i (s\<lparr>ct_pc := (ct_pc s)(i := Answered fd)\<rparr>)"
| connect_origin: "ct_pc s i = Serving fd \<Longrightarrow> least_free (ct_fds s) r \<Longrightarrow>
    client_step s i (s\<lparr>ct_pc := (ct_pc s)(i := Connected fd r), ct_fds := (ct_fds s)(r \<mapsto> Remote i)\<rparr>)"
| connect_fails: "ct_pc s i = Serving fd \<Longrightarrow> least_free (ct_fds s) r \<Longrightarrow>
    client_step s i (s\<lparr>ct_pc := (ct_pc s)(i := Answered fd), ct_fds := (ct_fds s)(r \<mapsto> Remote i)\<rparr>)"
| close_origin: "ct_pc s i = Connected fd r \<Longrightarrow>
    client_step s i (s\<lparr>ct_pc := (ct_pc s)(i := Answered fd), ct_fds := (ct_fds s)(r := None)\<rparr>)"
| close_client: "ct_pc s i = Answered fd \<Longrightarrow>
    client_step s i (s\<lparr>ct_pc := (ct_pc s)(i := AtSemPost), ct_fds := (ct_fds s)(fd := None)\<rparr>)"
| post_semaphore: "ct_pc s i = AtSemPost \<Longrightarrow>
    client_step s i (s\<lparr>ct_pc := (ct_pc s)(i := Finished), seamaphore := seamaphore s + 1\<rparr>)"

inductive threads_step :: "client_threads \<Rightarrow> client_threads \<Rightarrow> bool" where
  main_moves: "main_loop s s' \<Longrightarrow> threads_step s s'"
| client_moves: "ct_main s \<in> {AtAccept, AtCreate} \<Longrightarrow> client_step s i s' \<Longrightarrow> threads_step s s'"

inductive threads_reach :: "client_threads \<Rightarrow> bool" where
  threads_start: "threads_reach threads_init"
| threads_next: "threads_reach s \<Longrightarrow> threads_step s s' \<Longrightarrow> threads_reach s'"

inductive_cases main_loopE: "main_loop s s'"
inductive_cases client_stepE: "client_step s i s'"
inductive_cases threads_stepE: "threads_step s s'"

subsection \<open>The invariants\<close>

text \<open>The descriptors that the thread for place i holds.\<close>

fun holds :: "nat \<Rightarrow> nat list \<Rightarrow> (nat \<rightharpoonup> fd_use) \<Rightarrow> client_thread \<Rightarrow> bool" where
  "holds i slots fds AtSemWait = (fds (slots ! i) = Some (Client i))"
| "holds i slots fds (Serving fd) = (fd = slots ! i \<and> fds fd = Some (Client i))"
| "holds i slots fds (Connected fd r) = (fd = slots ! i \<and> fds fd = Some (Client i) \<and> fds r = Some (Remote i))"
| "holds i slots fds (Answered fd) = (fd = slots ! i \<and> fds fd = Some (Client i))"
| "holds i slots fds _ = True"

definition own_clients :: "client_threads \<Rightarrow> bool" where
  "own_clients s = ((\<forall>i < length (Connected_socketId s). holds i (Connected_socketId s) (ct_fds s) (ct_pc s i)) \<and>
     (ct_main s = AtCreate \<longrightarrow> Connected_socketId s \<noteq> [] \<and>
       ct_fds s (last (Connected_socketId s)) = Some (Client (length (Connected_socketId s) - 1))))"

definition created :: "client_threads \<Rightarrow> bool" where
  "created s = (length (Connected_socketId s) \<le> MAX_CLIENTS \<and>
     (\<forall>i. ct_pc s i = Uncreated \<longleftrightarrow> length (Connected_socketId s) \<le> i \<or>
       ct_main s = AtCreate \<and> i = length (Connected_socketId s) - 1) \<and>
     (ct_main s = AtCreate \<longrightarrow> Connected_socketId s \<noteq> []))"

fun inside :: "client_thread \<Rightarrow> nat" where
  "inside (Serving fd) = 1"
| "inside (Connected fd r) = 1"
| "inside (Answered fd) = 1"
| "inside AtSemPost = 1"
| "inside _ = 0"

definition semaphore_count :: "client_threads \<Rightarrow> bool" where
  "semaphore_count s = (seamaphore s + (\<Sum>i < MAX_CLIENTS. inside (ct_pc s i)) = MAX_CLIENTS)"

subsection \<open>The invariants are kept\<close>

lemma createdI:
  assumes "length (Connected_socketId s) \<le> MAX_CLIENTS" "ct_main s = AtCreate \<Longrightarrow> Connected_socketId s \<noteq> []"
    and "\<And>i. ct_pc s i = Uncreated \<longleftrightarrow> length (Connected_socketId s) \<le> i \<or>
      ct_main s = AtCreate \<and> i = length (Connected_socketId s) - 1"
  shows "created s"
  using assms by (simp add: created_def)

lemma createdD:
  assumes "created s"
  shows "length (Connected_socketId s) \<le> MAX_CLIENTS" "ct_main s = AtCreate \<Longrightarrow> Connected_socketId s \<noteq> []"
    and "ct_pc s i = Uncreated \<longleftrightarrow> length (Connected_socketId s) \<le> i \<or>
      ct_main s = AtCreate \<and> i = length (Connected_socketId s) - 1"
  using assms by (simp_all add: created_def)

lemma created_step:
  assumes "threads_step s s'" "created s"
  shows "created s'"
  using assms(1)
proof (cases rule: threads_step.cases)
  case main_moves
  then show ?thesis
  proof (cases rule: main_loop.cases)
    case (store_socket fd)
    have u: "ct_pc s i = Uncreated \<longleftrightarrow> length (Connected_socketId s) \<le> i" for i
      using createdD(3) [OF assms(2), of i] store_socket(2) by simp
    show ?thesis
    proof (rule createdI)
      show "ct_pc s' i = Uncreated \<longleftrightarrow> length (Connected_socketId s') \<le> i \<or>
          ct_main s' = AtCreate \<and> i = length (Connected_socketId s') - 1" for i
        unfolding store_socket(1) by (simp add: u) arith
    qed (use store_socket in simp_all)
  next
    case create
    let ?n = "length (Connected_socketId s)"
    have l: "0 < ?n" using createdD(2) [OF assms(2) create(2)] by simp
    have "((ct_pc s)(?n - 1 := AtSemWait)) i = Uncreated \<longleftrightarrow> ?n \<le> i" for i
    proof (cases "i = ?n - 1")
      case True
      then have "\<not> ?n \<le> i" using l by linarith
      then show ?thesis using True by simp
    next
      case False
      then show ?thesis using createdD(3) [OF assms(2), of i] create(2) by simp
    qed
    with create(1) createdD(1) [OF assms(2)] show ?thesis by (intro createdI) simp_all
  qed (use assms(2) in \<open>simp_all add: created_def\<close>)
next
  case (client_moves i)
  obtain x where x: "ct_pc s' = (ct_pc s)(i := x)" "x \<noteq> Uncreated" "ct_pc s i \<noteq> Uncreated"
    "Connected_socketId s' = Connected_socketId s" "ct_main s' = ct_main s"
    using client_moves(2) by (cases rule: client_step.cases) auto
  then have "ct_pc s' j = Uncreated \<longleftrightarrow> ct_pc s j = Uncreated" for j by auto
  with createdD [OF assms(2)] show ?thesis unfolding created_def x(4,5) by simp
qed

text \<open>A thread that runs has its place and a number below the limit.\<close>

lemma created_index:
  assumes "created s" "ct_pc s i \<noteq> Uncreated"
  shows "i < length (Connected_socketId s)" "i < MAX_CLIENTS"
  using createdD(1) [OF assms(1)] createdD(3) [OF assms(1), of i] assms(2) by simp_all

lemma semaphore_step:
  assumes "threads_step s s'" "created s" "semaphore_count s"
  shows "semaphore_count s'"
  using assms(1)
proof (cases rule: threads_step.cases)
  case main_moves
  then show ?thesis
  proof (cases rule: main_loop.cases)
    case create
    let ?i = "length (Connected_socketId s) - 1"
    have "0 < length (Connected_socketId s)" "length (Connected_socketId s) \<le> MAX_CLIENTS"
      using createdD(1,2) [OF assms(2)] create(2) by simp_all
    then have "?i < MAX_CLIENTS" by linarith
    moreover have "ct_pc s ?i = Uncreated" using createdD(3) [OF assms(2)] create(2) by simp
    ultimately show ?thesis
      using assms(3) create(1) sum_fun_upd [of ?i MAX_CLIENTS inside "ct_pc s" AtSemWait]
      by (simp add: semaphore_count_def)
  qed (use assms(3) in \<open>simp_all add: semaphore_count_def\<close>)
next
  case (client_moves i)
  from client_moves(2) have "ct_pc s i \<noteq> Uncreated" by (cases rule: client_step.cases) auto
  note i = created_index(2) [OF assms(2) this]
  obtain x where x: "ct_pc s' = (ct_pc s)(i := x)" "seamaphore s' + inside x = seamaphore s + inside (ct_pc s i)"
    using client_moves(2) by (cases rule: client_step.cases) auto
  from sum_fun_upd [OF i, of inside "ct_pc s" x] x assms(3) show ?thesis by (simp add: semaphore_count_def)
qed

text \<open>Descriptors that are not those of thread i stay what they are.\<close>

definition others_kept :: "nat \<Rightarrow> (nat \<rightharpoonup> fd_use) \<Rightarrow> (nat \<rightharpoonup> fd_use) \<Rightarrow> bool" where
  "others_kept i fds fds' = (\<forall>r x. fds r = Some x \<longrightarrow> x \<noteq> Client i \<longrightarrow> x \<noteq> Remote i \<longrightarrow> fds' r = Some x)"

lemma others_kept_intros:
  "others_kept i fds fds"
  "fds r = None \<Longrightarrow> others_kept i fds (fds(r \<mapsto> x))"
  "fds r = Some (Client i) \<Longrightarrow> others_kept i fds (fds(r := None))"
  "fds r = Some (Remote i) \<Longrightarrow> others_kept i fds (fds(r := None))"
  by (auto simp: others_kept_def)

lemma holds_other: "holds j slots fds t \<Longrightarrow> others_kept i fds fds' \<Longrightarrow> i \<noteq> j \<Longrightarrow> holds j slots fds' t"
  by (cases t) (auto simp: others_kept_def)

lemma holds_append: "holds i slots fds t \<Longrightarrow> i < length slots \<Longrightarrow> holds i (slots @ [fd]) fds t"
  by (cases t) (auto simp: nth_append)

text \<open>The effect of a step of thread i.\<close>

lemma client_step_effect:
  assumes "client_step s i s'" "holds i (Connected_socketId s) (ct_fds s) (ct_pc s i)"
  shows "Connected_socketId s' = Connected_socketId s \<and> ct_main s' = ct_main s \<and> ct_pc s i \<noteq> Uncreated \<and>
    others_kept i (ct_fds s) (ct_fds s') \<and>
    (\<exists>x. ct_pc s' = (ct_pc s)(i := x) \<and> holds i (Connected_socketId s) (ct_fds s') x)"
  using assms(1)
proof (cases rule: client_step.cases)
  case (close_origin fd r)
  then have "fd \<noteq> r" using assms(2) by auto
  with close_origin assms(2) show ?thesis by (auto simp: others_kept_intros)
next
  case (connect_origin fd r)
  with assms(2) show ?thesis
    by (auto simp: least_free_def others_kept_intros intro!: exI [of _ "Connected fd r"])
next
  case (connect_fails fd r)
  with assms(2) show ?thesis
    by (auto simp: least_free_def others_kept_intros intro!: exI [of _ "Answered fd"])
qed (use assms(2) in \<open>auto simp: others_kept_intros\<close>)

lemma own_step:
  assumes "threads_step s s'" "created s" "own_clients s"
  shows "own_clients s'"
  using assms(1)
proof (cases rule: threads_step.cases)
  case main_moves
  then show ?thesis
  proof (cases rule: main_loop.cases)
    case (store_socket fd)
    let ?n = "length (Connected_socketId s)"
    have k: "others_kept ?n (ct_fds s) ((ct_fds s)(fd \<mapsto> Client ?n))"
      using store_socket(3) by (intro others_kept_intros) (simp add: least_free_def)
    have "ct_pc s ?n = Uncreated" using assms(2) by (simp add: created_def)
    moreover have "holds i (Connected_socketId s @ [fd]) ((ct_fds s)(fd \<mapsto> Client ?n)) (ct_pc s i)" if "i < ?n" for i
      using holds_append [OF holds_other [OF _ k]] assms(3) that by (simp add: own_clients_def)
    ultimately show ?thesis using store_socket(1) by (auto simp: own_clients_def less_Suc_eq)
  next
    case create
    then show ?thesis using assms(3) by (auto simp: own_clients_def last_conv_nth)
  qed (use assms(3) in \<open>simp_all add: own_clients_def\<close>)
next
  case (client_moves i)
  from client_moves(2) have "ct_pc s i \<noteq> Uncreated" by (cases rule: client_step.cases) auto
  note i = created_index(1) [OF assms(2) this]
  then have "holds i (Connected_socketId s) (ct_fds s) (ct_pc s i)" using assms(3) by (simp add: own_clients_def)
  from client_step_effect [OF client_moves(2) this] obtain x where
    e: "Connected_socketId s' = Connected_socketId s" "ct_main s' = ct_main s" "ct_pc s i \<noteq> Uncreated"
      "others_kept i (ct_fds s) (ct_fds s')"
    and x: "ct_pc s' = (ct_pc s)(i := x)" "holds i (Connected_socketId s) (ct_fds s') x" by blast
  have "holds j (Connected_socketId s') (ct_fds s') (ct_pc s' j)" if "j < length (Connected_socketId s')" for j
    using holds_other [OF _ e(4)] assms(3) that x e(1) by (cases "j = i") (auto simp: own_clients_def)
  moreover have "ct_main s = AtCreate \<longrightarrow> i \<noteq> length (Connected_socketId s) - 1"
    using createdD(3) [OF assms(2), of i] e(3) by simp
  ultimately show ?thesis
    using assms(3) e(1,2,4) by (auto simp: own_clients_def others_kept_def)
qed

lemma threads_inv:
  assumes "threads_reach s"
  shows "created s \<and> own_clients s \<and> semaphore_count s"
  using assms
proof (induction rule: threads_reach.induct)
  case threads_start
  show ?case
    by (simp add: created_def own_clients_def semaphore_count_def threads_init_def)
next
  case (threads_next s s')
  then show ?case
    using created_step [OF threads_next.hyps(2)] own_step [OF threads_next.hyps(2)]
      semaphore_step [OF threads_next.hyps(2)] by simp
qed

subsection \<open>Properties\<close>

text \<open>The client's descriptor while a thread handles it.\<close>

fun client_fd :: "client_thread \<Rightarrow> nat option" where
  "client_fd (Serving fd) = Some fd"
| "client_fd (Connected fd r) = Some fd"
| "client_fd (Answered fd) = Some fd"
| "client_fd _ = None"

lemma holds_client:
  "holds i slots fds t \<Longrightarrow> client_fd t = Some g \<Longrightarrow> fds g = Some (Client i) \<and> slots ! i = g"
  by (cases t) auto

text \<open>C30. Each thread of this version serves its own client: in every reachable state, whatever the
  interleaving and although descriptor numbers are used again, a thread in its handler has the
  descriptor that was stored for it, which is open and belongs to its connection, its socket to
  the origin server is its own, and no two threads have the same descriptor: the one \<open>close\<close>
  of \<open>thread_fn\<close> never closes the socket of another client.\<close>

theorem v1_thread_owns_client:
  assumes "threads_reach s" "client_fd (ct_pc s i) = Some fd"
  shows "i < length (Connected_socketId s) \<and> Connected_socketId s ! i = fd \<and> ct_fds s fd = Some (Client i) \<and>
    (\<forall>r. ct_pc s i = Connected fd r \<longrightarrow> ct_fds s r = Some (Remote i)) \<and>
    (\<forall>j. client_fd (ct_pc s j) = Some fd \<longrightarrow> j = i)"
proof -
  have own: "j < length (Connected_socketId s) \<and> holds j (Connected_socketId s) (ct_fds s) (ct_pc s j)"
    if "client_fd (ct_pc s j) = Some g" for j g
  proof -
    have "ct_pc s j \<noteq> Uncreated" using that by auto
    then have "j < length (Connected_socketId s)" using created_index(1) threads_inv [OF assms(1)] by blast
    with threads_inv [OF assms(1)] show ?thesis by (simp add: own_clients_def)
  qed
  have fds: "ct_fds s g = Some (Client j) \<and> Connected_socketId s ! j = g"
    if "client_fd (ct_pc s j) = Some g" for j g
    using holds_client own [OF that] that by blast
  have "ct_fds s r = Some (Remote i)" if "ct_pc s i = Connected fd r" for r
    using own [OF assms(2)] that by simp
  moreover have "j = i" if "client_fd (ct_pc s j) = Some fd" for j
    using fds [OF that] fds [OF assms(2)] by simp
  ultimately show ?thesis using own [OF assms(2)] fds [OF assms(2)] by blast
qed

text \<open>C31. The semaphore limits nothing: it starts at \<open>MAX_CLIENTS\<close>, and the arrays of \<open>main\<close> have
  room for as many threads in the whole life of the process, so in every reachable state its
  value and the threads behind it add up to \<open>MAX_CLIENTS\<close>, and a thread that reaches
  \<open>sem_wait\<close> always finds it positive.\<close>

theorem v1_semaphore_never_limits:
  assumes "threads_reach s"
  shows "seamaphore s + (\<Sum>i < MAX_CLIENTS. inside (ct_pc s i)) = MAX_CLIENTS \<and>
    (\<forall>i. ct_pc s i = AtSemWait \<longrightarrow> 0 < seamaphore s)"
proof -
  from threads_inv [OF assms] have inv: "created s" "semaphore_count s" by simp_all
  have "0 < seamaphore s" if "ct_pc s i = AtSemWait" for i
  proof -
    from that created_index(2) [OF inv(1), of i] have i: "i \<in> {..<MAX_CLIENTS}" by simp
    have "(\<Sum>j < MAX_CLIENTS. inside (ct_pc s j)) = (\<Sum>j \<in> {..<MAX_CLIENTS} - {i}. inside (ct_pc s j))"
      using sum.remove [OF finite_lessThan i, of "\<lambda>j. inside (ct_pc s j)"] that by simp
    also have "\<dots> \<le> (\<Sum>j \<in> {..<MAX_CLIENTS} - {i}. 1)"
    proof (rule sum_mono)
      show "inside (ct_pc s j) \<le> 1" for j by (cases "ct_pc s j") auto
    qed
    also have "\<dots> < MAX_CLIENTS" using i by simp
    finally show ?thesis using inv(2) by (simp add: semaphore_count_def)
  qed
  with inv(2) show ?thesis by (simp add: semaphore_count_def)
qed

text \<open>Later states.\<close>

inductive threads_run :: "client_threads \<Rightarrow> client_threads \<Rightarrow> bool" for s where
  run_refl: "threads_run s s"
| run_step: "threads_run s t \<Longrightarrow> threads_step t u \<Longrightarrow> threads_run s u"

lemma run_reaches: "threads_run s t \<Longrightarrow> threads_reach s \<Longrightarrow> threads_reach t"
  by (induction rule: threads_run.induct) (auto intro: threads_reach.intros)

definition leaked :: "client_threads \<Rightarrow> nat \<Rightarrow> nat \<Rightarrow> bool" where
  "leaked s i r = (ct_fds s r = Some (Remote i) \<and> (\<exists>fd. ct_pc s i \<in> {Answered fd, AtSemPost, Finished}))"

lemma leaked_step:
  assumes "threads_step s s'" "leaked s i r" "created s" "own_clients s"
  shows "leaked s' i r"
  using assms(1)
proof (cases rule: threads_step.cases)
  case main_moves
  have "ct_pc s i \<noteq> Uncreated" using assms(2) by (auto simp: leaked_def)
  then have n: "ct_main s = AtCreate \<longrightarrow> i \<noteq> length (Connected_socketId s) - 1"
    using createdD(3) [OF assms(3), of i] by simp
  from main_moves have "ct_pc s' i = ct_pc s i \<and> (ct_fds s r \<noteq> None \<longrightarrow> ct_fds s' r = ct_fds s r)"
    by (cases rule: main_loop.cases) (use n in \<open>simp_all add: least_free_def\<close>)
  with assms(2) show ?thesis by (simp add: leaked_def)
next
  case (client_moves j)
  from client_moves(2) have "ct_pc s j \<noteq> Uncreated" by (cases rule: client_step.cases) auto
  then have h: "holds j (Connected_socketId s) (ct_fds s) (ct_pc s j)"
    using created_index(1) [OF assms(3)] assms(4) by (simp add: own_clients_def)
  show ?thesis
  proof (cases "j = i")
    case True
    from assms(2) have r: "ct_fds s r = Some (Remote i)" by (simp add: leaked_def)
    from client_moves(2) show ?thesis
    proof (cases rule: client_step.cases)
      case (close_client fd)
      then have "fd \<noteq> r" using h r True by auto
      with close_client(1) r True show ?thesis by (simp add: leaked_def)
    qed (use assms(2) True in \<open>simp_all add: leaked_def\<close>)
  next
    case False
    from client_step_effect [OF client_moves(2) h] False have "ct_pc s' i = ct_pc s i"
      "others_kept j (ct_fds s) (ct_fds s')" by auto
    with assms(2) False show ?thesis by (simp add: leaked_def others_kept_def)
  qed
qed

text \<open>A connection to an origin server that fails leaks its descriptor: from then on, in every later
  state of the process, it stays open, although no thread will use it again.\<close>

theorem v1_failed_connect_leaks:
  assumes "threads_reach s" "ct_pc s i = Serving fd" "ct_main s \<in> {AtAccept, AtCreate}" "least_free (ct_fds s) r"
  shows "\<exists>s'. threads_step s s' \<and> ct_pc s' i = Answered fd \<and>
    (\<forall>t. threads_run s' t \<longrightarrow> ct_fds t r = Some (Remote i))"
proof -
  let ?s' = "s\<lparr>ct_pc := (ct_pc s)(i := Answered fd), ct_fds := (ct_fds s)(r \<mapsto> Remote i)\<rparr>"
  have st: "threads_step s ?s'"
    by (rule threads_step.client_moves [OF assms(3) client_step.connect_fails [OF assms(2,4)]])
  note r = threads_reach.threads_next [OF assms(1) st]
  have "leaked t i r" if "threads_run ?s' t" for t
    using that
  proof (induction rule: threads_run.induct)
    case run_refl
    show ?case by (simp add: leaked_def)
  next
    case (run_step t u)
    from threads_inv [OF run_reaches [OF run_step.hyps(1) r]] leaked_step [OF run_step.hyps(2) run_step.IH]
    show ?case by blast
  qed
  with st show ?thesis by (intro exI [of _ ?s']) (simp add: leaked_def)
qed

subsection \<open>A run\<close>

text \<open>One connection, until its thread has passed the semaphore.\<close>

definition first_served :: client_threads where
  "first_served = threads_init\<lparr>ct_pc := (\<lambda>_. Uncreated)(0 := Serving 4), Connected_socketId := [4],
     seamaphore := 399, ct_fds := (ct_fds threads_init)(4 \<mapsto> Client 0)\<rparr>"

lemma first_waits:
  "threads_reach (first_served\<lparr>ct_pc := (\<lambda>_. Uncreated)(0 := AtSemWait), seamaphore := 400\<rparr>)" (is "threads_reach ?s2")
proof -
  let ?s1 = "?s2\<lparr>ct_pc := (\<lambda>_. Uncreated), ct_main := AtCreate\<rparr>"
  have "main_loop threads_init ?s1"
    using main_loop.store_socket [of threads_init 4]
    by (simp add: first_served_def threads_init_def least_free_def MAX_CLIENTS_def)
  note r1 = threads_reach.threads_next [OF threads_reach.threads_start threads_step.main_moves [OF this]]
  have "main_loop ?s1 ?s2" using main_loop.create [of ?s1] by (simp add: first_served_def threads_init_def)
  from threads_reach.threads_next [OF r1 threads_step.main_moves [OF this]] show ?thesis .
qed

lemma first_is_served: "threads_reach first_served"
proof -
  let ?s2 = "first_served\<lparr>ct_pc := (\<lambda>_. Uncreated)(0 := AtSemWait), seamaphore := 400\<rparr>"
  have "client_step ?s2 0 first_served"
    using client_step.wait_semaphore [of ?s2 0] by (simp add: first_served_def threads_init_def)
  then have "threads_step ?s2 first_served"
    by (intro threads_step.client_moves) (simp_all add: first_served_def threads_init_def)
  from threads_reach.threads_next [OF first_waits this] show ?thesis .
qed

theorem v1_thread_owns_client_witness:
  "ct_fds first_served 4 = Some (Client 0) \<and> Connected_socketId first_served ! 0 = 4"
  using v1_thread_owns_client [OF first_is_served, of 0 4] by (simp add: first_served_def)

theorem v1_semaphore_never_limits_witness:
  "\<exists>s. threads_reach s \<and> ct_pc s 0 = AtSemWait \<and> 0 < seamaphore s"
  using v1_semaphore_never_limits [OF first_waits] first_waits by force

theorem v1_failed_connect_leaks_witness:
  "\<exists>s. threads_step first_served s \<and> (\<forall>t. threads_run s t \<longrightarrow> ct_fds t 5 = Some (Remote 0))"
proof -
  have "ct_pc first_served 0 = Serving 4" "ct_main first_served \<in> {AtAccept, AtCreate}"
    "least_free (ct_fds first_served) 5"
    by (auto simp: first_served_def threads_init_def least_free_def)
  from v1_failed_connect_leaks [OF first_is_served this] show ?thesis by blast
qed

end
