(* ===== verification/V1_Queue.thy ===== *)
theory V1_Queue
  imports Prelude
begin

text \<open>
  The queue of client sockets in \<^verbatim>\<open>v1/proxy_server_with_threadpool_and_cache.c\<close>:
  a linked list with a head and a tail pointer, filled by \<open>main\<close> and emptied by the worker
  threads. Each operation runs under \<open>queue_lock\<close>; \<open>dequeue\<close> of an empty queue waits. What
  the clients of a queue rely on is the locale \<open>fifo_queue\<close>.
\<close>

subsection \<open>State and operations\<close>

record client_queue =
  client_socket :: int
  next_node :: "nat option"

record queue =
  qmem :: "nat \<rightharpoonup> client_queue"
  queue_head :: "nat option"
  queue_tail :: "nat option"

definition queue_init :: queue where
  "queue_init = \<lparr>qmem = Map.empty, queue_head = None, queue_tail = None\<rparr>"

definition enqueue :: "queue \<Rightarrow> nat \<Rightarrow> int \<Rightarrow> queue option" where
  "enqueue q new_node sock =
    (let q = q\<lparr>qmem := (qmem q)(new_node \<mapsto> \<lparr>client_socket = sock, next_node = None\<rparr>)\<rparr>
     in case queue_tail q of
       None \<Rightarrow> Some (q\<lparr>queue_head := Some new_node, queue_tail := Some new_node\<rparr>)
     | Some t \<Rightarrow> do {
         n \<leftarrow> qmem q t;
         Some (q\<lparr>qmem := (qmem q)(t \<mapsto> n\<lparr>next_node := Some new_node\<rparr>), queue_tail := Some new_node\<rparr>) })"

text \<open>The result is \<open>None\<close> inside when the call waits for \<open>queue_cond\<close>.\<close>

definition dequeue :: "queue \<Rightarrow> (queue \<times> int option) option" where
  "dequeue q = (case queue_head q of
       None \<Rightarrow> Some (q, None)
     | Some temp \<Rightarrow> do {
         n \<leftarrow> qmem q temp;
         let q = q\<lparr>queue_head := next_node n\<rparr>;
         let q = (if queue_head q = None then q\<lparr>queue_tail := None\<rparr> else q);
         Some (q\<lparr>qmem := (qmem q)(temp := None)\<rparr>, Some (client_socket n)) })"

subsection \<open>What a queue promises\<close>

locale fifo_queue =
  fixes enq :: "'q \<Rightarrow> nat \<Rightarrow> 'v \<Rightarrow> 'q option"
    and deq :: "'q \<Rightarrow> ('q \<times> 'v option) option"
    and contents :: "'q \<Rightarrow> 'v list"
    and used :: "'q \<Rightarrow> nat set"
    and inv :: "'q \<Rightarrow> bool"
  assumes enq_law: "inv q \<Longrightarrow> a \<notin> used q \<Longrightarrow> \<exists>q'. enq q a v = Some q' \<and> inv q' \<and>
      contents q' = contents q @ [v] \<and> used q' \<subseteq> insert a (used q)"
    and deq_law: "inv q \<Longrightarrow> \<exists>q' r. deq q = Some (q', r) \<and> inv q' \<and> used q' \<subseteq> used q \<and>
      (case r of None \<Rightarrow> contents q = [] \<and> q' = q | Some v \<Rightarrow> contents q = v # contents q')"
begin

text \<open>Any sequence of arrivals (\<open>Some v\<close>) and takes (\<open>None\<close>), with a new address for each.\<close>

fun session :: "'q \<Rightarrow> nat \<Rightarrow> 'v option list \<Rightarrow> ('q \<times> 'v list) option" where
  "session q a [] = Some (q, [])"
| "session q a (Some v # os) = do { q \<leftarrow> enq q a v; session q (Suc a) os }"
| "session q a (None # os) = do {
     (q, r) \<leftarrow> deq q;
     (q, out) \<leftarrow> session q (Suc a) os;
     Some (q, (case r of None \<Rightarrow> out | Some v \<Rightarrow> v # out)) }"

lemma session_fifo:
  assumes "inv q" "\<forall>b \<in> used q. b < a"
  shows "\<exists>q' out. session q a os = Some (q', out) \<and> inv q' \<and>
    out @ contents q' = contents q @ List.map_filter id os"
  using assms
proof (induction q a os rule: session.induct)
  case (1 q a)
  then show ?case by (simp add: List.map_filter_def)
next
  case (2 q a v os)
  then have "a \<notin> used q" by auto
  from enq_law [OF "2.prems"(1) this, of v] obtain q1 where
    q1: "enq q a v = Some q1" "inv q1" "contents q1 = contents q @ [v]" "used q1 \<subseteq> insert a (used q)" by blast
  have "\<forall>b \<in> used q1. b < Suc a" using q1(4) "2.prems"(2) less_SucI by blast
  from "2.IH" [OF q1(1,2) this] q1(1,3) show ?case by (auto simp: List.map_filter_def)
next
  case (3 q a os)
  from deq_law [OF "3.prems"(1)] obtain q1 r where
    q1: "deq q = Some (q1, r)" "inv q1" "used q1 \<subseteq> used q"
    "case r of None \<Rightarrow> contents q = [] \<and> q1 = q | Some v \<Rightarrow> contents q = v # contents q1" by blast
  have "\<forall>b \<in> used q1. b < Suc a" using q1(3) "3.prems"(2) less_SucI by blast
  from "3.IH" [OF q1(1) refl q1(2) this] obtain q2 out where
    q2: "session q1 (Suc a) os = Some (q2, out)" "inv q2"
    "out @ contents q2 = contents q1 @ List.map_filter id os" by blast
  then show ?case using q1(1,4) by (cases r) (auto simp: List.map_filter_def)
qed

end

subsection \<open>The linked list is such a queue\<close>

text \<open>The nodes from \<open>p\<close> on, ending in the last one with no successor.\<close>

fun nodes :: "(nat \<rightharpoonup> client_queue) \<Rightarrow> nat option \<Rightarrow> nat list \<Rightarrow> bool" where
  "nodes m p [] = (p = None)"
| "nodes m p (a # as) = (p = Some a \<and> (\<exists>n. m a = Some n \<and> nodes m (next_node n) as))"

definition queue_ok :: "queue \<Rightarrow> nat list \<Rightarrow> bool" where
  "queue_ok q as = (nodes (qmem q) (queue_head q) as \<and> distinct as \<and> dom (qmem q) = set as \<and>
     queue_tail q = (if as = [] then None else Some (last as)))"

text \<open>The list is determined by the pointers.\<close>

lemma nodes_unique: "nodes m p as \<Longrightarrow> nodes m p bs \<Longrightarrow> as = bs"
proof (induction as arbitrary: p bs)
  case Nil
  then show ?case by (cases bs) auto
next
  case (Cons a as)
  then show ?case by (cases bs) auto
qed

definition addresses :: "queue \<Rightarrow> nat list" where
  "addresses q = (THE as. queue_ok q as)"

definition sockets :: "queue \<Rightarrow> int list" where
  "sockets q = map (\<lambda>a. case qmem q a of None \<Rightarrow> 0 | Some n \<Rightarrow> client_socket n) (addresses q)"

definition queue_wf :: "queue \<Rightarrow> bool" where
  "queue_wf q = (\<exists>as. queue_ok q as)"

definition queue_used :: "queue \<Rightarrow> nat set" where
  "queue_used q = dom (qmem q)"

lemma addresses_eq: "queue_ok q as \<Longrightarrow> addresses q = as"
  unfolding addresses_def by (rule the_equality) (auto simp: queue_ok_def intro: nodes_unique)

lemma queue_ok_init: "queue_ok queue_init []"
  by (simp add: queue_ok_def queue_init_def)

lemma nodes_upd: "a \<notin> set as \<Longrightarrow> nodes (m(a := x)) p as = nodes m p as"
  by (induction as arbitrary: p) auto

lemma nodes_snoc:
  "nodes m p (as @ [t]) \<Longrightarrow> distinct (as @ [t]) \<Longrightarrow> b \<notin> set (as @ [t]) \<Longrightarrow> m t = Some n \<Longrightarrow>
   nodes (m(b \<mapsto> \<lparr>client_socket = s, next_node = None\<rparr>, t \<mapsto> n\<lparr>next_node := Some b\<rparr>)) p (as @ [t, b])"
  by (induction as arbitrary: p) auto

lemma enqueue_spec:
  assumes ok: "queue_ok q as" and b: "b \<notin> dom (qmem q)"
  shows "\<exists>q'. enqueue q b s = Some q' \<and> queue_ok q' (as @ [b]) \<and> sockets q' = sockets q @ [s]"
proof (cases as rule: rev_cases)
  case Nil
  let ?q = "q\<lparr>qmem := (qmem q)(b \<mapsto> \<lparr>client_socket = s, next_node = None\<rparr>),
    queue_head := Some b, queue_tail := Some b\<rparr>"
  have "queue_ok ?q [b]" using ok Nil by (auto simp: queue_ok_def)
  then show ?thesis using Nil ok addresses_eq [OF ok] addresses_eq [of ?q "[b]"]
    by (auto simp: enqueue_def queue_ok_def sockets_def)
next
  case (snoc bs t)
  have t: "queue_tail q = Some t" "distinct (bs @ [t])" "b \<notin> set (bs @ [t])"
    "nodes (qmem q) (queue_head q) (bs @ [t])" "dom (qmem q) = set (bs @ [t])"
    using ok b snoc by (auto simp: queue_ok_def)
  then obtain n where n: "qmem q t = Some n" by auto
  have bt: "b \<noteq> t" using t(3) by auto
  let ?m = "(qmem q)(b \<mapsto> \<lparr>client_socket = s, next_node = None\<rparr>, t \<mapsto> n\<lparr>next_node := Some b\<rparr>)"
  let ?q = "q\<lparr>qmem := ?m, queue_tail := Some b\<rparr>"
  have e: "enqueue q b s = Some ?q" using t(1) n bt by (simp add: enqueue_def)
  have ok2: "queue_ok ?q (as @ [b])"
    using nodes_snoc [OF t(4,2,3) n] t(2,3,5) snoc by (auto simp: queue_ok_def)
  have "sockets ?q = sockets q @ [s]"
    unfolding sockets_def addresses_eq [OF ok] addresses_eq [OF ok2]
    using snoc t(2,3) n by auto
  with e ok2 show ?thesis by blast
qed

lemma dequeue_spec:
  assumes ok: "queue_ok q as"
  shows "\<exists>q' r bs. dequeue q = Some (q', r) \<and> queue_ok q' bs \<and> dom (qmem q') \<subseteq> dom (qmem q) \<and>
    (case r of None \<Rightarrow> sockets q = [] \<and> q' = q | Some v \<Rightarrow> sockets q = v # sockets q')"
proof (cases as)
  case Nil
  then show ?thesis using ok addresses_eq [OF ok]
    by (intro exI [of _ q] exI [of _ None] exI [of _ "[]"]) (auto simp: dequeue_def queue_ok_def sockets_def)
next
  case (Cons t bs)
  obtain n where n: "queue_head q = Some t" "qmem q t = Some n" "nodes (qmem q) (next_node n) bs"
    "t \<notin> set bs" "distinct bs" "dom (qmem q) = insert t (set bs)"
    "queue_tail q = Some (last (t # bs))"
    using ok Cons by (auto simp: queue_ok_def)
  let ?q = "q\<lparr>queue_head := next_node n,
    queue_tail := (if next_node n = None then None else queue_tail q), qmem := (qmem q)(t := None)\<rparr>"
  have d: "dequeue q = Some (?q, Some (client_socket n))"
    using n(1,2) by (simp add: dequeue_def Let_def)
  have "next_node n = None \<longleftrightarrow> bs = []" using n(3) by (cases bs) auto
  then have ok2: "queue_ok ?q bs"
    using n by (auto simp: queue_ok_def nodes_upd)
  have "sockets q = client_socket n # sockets ?q"
    unfolding sockets_def addresses_eq [OF ok] addresses_eq [OF ok2]
    using Cons n(2,4) by auto
  with d ok2 show ?thesis by (intro exI [of _ ?q] exI [of _ "Some (client_socket n)"] exI [of _ bs]) auto
qed

interpretation v1q: fifo_queue enqueue dequeue sockets queue_used queue_wf
proof unfold_locales
  fix q :: queue and a :: nat and v :: int
  assume "queue_wf q" and a: "a \<notin> queue_used q"
  then obtain as where ok: "queue_ok q as" by (auto simp: queue_wf_def)
  from enqueue_spec [OF ok, of a v] a obtain q' where
    q': "enqueue q a v = Some q'" "queue_ok q' (as @ [a])" "sockets q' = sockets q @ [v]"
    by (auto simp: queue_used_def)
  moreover have "queue_used q' \<subseteq> insert a (queue_used q)"
    using q'(2) ok by (auto simp: queue_used_def queue_ok_def)
  ultimately show "\<exists>q'. enqueue q a v = Some q' \<and> queue_wf q' \<and> sockets q' = sockets q @ [v] \<and>
      queue_used q' \<subseteq> insert a (queue_used q)" by (auto simp: queue_wf_def)
next
  fix q :: queue
  assume "queue_wf q"
  then obtain as where "queue_ok q as" by (auto simp: queue_wf_def)
  from dequeue_spec [OF this] show "\<exists>q' r. dequeue q = Some (q', r) \<and> queue_wf q' \<and>
      queue_used q' \<subseteq> queue_used q \<and>
      (case r of None \<Rightarrow> sockets q = [] \<and> q' = q | Some v \<Rightarrow> sockets q = v # sockets q')"
    by (auto simp: queue_wf_def queue_used_def)
qed


subsection \<open>Properties\<close>

text \<open>
  A run of the proxy's queue: \<open>main\<close> enqueues a socket, or a worker calls \<open>dequeue\<close>; a call
  that would wait takes nothing. The result is the queue and the sockets that were taken.
\<close>

fun queue_run :: "queue \<Rightarrow> nat \<Rightarrow> int option list \<Rightarrow> (queue \<times> int list) option" where
  "queue_run q a [] = Some (q, [])"
| "queue_run q a (Some sock # os) = do { q \<leftarrow> enqueue q a sock; queue_run q (Suc a) os }"
| "queue_run q a (None # os) = do {
     (q, r) \<leftarrow> dequeue q;
     (q, out) \<leftarrow> queue_run q (Suc a) os;
     Some (q, (case r of None \<Rightarrow> out | Some sock \<Rightarrow> sock # out)) }"

lemma queue_run_session: "queue_run q a os = v1q.session q a os"
  by (induction q a os rule: queue_run.induct) (auto split: bind_splits intro!: Option.bind_cong)

text \<open>The linked-list queue of client sockets is first in, first out: for every sequence of
  \<open>enqueue\<close>s and \<open>dequeue\<close>s on the empty queue no call dereferences a bad pointer, and the
  sockets taken out, followed by those still in the list, are the sockets put in, in order:
  each connection is served exactly once and none overtakes another.\<close>

theorem v1_queue_fifo:
  "\<exists>q out. queue_run queue_init 0 os = Some (q, out) \<and> out @ sockets q = List.map_filter id os"
proof -
  have "queue_wf queue_init" using queue_ok_init by (auto simp: queue_wf_def)
  moreover have "\<forall>b \<in> queue_used queue_init. b < 0" by (simp add: queue_used_def queue_init_def)
  moreover have "sockets queue_init = []"
    using addresses_eq [OF queue_ok_init] by (simp add: sockets_def)
  ultimately show ?thesis using v1q.session_fifo [of queue_init 0 os] by (auto simp: queue_run_session)
qed

end
