(* ===== verification/V1_Pool.thy ===== *)
theory V1_Pool
  imports V1_Queue "HOL-Library.Multiset"
begin

text \<open>
  The threads of \<^verbatim>\<open>v1/proxy_server_with_threadpool_and_cache.c\<close>: \<open>main\<close>, which creates
  n workers, accepts connections and enqueues their sockets, and \<open>worker_thread\<close>, which
  dequeues a socket, handles it and starts again. The state is the linked list of
  \<open>V1_Queue\<close>, \<open>queue_lock\<close>, and where each thread is; what happens between two points where
  another thread can interfere is one step. \<open>accepted\<close>, \<open>taken\<close> and \<open>handled\<close> are ghost fields
  that record the history.
\<close>

subsection \<open>States and steps\<close>

text \<open>
  A worker is not created yet, about to lock the mutex in \<open>dequeue\<close>, at the test of the while
  loop, blocked in \<open>pthread_cond_wait\<close>, about to lock the mutex again in it, or in
  \<open>handle_client\<close>. The main thread is in the loop of \<open>pthread_create\<close>, at \<open>accept\<close>, before
  the lock in \<open>enqueue\<close>, before the signal, before the unlock, or has called \<open>exit\<close>.
\<close>

datatype worker_at = Unborn | Dequeueing | Testing | Asleep | Woken | Handling int

datatype main_at = Creating nat | Accepting | Enqueueing int | Signalling | Unlocking | Exited

datatype thread = Main | Worker nat

record v1_pool =
  vq :: queue
  queue_lock :: "thread option"
  worker_pc :: "nat \<Rightarrow> worker_at"
  main_pc :: main_at
  accepted :: "int list"
  taken :: "int list"
  handled :: "int list"

definition v1_pool_init :: v1_pool where
  "v1_pool_init = \<lparr>vq = queue_init, queue_lock = None, worker_pc = (\<lambda>_. Unborn), main_pc = Creating 0,
     accepted = [], taken = [], handled = []\<rparr>"

text \<open>
  \<open>worker_thread\<close> with \<open>dequeue\<close> spread out. Blocking on the condition gives the mutex back in
  the same step. \<open>client_done\<close> is the return of \<open>handle_client\<close>, which may never come: the call can
  wait for a client or an origin server for ever, and for the mutex of the cache (\<open>V1_Site\<close>).
\<close>

inductive worker_thread :: "nat \<Rightarrow> v1_pool \<Rightarrow> nat \<Rightarrow> v1_pool \<Rightarrow> bool" for n where
  lock_queue: "w < n \<Longrightarrow> worker_pc s w = Dequeueing \<or> worker_pc s w = Woken \<Longrightarrow> queue_lock s = None \<Longrightarrow>
    worker_thread n s w (s\<lparr>worker_pc := (worker_pc s)(w := Testing), queue_lock := Some (Worker w)\<rparr>)"
| wait_cond: "w < n \<Longrightarrow> worker_pc s w = Testing \<Longrightarrow> dequeue (vq s) = Some (q, None) \<Longrightarrow>
    worker_thread n s w (s\<lparr>worker_pc := (worker_pc s)(w := Asleep), queue_lock := None\<rparr>)"
| take_socket: "w < n \<Longrightarrow> worker_pc s w = Testing \<Longrightarrow> dequeue (vq s) = Some (q, Some sock) \<Longrightarrow>
    worker_thread n s w (s\<lparr>worker_pc := (worker_pc s)(w := Handling sock), queue_lock := None, vq := q,
      taken := taken s @ [sock]\<rparr>)"
| client_done: "w < n \<Longrightarrow> worker_pc s w = Handling sock \<Longrightarrow>
    worker_thread n s w (s\<lparr>worker_pc := (worker_pc s)(w := Dequeueing), handled := handled s @ [sock]\<rparr>)"

text \<open>
  \<open>main\<close> behind \<open>listen\<close>, with \<open>enqueue\<close> spread out; \<open>a\<close> is the address of the new node. A
  failing \<open>accept\<close> ends the process.
\<close>

inductive main_thread :: "nat \<Rightarrow> v1_pool \<Rightarrow> v1_pool \<Rightarrow> bool" for n where
  create_thread: "main_pc s = Creating i \<Longrightarrow> i < n \<Longrightarrow>
    main_thread n s (s\<lparr>worker_pc := (worker_pc s)(i := Dequeueing), main_pc := Creating (i + 1)\<rparr>)"
| all_created: "main_pc s = Creating i \<Longrightarrow> \<not> i < n \<Longrightarrow> main_thread n s (s\<lparr>main_pc := Accepting\<rparr>)"
| accept_client: "main_pc s = Accepting \<Longrightarrow> 0 \<le> sock \<Longrightarrow>
    main_thread n s (s\<lparr>main_pc := Enqueueing sock, accepted := accepted s @ [sock]\<rparr>)"
| accept_fails: "main_pc s = Accepting \<Longrightarrow> main_thread n s (s\<lparr>main_pc := Exited\<rparr>)"
| link_node: "main_pc s = Enqueueing sock \<Longrightarrow> queue_lock s = None \<Longrightarrow> qmem (vq s) a = None \<Longrightarrow>
    enqueue (vq s) a sock = Some q \<Longrightarrow>
    main_thread n s (s\<lparr>main_pc := Signalling, queue_lock := Some Main, vq := q\<rparr>)"
| signal_one: "main_pc s = Signalling \<Longrightarrow> w < n \<Longrightarrow> worker_pc s w = Asleep \<Longrightarrow>
    main_thread n s (s\<lparr>main_pc := Unlocking, worker_pc := (worker_pc s)(w := Woken)\<rparr>)"
| signal_nobody: "main_pc s = Signalling \<Longrightarrow> \<forall>w < n. worker_pc s w \<noteq> Asleep \<Longrightarrow>
    main_thread n s (s\<lparr>main_pc := Unlocking\<rparr>)"
| unlock_queue: "main_pc s = Unlocking \<Longrightarrow>
    main_thread n s (s\<lparr>main_pc := Accepting, queue_lock := None\<rparr>)"

text \<open>A step of the process: of a thread while it runs, or a spurious wake-up (no thread's own).\<close>

inductive v1_step :: "nat \<Rightarrow> v1_pool \<Rightarrow> thread option \<Rightarrow> v1_pool \<Rightarrow> bool" for n where
  main: "main_thread n s s' \<Longrightarrow> v1_step n s (Some Main) s'"
| worker: "main_pc s \<noteq> Exited \<Longrightarrow> worker_thread n s w s' \<Longrightarrow> v1_step n s (Some (Worker w)) s'"
| spurious: "main_pc s \<noteq> Exited \<Longrightarrow> w < n \<Longrightarrow> worker_pc s w = Asleep \<Longrightarrow>
    v1_step n s None (s\<lparr>worker_pc := (worker_pc s)(w := Woken)\<rparr>)"

inductive v1_reach :: "nat \<Rightarrow> v1_pool \<Rightarrow> bool" for n where
  init: "v1_reach n v1_pool_init"
| step: "v1_reach n s \<Longrightarrow> v1_step n s t s' \<Longrightarrow> v1_reach n s'"

inductive_cases worker_threadE: "worker_thread n s w s'"
inductive_cases main_threadE: "main_thread n s s'"
inductive_cases v1_stepE: "v1_step n s t s'"

subsection \<open>The invariant\<close>

definition v1_locked :: "nat \<Rightarrow> v1_pool \<Rightarrow> bool" where
  "v1_locked n s = ((\<forall>w < n. worker_pc s w = Testing \<longleftrightarrow> queue_lock s = Some (Worker w)) \<and>
     (\<forall>w. queue_lock s = Some (Worker w) \<longrightarrow> w < n) \<and>
     (main_pc s \<in> {Signalling, Unlocking} \<longleftrightarrow> queue_lock s = Some Main))"

text \<open>What a thread has in its hands.\<close>

fun in_hand :: "worker_at \<Rightarrow> int multiset" where
  "in_hand (Handling sock) = {#sock#}"
| "in_hand _ = {#}"

fun pending :: "main_at \<Rightarrow> int list" where
  "pending (Enqueueing sock) = [sock]"
| "pending _ = []"

definition in_hands :: "nat \<Rightarrow> (nat \<Rightarrow> worker_at) \<Rightarrow> int multiset" where
  "in_hands n f = (\<Sum>w < n. in_hand (f w))"

definition v1_history :: "nat \<Rightarrow> v1_pool \<Rightarrow> bool" where
  "v1_history n s = (queue_wf (vq s) \<and> accepted s = taken s @ sockets (vq s) @ pending (main_pc s) \<and>
     mset (taken s) = mset (handled s) + in_hands n (worker_pc s))"

text \<open>The workers on their way to the queue.\<close>

fun coming :: "worker_at \<Rightarrow> nat" where
  "coming Dequeueing = 1"
| "coming Testing = 1"
| "coming Woken = 1"
| "coming _ = 0"

definition ncoming :: "nat \<Rightarrow> (nat \<Rightarrow> worker_at) \<Rightarrow> nat" where
  "ncoming n f = (\<Sum>w < n. coming (f w))"

text \<open>
  As long as some worker sleeps, every queued socket has a worker coming for it; the one that
  is just linked may still lack its signal.
\<close>

definition v1_attended :: "nat \<Rightarrow> v1_pool \<Rightarrow> bool" where
  "v1_attended n s = ((\<exists>w < n. worker_pc s w = Asleep) \<longrightarrow>
     length (sockets (vq s)) \<le> ncoming n (worker_pc s) + (if main_pc s = Signalling then 1 else 0))"

definition v1_born :: "nat \<Rightarrow> v1_pool \<Rightarrow> bool" where
  "v1_born n s = (case main_pc s of
     Creating i \<Rightarrow> i \<le> n \<and> accepted s = [] \<and> (\<forall>w < n. worker_pc s w = Unborn \<longleftrightarrow> i \<le> w)
   | _ \<Rightarrow> \<forall>w < n. worker_pc s w \<noteq> Unborn)"

subsection \<open>Properties of the steps\<close>

lemma in_hands_upd:
  "w < n \<Longrightarrow> in_hands n (f(w := x)) + in_hand (f w) = in_hands n f + in_hand x"
  unfolding in_hands_def by (rule sum_fun_upd)

lemma ncoming_upd: "w < n \<Longrightarrow> ncoming n (f(w := x)) + coming (f w) = ncoming n f + coming x"
  unfolding ncoming_def by (rule sum_fun_upd)

lemma in_hands_same: "w < n \<Longrightarrow> in_hand (f w) = {#} \<Longrightarrow> in_hand x = {#} \<Longrightarrow> in_hands n (f(w := x)) = in_hands n f"
  using in_hands_upd [of w n f x] by simp

lemma v1_born_step:
  assumes "v1_step n s t s'" "v1_born n s"
  shows "v1_born n s'"
  using assms(1)
proof (cases rule: v1_step.cases)
  case main
  from this(2) show ?thesis
    by (cases rule: main_thread.cases) (use assms(2) in \<open>auto simp: v1_born_def\<close>)
next
  case (worker w)
  from this(3) show ?thesis
    by (cases rule: worker_thread.cases) (use assms(2) in \<open>auto simp: v1_born_def split: main_at.splits\<close>)
qed (use assms(2) in \<open>auto simp: v1_born_def split: main_at.splits\<close>)

lemma v1_locked_step:
  assumes "v1_step n s t s'" "v1_locked n s" "v1_born n s"
  shows "v1_locked n s'"
  using assms(1)
proof (elim v1_stepE main_threadE worker_threadE)
  fix i assume s': "s' = s\<lparr>worker_pc := (worker_pc s)(i := Dequeueing), main_pc := Creating (Suc i)\<rparr>"
    "main_pc s = Creating i" "i < n"
  then have "worker_pc s i \<noteq> Testing" using assms(3) by (auto simp: v1_born_def)
  then show "v1_locked n s'" using assms(2) s' by (auto simp: v1_locked_def)
qed (use assms(2) in \<open>auto simp: v1_locked_def\<close>)

text \<open>What the locale of queues says of the two operations.\<close>

lemma enqueue_sockets:
  assumes "queue_wf q" "qmem q a = None" "enqueue q a sock = Some q'"
  shows "queue_wf q'" "sockets q' = sockets q @ [sock]"
  using v1q.enq_law [of q a sock] assms by (auto simp: queue_used_def)

lemma dequeue_sockets:
  assumes "queue_wf q" "dequeue q = Some (q', r)"
  shows "queue_wf q'" "case r of None \<Rightarrow> sockets q = [] \<and> q' = q | Some sock \<Rightarrow> sockets q = sock # sockets q'"
  using v1q.deq_law [of q] assms by auto

lemma v1_history_step:
  assumes "v1_step n s t s'" "v1_history n s" "v1_born n s"
  shows "v1_history n s'"
  using assms(1)
proof (elim v1_stepE main_threadE worker_threadE)
  fix sock a q assume s': "s' = s\<lparr>main_pc := Signalling, queue_lock := Some Main, vq := q\<rparr>"
    "main_pc s = Enqueueing sock" "qmem (vq s) a = None" "enqueue (vq s) a sock = Some q"
  then show "v1_history n s'"
    using assms(2) enqueue_sockets [of "vq s" a sock q] by (simp add: v1_history_def)
next
  fix w q sock assume s': "s' = s\<lparr>worker_pc := (worker_pc s)(w := Handling sock), queue_lock := None, vq := q,
      taken := taken s @ [sock]\<rparr>" "w < n" "worker_pc s w = Testing" "dequeue (vq s) = Some (q, Some sock)"
  then show "v1_history n s'"
    using assms(2) dequeue_sockets [of "vq s" q "Some sock"] in_hands_upd [of w n "worker_pc s" "Handling sock"]
    by (simp add: v1_history_def)
next
  fix w sock assume s': "s' = s\<lparr>worker_pc := (worker_pc s)(w := Dequeueing), handled := handled s @ [sock]\<rparr>"
    "w < n" "worker_pc s w = Handling sock"
  then show "v1_history n s'"
    using assms(2) in_hands_upd [of w n "worker_pc s" Dequeueing] by (simp add: v1_history_def)
qed (use assms(2,3) in \<open>auto simp: v1_history_def v1_born_def in_hands_same\<close>)


lemma v1_attended_step:
  assumes "v1_step n s t s'" "v1_attended n s" "v1_history n s" "v1_born n s"
  shows "v1_attended n s'"
  using assms(1)
proof (elim v1_stepE main_threadE worker_threadE)
  fix sock a q assume "s' = s\<lparr>main_pc := Signalling, queue_lock := Some Main, vq := q\<rparr>"
    "main_pc s = Enqueueing sock" "qmem (vq s) a = None" "enqueue (vq s) a sock = Some q"
  then show "v1_attended n s'"
    using assms(2,3) enqueue_sockets [of "vq s" a sock q] by (simp add: v1_attended_def v1_history_def)
next
  fix w q sock assume s': "s' = s\<lparr>worker_pc := (worker_pc s)(w := Handling sock), queue_lock := None, vq := q,
      taken := taken s @ [sock]\<rparr>" "w < n" "worker_pc s w = Testing" "dequeue (vq s) = Some (q, Some sock)"
  have "length (sockets (vq s)) = length (sockets q) + 1"
    using assms(3) dequeue_sockets [OF _ s'(4)] by (simp add: v1_history_def)
  moreover have "ncoming n (worker_pc s) = ncoming n ((worker_pc s)(w := Handling sock)) + 1"
    using ncoming_upd [OF s'(2), of "worker_pc s" "Handling sock"] s'(3) by simp
  ultimately show "v1_attended n s'"
    using assms(2) s'(1,3) by (auto simp: v1_attended_def split: if_splits)
next
  fix w q assume "s' = s\<lparr>worker_pc := (worker_pc s)(w := Asleep), queue_lock := None\<rparr>"
    "dequeue (vq s) = Some (q, None)"
  then show "v1_attended n s'"
    using assms(3) dequeue_sockets [of "vq s" q None] by (simp add: v1_attended_def v1_history_def)
next
  fix i assume s': "s' = s\<lparr>worker_pc := (worker_pc s)(i := Dequeueing), main_pc := Creating (Suc i)\<rparr>"
    "main_pc s = Creating i" "i < n"
  then have "accepted s = []" using assms(4) by (simp add: v1_born_def)
  then show "v1_attended n s'" using assms(3) s'(1) by (simp add: v1_attended_def v1_history_def)
next
  fix w assume s': "w < n" "worker_pc s w = Asleep" "main_pc s = Signalling"
    "s' = s\<lparr>main_pc := Unlocking, worker_pc := (worker_pc s)(w := Woken)\<rparr>"
  then show "v1_attended n s'"
    using assms(2) ncoming_upd [OF s'(1), of "worker_pc s" Woken] by (auto simp: v1_attended_def)
next
  fix w assume s': "w < n" "worker_pc s w = Asleep" "s' = s\<lparr>worker_pc := (worker_pc s)(w := Woken)\<rparr>"
  then show "v1_attended n s'"
    using assms(2) ncoming_upd [OF s'(1), of "worker_pc s" Woken] by (auto simp: v1_attended_def)
next
  fix w sock assume s': "s' = s\<lparr>worker_pc := (worker_pc s)(w := Dequeueing), handled := handled s @ [sock]\<rparr>"
    "w < n" "worker_pc s w = Handling sock"
  then show "v1_attended n s'"
    using assms(2) ncoming_upd [OF s'(2), of "worker_pc s" Dequeueing]
    by (auto simp: v1_attended_def split: if_splits)
next
  fix w assume s': "s' = s\<lparr>worker_pc := (worker_pc s)(w := Testing), queue_lock := Some (Worker w)\<rparr>"
    "w < n" "worker_pc s w = Dequeueing \<or> worker_pc s w = Woken"
  then have "ncoming n ((worker_pc s)(w := Testing)) = ncoming n (worker_pc s)"
    using ncoming_upd [OF s'(2), of "worker_pc s" Testing] by auto
  then show "v1_attended n s'" using assms(2) s'(1) by (auto simp: v1_attended_def split: if_splits)
qed (use assms(2) in \<open>auto simp: v1_attended_def\<close>)

definition v1_inv :: "nat \<Rightarrow> v1_pool \<Rightarrow> bool" where
  "v1_inv n s = (v1_locked n s \<and> v1_history n s \<and> v1_attended n s \<and> v1_born n s)"

lemma v1_init_inv: "v1_inv n v1_pool_init"
  using queue_ok_init addresses_eq [OF queue_ok_init]
  by (auto simp: v1_inv_def v1_locked_def v1_history_def v1_attended_def v1_born_def v1_pool_init_def
      queue_wf_def sockets_def in_hands_def)

lemma v1_reach_inv: "v1_reach n s \<Longrightarrow> v1_inv n s"
proof (induction rule: v1_reach.induct)
  case init
  show ?case by (rule v1_init_inv)
next
  case (step s t s')
  then show ?case
    using v1_locked_step [OF step.hyps(2)] v1_history_step [OF step.hyps(2)]
      v1_attended_step [OF step.hyps(2)] v1_born_step [OF step.hyps(2)] by (simp add: v1_inv_def)
qed

subsection \<open>Properties\<close>

lemma pool_queue_defined:
  assumes "queue_wf q"
  shows "\<exists>q' r. dequeue q = Some (q', r)" "qmem q a = None \<Longrightarrow> \<exists>q'. enqueue q a sock = Some q'"
  using v1q.deq_law [OF assms] v1q.enq_law [OF assms, of a sock] by (auto simp: queue_used_def)

text \<open>C23. The pool of the first version handles every accepted connection exactly once and in order:
  in every reachable state the accepted sockets are the ones taken by workers, then the linked
  list, then the one in the hands of \<open>main\<close>; each taken one is finished or in the hands of
  exactly one worker; and neither \<open>enqueue\<close> nor \<open>dequeue\<close> can meet a bad pointer, whatever the
  interleaving.\<close>

theorem v1_pool_exactly_once:
  assumes "v1_reach n s"
  shows "accepted s = taken s @ sockets (vq s) @ pending (main_pc s) \<and>
    mset (taken s) = mset (handled s) + in_hands n (worker_pc s) \<and>
    (\<exists>q r. dequeue (vq s) = Some (q, r)) \<and>
    (\<forall>a sock. qmem (vq s) a = None \<longrightarrow> (\<exists>q. enqueue (vq s) a sock = Some q))"
  using v1_reach_inv [OF assms] pool_queue_defined [of "vq s"] by (auto simp: v1_inv_def v1_history_def)

lemma coming_exists: "0 < ncoming n f \<Longrightarrow> \<exists>w < n. f w \<in> {Dequeueing, Testing, Woken}"
proof (rule ccontr)
  assume "0 < ncoming n f" and no: "\<not> (\<exists>w < n. f w \<in> {Dequeueing, Testing, Woken})"
  have "coming (f w) = 0" if "w < n" for w using no that by (cases "f w") auto
  then have "ncoming n f = 0" by (simp add: ncoming_def)
  with \<open>0 < ncoming n f\<close> show False by simp
qed

text \<open>While nobody has the mutex and a socket is queued, a worker can take a step of the pool's own
  program, unless all are inside \<open>handle_client\<close>.\<close>

definition all_handling :: "nat \<Rightarrow> v1_pool \<Rightarrow> bool" where
  "all_handling n s = (\<forall>w < n. \<exists>sock. worker_pc s w = Handling sock)"

lemma free_worker_moves:
  assumes "v1_inv n s" "queue_lock s = None" "main_pc s \<noteq> Exited" "sockets (vq s) \<noteq> []" "\<not> all_handling n s"
  shows "\<exists>w s'. v1_step n s (Some (Worker w)) s' \<and> (\<forall>sock. worker_pc s w \<noteq> Handling sock)"
proof -
  have inv: "v1_locked n s" "v1_history n s" "v1_attended n s" "v1_born n s"
    using assms(1) by (simp_all add: v1_inv_def)
  from assms(5) obtain v where v: "v < n" "\<forall>sock. worker_pc s v \<noteq> Handling sock" by (auto simp: all_handling_def)
  have "accepted s \<noteq> []" using inv(2) assms(4) by (auto simp: v1_history_def)
  then have born: "worker_pc s v \<noteq> Unborn"
    using inv(4) v(1) by (auto simp: v1_born_def split: main_at.splits)
  have nt: "worker_pc s w \<noteq> Testing" if "w < n" for w using inv(1) assms(2) that by (auto simp: v1_locked_def)
  have ns: "main_pc s \<noteq> Signalling" using inv(1) assms(2) by (auto simp: v1_locked_def)
  have "\<exists>w < n. worker_pc s w = Dequeueing \<or> worker_pc s w = Woken"
  proof (cases "worker_pc s v")
    case Asleep
    then have "length (sockets (vq s)) \<le> ncoming n (worker_pc s)"
      using inv(3) ns v(1) by (auto simp: v1_attended_def split: if_splits)
    moreover have "0 < length (sockets (vq s))" using assms(4) by simp
    ultimately have "0 < ncoming n (worker_pc s)" by linarith
    from coming_exists [OF this] nt show ?thesis by auto
  qed (use born nt [OF v(1)] v in auto)
  then obtain w where w: "w < n" "worker_pc s w = Dequeueing \<or> worker_pc s w = Woken" by blast
  from v1_step.worker [OF assms(3) worker_thread.lock_queue [OF w assms(2)]] w(2) show ?thesis by auto
qed

text \<open>C24. No connection is forgotten by the pool: whenever some worker sleeps, at least as many workers
  are on their way to the queue as sockets are in it (one fewer while \<open>main\<close> is about to signal);
  and while the process runs and a socket is queued, some thread can take a step in \<open>enqueue\<close> or
  \<open>dequeue\<close>, without a new connection, a failing \<open>accept\<close>, a spurious wake-up or the return of a
  handler, unless all n workers are inside \<open>handle_client\<close>: the queue cannot deadlock and loses no
  wake-up.\<close>

theorem v1_pool_wakes_enough:
  assumes "v1_reach n s"
  shows "((\<exists>w < n. worker_pc s w = Asleep) \<longrightarrow>
      length (sockets (vq s)) \<le> ncoming n (worker_pc s) + (if main_pc s = Signalling then 1 else 0)) \<and>
    (main_pc s \<noteq> Exited \<and> sockets (vq s) \<noteq> [] \<longrightarrow> all_handling n s \<or>
      (\<exists>t s'. v1_step n s (Some t) s' \<and> (t = Main \<longrightarrow> main_pc s \<in> {Signalling, Unlocking}) \<and>
        (\<forall>w sock. t = Worker w \<longrightarrow> worker_pc s w \<noteq> Handling sock)))"
proof -
  have inv: "v1_inv n s" by (rule v1_reach_inv [OF assms])
  then have i: "v1_locked n s" "v1_history n s" "v1_attended n s" by (simp_all add: v1_inv_def)
  have "\<exists>t s'. v1_step n s (Some t) s' \<and> (t = Main \<longrightarrow> main_pc s \<in> {Signalling, Unlocking}) \<and>
      (\<forall>w sock. t = Worker w \<longrightarrow> worker_pc s w \<noteq> Handling sock)"
    if p: "main_pc s \<noteq> Exited" "sockets (vq s) \<noteq> []" "\<not> all_handling n s"
  proof (cases "queue_lock s")
    case None
    from free_worker_moves [OF inv None p] show ?thesis by blast
  next
    case (Some t)
    show ?thesis
    proof (cases t)
      case Main
      then have m: "main_pc s = Signalling \<or> main_pc s = Unlocking" using i(1) Some by (auto simp: v1_locked_def)
      then have "\<exists>s'. main_thread n s s'"
        using main_thread.signal_one main_thread.signal_nobody main_thread.unlock_queue by metis
      with m show ?thesis using v1_step.main by blast
    next
      case (Worker w)
      then have w: "w < n" "worker_pc s w = Testing" using i(1) Some by (auto simp: v1_locked_def)
      from pool_queue_defined(1) [of "vq s"] i(2) obtain q r where "dequeue (vq s) = Some (q, r)"
        by (auto simp: v1_history_def)
      then have "\<exists>s'. worker_thread n s w s'"
        using worker_thread.wait_cond [OF w] worker_thread.take_socket [OF w] by (cases r) blast+
      then obtain s' where "v1_step n s (Some (Worker w)) s'" using p(1) v1_step.worker by blast
      with w(2) show ?thesis by fastforce
    qed
  qed
  with i(3) show ?thesis by (auto simp: v1_attended_def)
qed

text \<open>One failing \<open>accept\<close> ends the process whatever it is doing: from every reachable state in which
  \<open>main\<close> waits for a connection it can exit, and then no thread makes another step, so queued
  and half-served clients are dropped.\<close>

theorem v1_accept_failure_stops_all:
  assumes "v1_reach n s" "main_pc s = Accepting"
  shows "\<exists>s'. v1_step n s (Some Main) s' \<and> taken s' = taken s \<and> handled s' = handled s \<and> vq s' = vq s \<and>
    (\<forall>t s''. \<not> v1_step n s' t s'')"
proof -
  have "v1_step n s (Some Main) (s\<lparr>main_pc := Exited\<rparr>)"
    by (rule v1_step.main [OF main_thread.accept_fails [OF assms(2)]])
  moreover have "\<not> v1_step n (s\<lparr>main_pc := Exited\<rparr>) t s''" for t s''
    by (auto elim!: v1_stepE main_threadE)
  ultimately show ?thesis by (intro exI [of _ "s\<lparr>main_pc := Exited\<rparr>"]) simp
qed

subsection \<open>A run\<close>

text \<open>One worker: it sleeps, a connection arrives, and the signal wakes it.\<close>

definition v1_run :: "worker_at \<Rightarrow> main_at \<Rightarrow> v1_pool" where
  "v1_run w m = v1_pool_init\<lparr>worker_pc := (worker_pc v1_pool_init)(0 := w), main_pc := m\<rparr>"

lemma reach_main: "v1_reach n s \<Longrightarrow> main_thread n s s' \<Longrightarrow> v1_reach n s'"
  by (rule v1_reach.step [OF _ v1_step.main])

lemma reach_worker_thread: "v1_reach n s \<Longrightarrow> main_pc s \<noteq> Exited \<Longrightarrow> worker_thread n s w s' \<Longrightarrow> v1_reach n s'"
  by (rule v1_reach.step [OF _ v1_step.worker])

lemma reach_accepting: "v1_reach 1 (v1_run Dequeueing Accepting)"
proof -
  have "main_thread 1 v1_pool_init (v1_run Dequeueing (Creating 1))"
    using main_thread.create_thread [of v1_pool_init 0 1] by (simp add: v1_run_def v1_pool_init_def)
  note r = reach_main [OF v1_reach.init this]
  have "main_thread 1 (v1_run Dequeueing (Creating 1)) (v1_run Dequeueing Accepting)"
    using main_thread.all_created [of "v1_run Dequeueing (Creating 1)" 1 1] by (simp add: v1_run_def)
  from reach_main [OF r this] show ?thesis .
qed

lemma reach_asleep: "v1_reach 1 (v1_run Asleep Accepting)"
proof -
  let ?s = "(v1_run Testing Accepting)\<lparr>queue_lock := Some (Worker 0)\<rparr>"
  have a: "main_pc (v1_run w Accepting) \<noteq> Exited" for w by (simp add: v1_run_def)
  have "worker_thread 1 (v1_run Dequeueing Accepting) 0 ?s"
    using worker_thread.lock_queue [of 0 1 "v1_run Dequeueing Accepting"] by (simp add: v1_run_def v1_pool_init_def)
  note r = reach_worker_thread [OF reach_accepting a this]
  have "worker_thread 1 ?s 0 (v1_run Asleep Accepting)"
    using worker_thread.wait_cond [of 0 1 ?s queue_init]
    by (simp add: v1_run_def v1_pool_init_def dequeue_def queue_init_def)
  from reach_worker_thread [OF r _ this] show ?thesis by (simp add: v1_run_def)
qed

definition v1_queued :: "worker_at \<Rightarrow> main_at \<Rightarrow> v1_pool" where
  "v1_queued w m = (v1_run w m)\<lparr>queue_lock := Some Main, accepted := [5],
     vq := \<lparr>qmem = [0 \<mapsto> \<lparr>client_socket = 5, next_node = None\<rparr>], queue_head = Some 0, queue_tail = Some 0\<rparr>\<rparr>"

lemma reach_woken: "v1_reach 1 (v1_queued Woken Unlocking)"
proof -
  let ?s = "(v1_run Asleep (Enqueueing 5))\<lparr>accepted := [5]\<rparr>"
  have "main_thread 1 (v1_run Asleep Accepting) ?s"
    using main_thread.accept_client [of "v1_run Asleep Accepting" 5 1] by (simp add: v1_run_def v1_pool_init_def)
  note r = reach_main [OF reach_asleep this]
  have "main_thread 1 ?s (v1_queued Asleep Signalling)"
    using main_thread.link_node [of ?s 5 0 "vq (v1_queued Asleep Signalling)" 1]
    by (simp add: v1_run_def v1_queued_def v1_pool_init_def enqueue_def queue_init_def)
  note r = reach_main [OF r this]
  have "main_thread 1 (v1_queued Asleep Signalling) (v1_queued Woken Unlocking)"
    using main_thread.signal_one [of "v1_queued Asleep Signalling" 0 1]
    by (simp add: v1_run_def v1_queued_def v1_pool_init_def)
  from reach_main [OF r this] show ?thesis .
qed

lemma queued_sockets: "sockets (vq (v1_queued w m)) = [5]"
proof -
  have "queue_ok (vq (v1_queued w m)) [0]" by (simp add: queue_ok_def v1_queued_def v1_run_def)
  from addresses_eq [OF this] show ?thesis by (simp add: sockets_def v1_queued_def v1_run_def)
qed

theorem v1_pool_exactly_once_witness:
  "accepted (v1_queued Woken Unlocking) = [] @ sockets (vq (v1_queued Woken Unlocking)) \<and>
   (\<exists>q r. dequeue (vq (v1_queued Woken Unlocking)) = Some (q, r))"
  using v1_pool_exactly_once [OF reach_woken] by (simp add: v1_queued_def v1_run_def v1_pool_init_def)

theorem v1_pool_wakes_enough_witness:
  "\<exists>s w s'. v1_reach 1 s \<and> sockets (vq s) = [5] \<and> queue_lock s = None \<and> v1_step 1 s (Some (Worker w)) s'"
proof -
  let ?q = "v1_queued Woken Unlocking"
  let ?s = "?q\<lparr>main_pc := Accepting, queue_lock := None\<rparr>"
  have "main_thread 1 ?q ?s" by (rule main_thread.unlock_queue) (simp add: v1_queued_def v1_run_def)
  note r = reach_main [OF reach_woken this]
  have s: "sockets (vq ?s) = [5]" "queue_lock ?s = None" "main_pc ?s = Accepting"
    using queued_sockets [of Woken Unlocking] by simp_all
  have "\<not> all_handling 1 ?s" by (simp add: all_handling_def v1_queued_def v1_run_def)
  with v1_pool_wakes_enough [OF r, THEN conjunct2] s obtain t s' where
    t: "v1_step 1 ?s (Some t) s'" "t = Main \<longrightarrow> main_pc ?s \<in> {Signalling, Unlocking}" by auto
  with s(3) obtain w where "t = Worker w" by (cases t) auto
  with t(1) r s show ?thesis by blast
qed

theorem v1_accept_failure_stops_all_witness:
  "\<exists>s'. v1_step 1 (v1_run Asleep Accepting) (Some Main) s' \<and> (\<forall>t s''. \<not> v1_step 1 s' t s'')"
proof -
  have "main_pc (v1_run Asleep Accepting) = Accepting" by (simp add: v1_run_def)
  from v1_accept_failure_stops_all [OF reach_asleep this] show ?thesis by blast
qed

end
