(* ===== verification/V1_Mains.thy ===== *)
theory V1_Mains
  imports Server_Main V1_Threads V1_Pool
begin

text \<open>
  The \<open>main\<close> functions under \<^verbatim>\<open>v1/\<close> up to the point where connections are accepted, and
  what they go on with: the pool of threads (\<open>V1_Pool\<close>), one thread per connection
  (\<open>V1_Threads\<close>), the pool of \<^verbatim>\<open>proxy2.cpp\<close>, the semaphore workers of
  \<^verbatim>\<open>proxy3.cpp\<close>. The port is read with \<open>atoi\<close>, which has no error; the system calls are
  those of \<open>Server_Main\<close>, and their trace is part of the result.
\<close>

subsection \<open>Reading the port\<close>

text \<open>As in the C library the programs are built with: \<open>strtol\<close>, converted to \<open>int\<close>.\<close>

definition atoi :: "string \<Rightarrow> int" where
  "atoi s = to_int32 (strtol10 s)"

subsection \<open>The versions in C\<close>

text \<open>An exit code, or the listening socket, whose number goes on to the accept loop.\<close>

definition v1_listen :: "network \<Rightarrow> string list \<Rightarrow> (int + int) \<times> syscall list" where
  "v1_listen net argv =
    (if length argv \<noteq> 2 then (Inl 1, [])
     else let port_number = atoi (argv ! 1);
              proxy_socketId = socket_result net;
              p = nat (port_number mod 65536) in
       if proxy_socketId < 0 then (Inl 1, [Socket])
       else if \<not> bind_ok net p then (Inl 1, [Socket, Setsockopt proxy_socketId, Bind proxy_socketId p])
       else if \<not> listen_ok net
         then (Inl 1, [Socket, Setsockopt proxy_socketId, Bind proxy_socketId p, Listen proxy_socketId MAX_CLIENTS])
       else (Inr proxy_socketId,
         [Socket, Setsockopt proxy_socketId, Bind proxy_socketId p, Listen proxy_socketId MAX_CLIENTS]))"

text \<open>\<^verbatim>\<open>proxy_server_with_threadpool_and_cache.c\<close> then creates its 200 threads.\<close>

definition THREAD_POOL_SIZE :: nat where
  "THREAD_POOL_SIZE = 200"

definition main_threadpool :: "network \<Rightarrow> string list \<Rightarrow> int + int \<times> nat \<times> v1_pool" where
  "main_threadpool net argv = map_sum id (\<lambda>sock. (sock, THREAD_POOL_SIZE, v1_pool_init)) (fst (v1_listen net argv))"

text \<open>\<^verbatim>\<open>proxy_server_with_cache.c\<close> starts with no thread and the semaphore at its maximum.\<close>

definition main_with_cache :: "network \<Rightarrow> string list \<Rightarrow> int + int \<times> client_threads" where
  "main_with_cache net argv = map_sum id (\<lambda>sock. (sock, threads_init)) (fst (v1_listen net argv))"

subsection \<open>The versions in C++\<close>

text \<open>More arguments are ignored, and so is the result of \<open>listen\<close>.\<close>

definition proxy_listen :: "nat \<Rightarrow> network \<Rightarrow> string list \<Rightarrow> (int + int) \<times> syscall list" where
  "proxy_listen backlog net argv =
    (if length argv < 2 then (Inl 1, [])
     else let sockfd = socket_result net;
              portno = atoi (argv ! 1);
              p = nat (portno mod 65536) in
       if sockfd < 0 then (Inl 1, [Socket])
       else if \<not> bind_ok net p then (Inl 1, [Socket, Bind sockfd p])
       else (Inr sockfd, [Socket, Bind sockfd p, Listen sockfd backlog]))"

text \<open>
  \<^verbatim>\<open>proxy2.cpp\<close>: a pool of 250 threads, and a task for each call of \<open>accept\<close> that works;
  \<open>accept\<close> gives the results of the first calls on a descriptor.
\<close>

definition proxy2_main :: "network \<Rightarrow> (int \<Rightarrow> int list) \<Rightarrow> string list \<Rightarrow> int + int \<times> nat \<times> int list" where
  "proxy2_main net accept argv =
    map_sum id (\<lambda>sockfd. (sockfd, 250, accept_loop (accept sockfd))) (fst (proxy_listen 1000 net argv))"

text \<open>\<^verbatim>\<open>proxy3.cpp\<close>: 400 workers behind a semaphore that starts at 400.\<close>

definition MAX_THREADS :: nat where
  "MAX_THREADS = 400"

definition proxy3_main :: "network \<Rightarrow> string list \<Rightarrow> int + int \<times> sem_server" where
  "proxy3_main net argv = map_sum id (\<lambda>sockfd. (sockfd, sem_init MAX_THREADS)) (fst (proxy_listen 100 net argv))"

text \<open>
  The connection to an origin server in the versions in C++: every failure ends the process
  with exit code 1.
\<close>

definition createserverSocket :: "network \<Rightarrow> string \<Rightarrow> string \<Rightarrow> (int + int) \<times> syscall list" where
  "createserverSocket net pcAddress pcPort = (
     let iSockfd = socket_result net in
     if \<not> resolves net pcAddress pcPort then (Inl 1, [Getaddrinfo pcAddress pcPort])
     else if iSockfd < 0 then (Inl 1, [Getaddrinfo pcAddress pcPort, Socket])
     else if \<not> connects net then (Inl 1, [Getaddrinfo pcAddress pcPort, Socket, Connect iSockfd])
     else (Inr iSockfd, [Getaddrinfo pcAddress pcPort, Socket, Connect iSockfd, Freeaddrinfo]))"

text \<open>It agrees with \<open>createServerSocket_to\<close> when that gives a descriptor.\<close>

lemma createserverSocket_exits:
  "fst (createserverSocket net h po) =
    (let fd = fst (createServerSocket_to net h po) in if fd < 0 then Inl 1 else Inr fd)"
  by (simp add: createserverSocket_def createServerSocket_to_def Let_def)

text \<open>
  In the versions in C, where \<open>known\<close> says whether \<open>gethostbyname\<close> finds a host: -1 on every
  failure, and no path closes the socket or frees anything.
\<close>

definition connectRemoteServer_calls :: "network \<Rightarrow> (string \<Rightarrow> bool) \<Rightarrow> string \<Rightarrow> int \<times> syscall list" where
  "connectRemoteServer_calls net known host_addr = (
     let remoteSocket = socket_result net in
     if remoteSocket < 0 then (-1, [Socket])
     else if \<not> known host_addr then (-1, [Socket, Gethostbyname host_addr])
     else if \<not> connects net then (-1, [Socket, Gethostbyname host_addr, Connect remoteSocket])
     else (remoteSocket, [Socket, Gethostbyname host_addr, Connect remoteSocket]))"

text \<open>
  The descriptors that are open after a list of calls, when \<open>socket\<close> gives fd. Between them and
  its result: \<open>createServerSocket_to\<close> leaves a descriptor open exactly when it returns it,
  \<open>connectRemoteServer\<close> also when it fails.
\<close>

fun left_open :: "int \<Rightarrow> int set \<Rightarrow> syscall list \<Rightarrow> int set" where
  "left_open fd opened [] = opened"
| "left_open fd opened (Socket # cs) = left_open fd (if fd < 0 then opened else insert fd opened) cs"
| "left_open fd opened (CloseFd x # cs) = left_open fd (opened - {x}) cs"
| "left_open fd opened (c # cs) = left_open fd opened cs"

lemma connect_leaves_open:
  assumes "connectRemoteServer_calls net known host = (r, calls)" "0 \<le> socket_result net"
  shows "left_open (socket_result net) {} calls = {socket_result net}" "r = -1 \<or> r = socket_result net"
    "r \<noteq> -1 \<longleftrightarrow> known host \<and> connects net"
  using assms by (auto simp: connectRemoteServer_calls_def Let_def split: if_splits)

lemma createServerSocket_to_closes:
  assumes "createServerSocket_to net h po = (r, calls)"
  shows "left_open (socket_result net) {} calls = (if r < 0 then {} else {r})"
  using assms by (auto simp: createServerSocket_to_def Let_def split: if_splits)

subsection \<open>The workers of \<open>proxy3.cpp\<close>\<close>

text \<open>
  \<open>worker_thread\<close>, on the states of \<open>Semaphore_Server\<close>. An \<open>accept\<close> that a signal interrupted is
  told apart from other failures, with the same effect.
\<close>

inductive worker_thread3 :: "nat \<Rightarrow> sem_server \<Rightarrow> nat \<Rightarrow> sem_server \<Rightarrow> bool" for n where
  while_running: "w < n \<Longrightarrow> sm_pc s w = LoopTest \<Longrightarrow> sm_running s \<Longrightarrow>
    worker_thread3 n s w (s\<lparr>sm_pc := (sm_pc s)(w := SemWait)\<rparr>)"
| loop_ends: "w < n \<Longrightarrow> sm_pc s w = LoopTest \<Longrightarrow> \<not> sm_running s \<Longrightarrow>
    worker_thread3 n s w (s\<lparr>sm_pc := (sm_pc s)(w := Returned)\<rparr>)"
| wait3: "w < n \<Longrightarrow> sm_pc s w = SemWait \<Longrightarrow> 0 < sm_value s \<Longrightarrow>
    worker_thread3 n s w (s\<lparr>sm_pc := (sm_pc s)(w := Acquired), sm_value := sm_value s - 1\<rparr>)"
| still_running: "w < n \<Longrightarrow> sm_pc s w = Acquired \<Longrightarrow> sm_running s \<Longrightarrow>
    worker_thread3 n s w (s\<lparr>sm_pc := (sm_pc s)(w := Semaphore_Server.Accepting)\<rparr>)"
| not_running: "w < n \<Longrightarrow> sm_pc s w = Acquired \<Longrightarrow> \<not> sm_running s \<Longrightarrow>
    worker_thread3 n s w (s\<lparr>sm_pc := (sm_pc s)(w := PostBreak)\<rparr>)"
| accepted3: "w < n \<Longrightarrow> sm_pc s w = Semaphore_Server.Accepting \<Longrightarrow> least_free (sm_fds s) fd \<Longrightarrow>
    worker_thread3 n s w (s\<lparr>sm_pc := (sm_pc s)(w := Semaphore_Server.Handling fd (sm_accepted s)),
      sm_fds := (sm_fds s)(fd \<mapsto> Some (sm_accepted s)), sm_accepted := sm_accepted s + 1\<rparr>)"
| interrupted: "w < n \<Longrightarrow> sm_pc s w = Semaphore_Server.Accepting \<Longrightarrow>
    worker_thread3 n s w (s\<lparr>sm_pc := (sm_pc s)(w := Posting)\<rparr>)"
| failed: "w < n \<Longrightarrow> sm_pc s w = Semaphore_Server.Accepting \<Longrightarrow>
    worker_thread3 n s w (s\<lparr>sm_pc := (sm_pc s)(w := Posting)\<rparr>)"
| datafromclient_closes: "w < n \<Longrightarrow> sm_pc s w = Semaphore_Server.Handling fd c \<Longrightarrow>
    worker_thread3 n s w (s\<lparr>sm_pc := (sm_pc s)(w := Handled fd), sm_fds := (sm_fds s)(fd := None)\<rparr>)"
| closes_again: "w < n \<Longrightarrow> sm_pc s w = Handled fd \<Longrightarrow>
    worker_thread3 n s w (s\<lparr>sm_pc := (sm_pc s)(w := Posting), sm_fds := (sm_fds s)(fd := None)\<rparr>)"
| post3: "w < n \<Longrightarrow> sm_pc s w = Posting \<Longrightarrow>
    worker_thread3 n s w (s\<lparr>sm_pc := (sm_pc s)(w := LoopTest), sm_value := sm_value s + 1\<rparr>)"
| post_and_break: "w < n \<Longrightarrow> sm_pc s w = PostBreak \<Longrightarrow>
    worker_thread3 n s w (s\<lparr>sm_pc := (sm_pc s)(w := Returned), sm_value := sm_value s + 1\<rparr>)"

lemma worker_thread3_is_worker: "worker_thread3 n s w s' \<longleftrightarrow> sem_worker_step n s w s'"
proof
  assume "worker_thread3 n s w s'"
  then show "sem_worker_step n s w s'"
  proof (cases rule: worker_thread3.cases)
    case while_running
    then show ?thesis using sem_worker_step.loop [of w n s] by simp
  next
    case loop_ends
    then show ?thesis using sem_worker_step.loop [of w n s] by simp
  next
    case still_running
    then show ?thesis using sem_worker_step.check [of w n s] by simp
  next
    case not_running
    then show ?thesis using sem_worker_step.check [of w n s] by simp
  qed (auto intro: sem_worker_step.intros [simplified])
next
  assume "sem_worker_step n s w s'"
  then show "worker_thread3 n s w s'"
    by (cases rule: sem_worker_step.cases; cases "sm_running s") (auto intro: worker_thread3.intros [simplified])
qed

text \<open>The runs of the process: steps of the workers, and signals.\<close>

inductive proxy3_reach :: "sem_server \<Rightarrow> sem_server \<Rightarrow> bool" for s0 where
  proxy3_start: "proxy3_reach s0 s0"
| proxy3_step: "proxy3_reach s0 s \<Longrightarrow> worker_thread3 MAX_THREADS s w s' \<Longrightarrow> proxy3_reach s0 s'"
| proxy3_signal: "proxy3_reach s0 s \<Longrightarrow> proxy3_reach s0 (sigint_handler s)"

lemma proxy3_reach_sem: "proxy3_reach (sem_init MAX_THREADS) s \<Longrightarrow> sem_reach MAX_THREADS s"
  by (induction rule: proxy3_reach.induct) (auto simp: worker_thread3_is_worker intro: sem_reach.intros)

inductive proxy3_run :: "sem_server \<Rightarrow> nat \<Rightarrow> sem_server \<Rightarrow> bool" where
  proxy3_done: "proxy3_run s 0 s"
| proxy3_more: "proxy3_run s k s' \<Longrightarrow> worker_thread3 MAX_THREADS s' w s'' \<Longrightarrow> proxy3_run s (Suc k) s''"

lemma proxy3_run_sem: "proxy3_run s k s' \<Longrightarrow> sem_run MAX_THREADS s k s'"
  by (induction rule: proxy3_run.induct) (auto simp: worker_thread3_is_worker intro: sem_run.intros)

subsection \<open>Numbers as \<open>atoi\<close> reads them\<close>

lemma hd_decimal:
  "decimal z = (if z < 0 then CHR ''-'' # decimal_nat (nat (- z)) else decimal_nat (nat z))"
  by (simp add: decimal_def)

lemma takeWhile_digits: "list_all isdigit ds \<Longrightarrow> takeWhile isdigit ds = ds"
  by (simp add: takeWhile_eq_all_conv list_all_iff)

lemma strtol10_decimal:
  assumes "-9223372036854775808 \<le> z" "z \<le> 9223372036854775807"
  shows "strtol10 (decimal z) = z"
proof -
  define ds where "ds = decimal_nat (nat \<bar>z\<bar>)"
  from decimal_nat_spec [of "nat \<bar>z\<bar>"] have ds: "list_all isdigit ds" "ds \<noteq> []" "digits_value ds = \<bar>z\<bar>"
    by (simp_all add: ds_def)
  obtain d t where dt: "ds = d # t" using ds(2) by (cases ds) auto
  with ds(1) have "isdigit d" by simp
  note nd = isdigit_not [OF this]
  have v: "foldl (\<lambda>a c. 10 * a + (of_char c - 48)) 0 ds = \<bar>z\<bar>" using ds(3) by (simp add: digits_value_def)
  show ?thesis
  proof (cases "z < 0")
    case True
    then have "decimal z = CHR ''-'' # ds" by (simp add: decimal_def ds_def)
    then show ?thesis using True assms v
      by (simp add: strtol10_def Let_def isspace_def takeWhile_digits [OF ds(1)])
  next
    case False
    then have "decimal z = ds" by (simp add: decimal_def ds_def)
    moreover have "dropWhile isspace ds = ds" "take 1 ds \<noteq> ''-''" "take 1 ds \<noteq> ''+''" using nd by (simp_all add: dt)
    ultimately show ?thesis using False assms v
      by (simp add: strtol10_def Let_def takeWhile_digits [OF ds(1)])
  qed
qed

lemma atoi_decimal: "-2147483648 \<le> z \<Longrightarrow> z \<le> 2147483647 \<Longrightarrow> atoi (decimal z) = z"
  by (simp add: atoi_def strtol10_decimal to_int32_id)

subsection \<open>Properties\<close>

text \<open>How every version gets its listening socket: for the decimal text of any \<open>int\<close> z as its
  port argument each of them binds port z modulo 65536 (so 65616 is port 80, and -1 is 65535);
  the versions in C and \<open>createServerSocket\<close> listen exactly when \<open>bind\<close> and \<open>listen\<close>
  succeed and report everything else, while \<^verbatim>\<open>proxy2.cpp\<close> and \<^verbatim>\<open>proxy3.cpp\<close> go on to
  accept also when \<open>listen\<close> has failed.\<close>

theorem versions_listen:
  assumes "-2147483648 \<le> z" "z \<le> 2147483647" "0 \<le> socket_result net"
  defines "sock \<equiv> socket_result net" and "p \<equiv> nat (z mod 65536)"
  shows "main_threadpool net [prog, decimal z] =
      (if bind_ok net p \<and> listen_ok net then Inr (sock, 200, v1_pool_init) else Inl 1) \<and>
    main_with_cache net [prog, decimal z] =
      (if bind_ok net p \<and> listen_ok net then Inr (sock, threads_init) else Inl 1) \<and>
    proxy2_main net accept (prog # decimal z # rest) =
      (if bind_ok net p then Inr (sock, 250, accept_loop (accept sock)) else Inl 1) \<and>
    proxy3_main net (prog # decimal z # rest) = (if bind_ok net p then Inr (sock, sem_init 400) else Inl 1) \<and>
    fst (createServerSocket net z) = (if bind_ok net p \<and> listen_ok net then sock else -1) \<and>
    (\<forall>tr \<in> {snd (v1_listen net [prog, decimal z]), snd (proxy_listen b net (prog # decimal z # rest)),
        snd (createServerSocket net z)}. Bind sock p \<in> set tr) \<and>
    stoi (decimal z) = Inr z"
proof -
  have a: "atoi (decimal z) = z" by (rule atoi_decimal [OF assms(1,2)])
  have "stoi (decimal z) = Inr z" using stoi_decimal [of "[]" "[]" z] assms(1,2) by simp
  then show ?thesis using assms(3)
    by (simp add: v1_listen_def proxy_listen_def createServerSocket_def main_threadpool_def main_with_cache_def
        proxy2_main_def proxy3_main_def THREAD_POOL_SIZE_def MAX_THREADS_def a sock_def p_def Let_def)
qed

theorem versions_listen_witness:
  "main_with_cache \<lparr>socket_result = 5, bind_ok = (\<lambda>p. p = 80), listen_ok = True, resolves = (\<lambda>_ _. True),
     connects = True\<rparr> [''proxy'', decimal 65616] = Inr (5, threads_init)"
  using versions_listen [of 65616 "\<lparr>socket_result = 5, bind_ok = (\<lambda>p. p = 80), listen_ok = True,
    resolves = (\<lambda>_ _. True), connects = True\<rparr>"] by simp

text \<open>A port argument without a number: the versions under \<^verbatim>\<open>v1/\<close> bind port 0, so that the system
  chooses one, where the current \<open>main\<close> reports an invalid argument.\<close>

lemma no_number_port:
  assumes "s = [] \<or> \<not> isspace (hd s) \<and> \<not> isdigit (hd s) \<and> hd s \<noteq> CHR ''-'' \<and> hd s \<noteq> CHR ''+''"
  shows "atoi s = 0 \<and> stoi s = Inl (invalid_argument ''stoi'')"
proof (cases s)
  case Nil
  then show ?thesis by (simp add: atoi_def strtol10_def stoi_def to_int32_def)
next
  case (Cons c t)
  with assms show ?thesis by (simp add: atoi_def strtol10_def stoi_def to_int32_def Let_def)
qed

text \<open>\<^verbatim>\<open>proxy3.cpp\<close> from its command line to the end: when \<open>main\<close> gets past its set-up its 400
  workers start behind a semaphore of 400, no worker ever blocks at it, and whenever SIGINT
  arrives they take at most 2000 more steps; when none is left all have returned, so that
  \<open>main\<close> returns from joining them.\<close>

theorem proxy3_serves_and_stops:
  assumes "proxy3_main net argv = Inr (sockfd, s0)" "proxy3_reach s0 s" "proxy3_run (sigint_handler s) k s'"
  shows "sockfd = socket_result net \<and> (\<forall>w < MAX_THREADS. sm_pc s w = SemWait \<longrightarrow> 0 < sm_value s) \<and>
    k \<le> 2000 \<and> ((\<forall>w s''. \<not> worker_thread3 MAX_THREADS s' w s'') \<longrightarrow> start_returns MAX_THREADS s')"
proof -
  from assms(1) have m: "fst (proxy_listen 100 net argv) = Inr sockfd" "s0 = sem_init MAX_THREADS"
    by (cases "fst (proxy_listen 100 net argv)"; simp add: proxy3_main_def)+
  have r: "sem_reach MAX_THREADS s" using proxy3_reach_sem assms(2) m(2) by simp
  have "0 < sm_value s" if "w < MAX_THREADS" "sm_pc s w = SemWait" for w
    using sem_balance [OF r] holders_less [OF that(1), of "sm_pc s"] that(2) by simp
  moreover have "sockfd = socket_result net"
    using m(1) by (auto simp: proxy_listen_def Let_def split: if_splits)
  ultimately show ?thesis
    using stops_after_signal [OF r proxy3_run_sem [OF assms(3)]]
    by (simp add: worker_thread3_is_worker MAX_THREADS_def)
qed

theorem proxy3_serves_and_stops_witness:
  "\<exists>s0 s'. proxy3_main \<lparr>socket_result = 3, bind_ok = (\<lambda>_. True), listen_ok = True, resolves = (\<lambda>_ _. True),
      connects = True\<rparr> [''proxy'', ''80''] = Inr (3, s0) \<and> proxy3_run (sigint_handler s0) 1 s' \<and>
    sm_pc s' 7 = Returned \<and> (\<forall>w < MAX_THREADS. sm_pc s0 w = SemWait \<longrightarrow> 0 < sm_value s0) \<and> 1 \<le> (2000::nat)"
proof -
  let ?net = "\<lparr>socket_result = 3, bind_ok = (\<lambda>_. True), listen_ok = True, resolves = (\<lambda>_ _. True), connects = True\<rparr>"
    and ?s = "sigint_handler (sem_init MAX_THREADS)"
  have m: "proxy3_main ?net [''proxy'', ''80''] = Inr (3, sem_init MAX_THREADS)"
    by (simp add: proxy3_main_def proxy_listen_def Let_def)
  have "worker_thread3 MAX_THREADS ?s 7 (?s\<lparr>sm_pc := (sm_pc ?s)(7 := Returned)\<rparr>)"
    by (rule loop_ends) (simp_all add: sigint_handler_def sem_init_def MAX_THREADS_def)
  then have r: "proxy3_run ?s 1 (?s\<lparr>sm_pc := (sm_pc ?s)(7 := Returned)\<rparr>)"
    using proxy3_more [OF proxy3_done] by simp
  have p: "\<forall>w < MAX_THREADS. sm_pc (sem_init MAX_THREADS) w = SemWait \<longrightarrow> 0 < sm_value (sem_init MAX_THREADS)"
    "1 \<le> (2000::nat)"
    using proxy3_serves_and_stops [OF m proxy3_start r] by blast+
  have "sm_pc (?s\<lparr>sm_pc := (sm_pc ?s)(7 := Returned)\<rparr>) 7 = Returned" by simp
  with m r p show ?thesis by blast
qed

end
