(* ===== verification/V1_Proxy2.thy ===== *)
theory V1_Proxy2
  imports Client_Handler
begin

text \<open>
  The single-file versions \<^verbatim>\<open>v1/proxy2.cpp\<close> and \<^verbatim>\<open>v1/proxy3.cpp\<close>: the functions that
  differ from the ones of \<^verbatim>\<open>ProxyUtils.cpp\<close> and the handler. Their \<open>LRUCache\<close> is the one
  of \<^verbatim>\<open>LRUCache.cpp\<close>, the receive loop of \<open>datafromclient\<close> is \<open>receive_loop\<close>; the thread pool
  of the first and the semaphore workers of the second are those of \<open>Thread_Pool\<close> and
  \<open>Semaphore_Server\<close>. The outcome \<open>Terminated 1\<close> is a call of \<open>exit(1)\<close>.
\<close>

subsection \<open>The request to the origin server\<close>

text \<open>The second component \<open>None\<close>: no memory for the headers, the process exits with 1.\<close>

definition convert_Request_to_string ::
  "(nat \<Rightarrow> bool) \<Rightarrow> ParsedRequest \<Rightarrow> (ParsedRequest \<times> string option) option" where
  "convert_Request_to_string realloc_ok req = do {
     ho \<leftarrow> deref req (pr_host req);
     (req, _) \<leftarrow> ParsedHeader_set realloc_ok req ''Host'' ho;
     (req, _) \<leftarrow> ParsedHeader_set realloc_ok req ''Connection'' ''close'';
     len \<leftarrow> ParsedHeader_headersLen req;
     if to_int32 (int len) < -1 then Some (req, None)
     else if to_int32 (int len) = -1 then None else do {
     let iHeadersLen = nat (to_int32 (int len));
     let headersBuf = replicate (iHeadersLen + 1) (CHR ''?'');
     (headersBuf, _) \<leftarrow> ParsedRequest_unparse_headers req headersBuf 0 iHeadersLen;
     headersBuf \<leftarrow> store headersBuf iHeadersLen NUL;
     me \<leftarrow> deref req (pr_method req);
     pa \<leftarrow> deref req (pr_path req);
     ve \<leftarrow> deref req (pr_version req);
     let request_size = length me + length pa + length ve + iHeadersLen + 4;
     if 2147483647 \<le> request_size then None else do {
     let serverReq = replicate (request_size + 1) (CHR ''?'');
     serverReq \<leftarrow> store serverReq 0 NUL;
     serverReq \<leftarrow> strcpy serverReq me;
     serverReq \<leftarrow> strcat serverReq '' '';
     serverReq \<leftarrow> strcat serverReq pa;
     serverReq \<leftarrow> strcat serverReq '' '';
     serverReq \<leftarrow> strcat serverReq ve;
     serverReq \<leftarrow> strcat serverReq CRLF;
     hs \<leftarrow> str_at headersBuf 0;
     serverReq \<leftarrow> strcat serverReq hs;
     s \<leftarrow> str_at serverReq 0;
     Some (req, Some s) } } }"

subsection \<open>Writing and relaying\<close>

text \<open>
  Before the send loop the buffer is appended to a \<open>string\<close> as a C string, which reads up to
  the first NUL in the block. \<open>SendFailed\<close>: the process exits with 1.
\<close>

definition writeToserverSocket :: "block \<Rightarrow> int \<Rightarrow> int list \<Rightarrow> (block \<times> send_end \<times> int list) option" where
  "writeToserverSocket buff len ks = do { _ \<leftarrow> str_at buff 0; writeToSocket buff len 0 ks }"

definition writeToclientSocket :: "block \<Rightarrow> int \<Rightarrow> int list \<Rightarrow> (block \<times> send_end \<times> int list) option" where
  "writeToclientSocket buff len ks = do { _ \<leftarrow> str_at buff 0; writeToSocket buff len 0 ks }"

text \<open>\<open>writeToClient\<close>; \<open>buf\<close> is the array on the stack, whose first contents are arbitrary.\<close>

function relay2 ::
  "recv_event list \<Rightarrow> block \<Rightarrow> string \<Rightarrow> block \<Rightarrow> int list \<Rightarrow> (string \<times> block \<times> outcome) option" where
  "relay2 es buf response out ks = (case recv 5000 es of
       None \<Rightarrow> Some (response, out, Hanging)
     | Some (Closed, es) \<Rightarrow> Some (response, out, Served)
     | Some (RecvError, es) \<Rightarrow> Some (response, out, Terminated 1)
     | Some (Data d, es) \<Rightarrow> do {
         buf \<leftarrow> memcpy buf 0 d;
         (o1, e, ks) \<leftarrow> writeToclientSocket buf (int (length d)) ks;
         case e of
           Sent \<Rightarrow> relay2 es (replicate (length buf) NUL) (response @ d) (out @ o1) ks
         | SendFailed \<Rightarrow> Some (response @ d, out @ o1, Terminated 1)
         | SendBlocked \<Rightarrow> Some (response @ d, out @ o1, Hanging) })"
  by pat_completeness auto
termination
  by (relation "measure (\<lambda>(es, _). weight es)") (auto dest: recv_weight)

declare relay2.simps [simp del]

definition writeToClient2 ::
  "LRUCache \<Rightarrow> connection \<Rightarrow> block \<Rightarrow> string \<Rightarrow> (LRUCache \<times> block \<times> outcome) option" where
  "writeToClient2 c conn buf url = do {
     (response, out, e) \<leftarrow> relay2 (server_in conn) buf [] [] (client_ks conn);
     if e = Served then do {
       c \<leftarrow> LRUCache_add c (fresh conn) (clock conn) url response (to_int32 (int (length response)));
       Some (c, out, e) }
     else Some (c, out, e) }"

subsection \<open>The handler\<close>

text \<open>Cache hit and cache miss.\<close>

definition answer_hit :: "LRUCache \<Rightarrow> connection \<Rightarrow> nat \<Rightarrow> (LRUCache \<times> reply) option" where
  "answer_hit c conn p = do {
     e \<leftarrow> heap c p;
     (out, f, _) \<leftarrow> writeToclientSocket (ce_data e) (ce_len e) (client_ks conn);
     Some (c, \<lparr>to_client = out, to_server = None,
       ended = (case f of Sent \<Rightarrow> Served | SendFailed \<Rightarrow> Terminated 1 | SendBlocked \<Rightarrow> Hanging)\<rparr>) }"

definition answer_miss ::
  "LRUCache \<Rightarrow> connection \<Rightarrow> block \<Rightarrow> string \<Rightarrow> string \<Rightarrow> string \<Rightarrow> string \<Rightarrow> (LRUCache \<times> reply) option" where
  "answer_miss c conn stack url ho po browser_req =
    (if \<not> connect_ok conn ho po
     then Some (c, \<lparr>to_client = [], to_server = None, ended = Terminated 1\<rparr>)
     else do {
       (sent, f, _) \<leftarrow> writeToserverSocket (browser_req @ [NUL]) (int (length browser_req)) (server_ks conn);
       case f of
         SendFailed \<Rightarrow> Some (c, \<lparr>to_client = [], to_server = Some (ho, po, sent), ended = Terminated 1\<rparr>)
       | SendBlocked \<Rightarrow> Some (c, \<lparr>to_client = [], to_server = Some (ho, po, sent), ended = Hanging\<rparr>)
       | Sent \<Rightarrow> do {
           (c, out, e) \<leftarrow> writeToClient2 c conn stack url;
           Some (c, \<lparr>to_client = out, to_server = Some (ho, po, sent), ended = e\<rparr>) } })"

definition serve_message2 ::
  "bool \<Rightarrow> (nat \<Rightarrow> bool) \<Rightarrow> ParsedRequest \<Rightarrow> block \<Rightarrow> LRUCache \<Rightarrow> connection \<Rightarrow> string \<Rightarrow>
   (LRUCache \<times> reply) option" where
  "serve_message2 einval realloc_ok junk stack c conn msg = do {
     (req, r) \<leftarrow> ParsedRequest_parse einval realloc_ok (ParsedRequest_create junk) msg (int (length msg));
     if r < 0 then Some (c, \<lparr>to_client = [], to_server = None, ended = Terminated 0\<rparr>)
     else do {
       let req = (if pr_port req = Null then req\<lparr>pr_port := Own ''80''\<rparr> else req);
       (req, br) \<leftarrow> convert_Request_to_string realloc_ok req;
       case br of
         None \<Rightarrow> Some (c, \<lparr>to_client = [], to_server = None, ended = Terminated 1\<rparr>)
       | Some browser_req \<Rightarrow> do {
           ho \<leftarrow> deref req (pr_host req);
           pa \<leftarrow> deref req (pr_path req);
           po \<leftarrow> deref req (pr_port req);
           let url = ho @ pa;
           (c, hit) \<leftarrow> LRUCache_find c url (clock conn);
           (c, rep) \<leftarrow> (case hit of
               Some p \<Rightarrow> answer_hit c conn p
             | None \<Rightarrow> answer_miss c conn stack url ho po browser_req);
           if ended rep \<noteq> Served then Some (c, rep) else do {
             _ \<leftarrow> ParsedRequest_destroy req;
             Some (c, rep) } } } }"

definition datafromclient2 ::
  "bool \<Rightarrow> (nat \<Rightarrow> bool) \<Rightarrow> ParsedRequest \<Rightarrow> block \<Rightarrow> LRUCache \<Rightarrow> connection \<Rightarrow> (LRUCache \<times> reply) option" where
  "datafromclient2 einval realloc_ok junk stack c conn = do {
     rv \<leftarrow> receive_loop realloc_ok BUF_SIZE 0 [] (client_in conn);
     case rv of
       ExitWith n \<Rightarrow> Some (c, \<lparr>to_client = [], to_server = None, ended = Terminated n\<rparr>)
     | WaitForClient \<Rightarrow> Some (c, \<lparr>to_client = [], to_server = None, ended = Hanging\<rparr>)
     | Message msg \<Rightarrow> serve_message2 einval realloc_ok junk stack c conn msg }"

text \<open>\<^verbatim>\<open>proxy3.cpp\<close> has the same handler with no result; its worker closes the descriptor a
  second time, as in \<open>Semaphore_Server\<close>.\<close>

definition datafromclient3 ::
  "bool \<Rightarrow> (nat \<Rightarrow> bool) \<Rightarrow> ParsedRequest \<Rightarrow> block \<Rightarrow> LRUCache \<Rightarrow> connection \<Rightarrow> (LRUCache \<times> reply) option" where
  "datafromclient3 einval realloc_ok junk stack c conn = do {
     rv \<leftarrow> receive_loop realloc_ok BUF_SIZE 0 [] (client_in conn);
     case rv of
       ExitWith n \<Rightarrow> Some (c, \<lparr>to_client = [], to_server = None, ended = Terminated n\<rparr>)
     | WaitForClient \<Rightarrow> Some (c, \<lparr>to_client = [], to_server = None, ended = Hanging\<rparr>)
     | Message request_message \<Rightarrow> serve_message2 einval realloc_ok junk stack c conn request_message }"

lemma datafromclient3_same: "datafromclient3 = datafromclient2"
  by (intro ext) (simp add: datafromclient3_def datafromclient2_def)

subsection \<open>The two ways to build the request text\<close>

lemma terminated_bound:
  assumes "store m p NUL = Some m'" "str_at m' 0 = Some s"
  shows "length s \<le> p"
proof (rule ccontr)
  from assms(1) have p: "p < length m'" "m' ! p = NUL" by (auto simp: store_def split: if_splits)
  from assms(2) obtain post where m: "m' = s @ NUL # post" and n: "NUL \<notin> set s"
    by (auto simp: str_at_def cstr_Some_iff)
  assume "\<not> length s \<le> p"
  then have "s ! p = NUL" "p < length s" using p(2) by (auto simp: m nth_append)
  with n show False by (metis nth_mem)
qed

abbreviation request_text :: "string \<Rightarrow> string \<Rightarrow> string \<Rightarrow> string \<Rightarrow> string" where
  "request_text me pa ve hs \<equiv> me @ '' '' @ pa @ '' '' @ ve @ CRLF @ hs"

text \<open>The sequence of \<open>strcat\<close>s stays in its block and builds the text \<open>snprintf\<close> prints.\<close>

lemma strcat_sequence:
  assumes nul: "NUL \<notin> set me" "NUL \<notin> set pa" "NUL \<notin> set ve" "NUL \<notin> set hs"
    and n: "length me + length pa + length ve + length hs + 4 \<le> n"
  shows "do { m \<leftarrow> store (replicate (n + 1) (CHR ''?'')) 0 NUL; m \<leftarrow> strcpy m me;
      m \<leftarrow> strcat m '' ''; m \<leftarrow> strcat m pa; m \<leftarrow> strcat m '' ''; m \<leftarrow> strcat m ve; m \<leftarrow> strcat m CRLF;
      m \<leftarrow> strcat m hs; str_at m 0 } = Some (request_text me pa ve hs)"
proof -
  let ?q = "CHR ''?''"
  have st: "store (replicate (n + 1) ?q) 0 NUL = Some (NUL # replicate n ?q)" by (simp add: store_def)
  have cp: "strcpy (NUL # replicate n ?q) me = Some (me @ NUL # replicate (n - length me) ?q)"
    using n by (cases "length me") (auto simp: strcpy_def memcpy_def drop_replicate)
  have app: "strcat (t @ NUL # replicate k ?q) s = Some ((t @ s) @ NUL # replicate (k - length s) ?q)"
    if "NUL \<notin> set t" "length s \<le> k" for t s k using strcat_text [OF that(1), of s "replicate k ?q"] that(2)
    by (simp add: drop_replicate)
  show ?thesis
    unfolding st cp Option.bind_lunit
    using nul n by (simp add: app str_at_0 del: append_assoc)
qed

lemma set_only_headers:
  assumes "ParsedHeader_set realloc_ok pr k v = Some (pr', r)"
  shows "only_headers pr pr'"
proof -
  obtain pr1 r1 where 1: "ParsedHeader_remove pr (Some k) = Some (pr1, r1)"
    using assms by (auto simp: ParsedHeader_set_def split: bind_splits)
  then have "only_headers pr pr1"
    using only_headers_refl [of pr] unfolding ParsedHeader_remove_def only_headers_def
    by (cases pr) (auto split: bind_splits option.splits)
  moreover have "only_headers pr1 pr'"
    using assms 1 unfolding ParsedHeader_set_def only_headers_def put_slot_def Let_def
    by (cases pr1) (auto split: bind_splits option.splits if_splits)
  ultimately show ?thesis by (rule only_headers_trans)
qed

lemma only_headers_fields:
  assumes "only_headers pr pr'"
  shows "pr_method pr' = pr_method pr" "pr_path pr' = pr_path pr" "pr_version pr' = pr_version pr"
    "deref pr' p = deref pr p"
  using assms by (auto simp: only_headers_def deref_headers)

text \<open>Behind the headers: what both functions do with the same header length.\<close>

lemma finish_text:
  assumes nul: "\<And>p s. p \<in> {pr_method pr, pr_path pr, pr_version pr} \<Longrightarrow> deref pr p = Some s \<Longrightarrow> NUL \<notin> set s"
    and st: "store b hl NUL = Some buf"
  shows "(do { me \<leftarrow> deref pr (pr_method pr); pa \<leftarrow> deref pr (pr_path pr); ve \<leftarrow> deref pr (pr_version pr);
      let request_size = length me + length pa + length ve + hl + 4;
      if 2147483647 \<le> request_size then None else do {
      let m = replicate (request_size + 1) (CHR ''?'');
      m \<leftarrow> store m 0 NUL; m \<leftarrow> strcpy m me; m \<leftarrow> strcat m '' ''; m \<leftarrow> strcat m pa; m \<leftarrow> strcat m '' '';
      m \<leftarrow> strcat m ve; m \<leftarrow> strcat m CRLF; hs \<leftarrow> str_at buf 0; m \<leftarrow> strcat m hs;
      s \<leftarrow> str_at m 0; Some (pr, Some s) } }) =
    (do { me \<leftarrow> deref pr (pr_method pr); pa \<leftarrow> deref pr (pr_path pr); ve \<leftarrow> deref pr (pr_version pr);
      hs \<leftarrow> str_at buf 0;
      let requestSize = length me + length pa + length ve + hl + 4;
      if 2147483647 \<le> requestSize then None else do {
      s \<leftarrow> str_at (snprintf (requestSize + 1) (request_text me pa ve hs)) 0; Some (pr, Some s) } })"
    (is "?l = ?r")
proof (cases "\<exists>me pa ve hs. deref pr (pr_method pr) = Some me \<and> deref pr (pr_path pr) = Some pa \<and>
    deref pr (pr_version pr) = Some ve \<and> str_at buf 0 = Some hs")
  case True
  then obtain me pa ve hs where d: "deref pr (pr_method pr) = Some me" "deref pr (pr_path pr) = Some pa"
    "deref pr (pr_version pr) = Some ve" "str_at buf 0 = Some hs" by blast
  let ?n = "length me + length pa + length ve + hl + 4"
  have z: "NUL \<notin> set me" "NUL \<notin> set pa" "NUL \<notin> set ve" "NUL \<notin> set hs"
    using nul d str_at_notin [OF d(4)] by blast+
  have le: "length me + length pa + length ve + length hs + 4 \<le> ?n"
    using terminated_bound [OF st d(4)] by simp
  have p: "str_at (snprintf (?n + 1) (request_text me pa ve hs)) 0 = Some (request_text me pa ve hs)"
    using le z str_at_0 [of "request_text me pa ve hs" "[]"] by (simp add: snprintf_def)
  have "bind (do { m \<leftarrow> store (replicate (?n + 1) (CHR ''?'')) 0 NUL; m \<leftarrow> strcpy m me;
      m \<leftarrow> strcat m '' ''; m \<leftarrow> strcat m pa; m \<leftarrow> strcat m '' ''; m \<leftarrow> strcat m ve; m \<leftarrow> strcat m CRLF;
      m \<leftarrow> strcat m hs; str_at m 0 }) (\<lambda>s. Some (pr, Some s)) = Some (pr, Some (request_text me pa ve hs))"
    unfolding strcat_sequence [OF z le] by simp
  then show ?thesis unfolding d Option.bind_lunit Let_def p Option.bind_assoc by simp
next
  case False
  then show ?thesis by (auto split: bind_splits)
qed

text \<open>
  The two conversions when the headers are set and their length known: both fail when the
  headers cannot be printed, and both make the same text of them when they can.
\<close>

lemma convert_agree_fail:
  assumes d: "deref pr (pr_host pr) = Some ho"
    "ParsedHeader_set realloc_ok pr ''Host'' ho = Some (pr1, r1)"
    "ParsedHeader_set realloc_ok pr1 ''Connection'' ''close'' = Some (pr2, r2)"
    "ParsedHeader_headersLen pr2 = Some len"
    and neg: "\<not> to_int32 (int len) < 0"
  defines "n \<equiv> nat (to_int32 (int len))"
  assumes u: "bind (ParsedRequest_unparse_headers pr2 (replicate (n + 1) (CHR ''?'')) 0 n)
      (\<lambda>(b, r). store b n NUL) = None"
  shows "convertRequestToString realloc_ok pr = None \<and> convert_Request_to_string realloc_ok pr = None"
proof -
  have neg2: "\<not> to_int32 (int len) < -1" "to_int32 (int len) \<noteq> -1" using neg by auto
  show ?thesis
  proof (cases "ParsedRequest_unparse_headers pr2 (replicate (n + 1) (CHR ''?'')) 0 n")
    case None
    show ?thesis
      unfolding convertRequestToString_def convert_Request_to_string_def d Option.bind_lunit
        prod.case if_not_P [OF neg2(1)] if_not_P [OF neg2(2)] if_not_P [OF neg]
      unfolding Let_def None [unfolded n_def] by simp
  next
    case (Some br)
    obtain b r where br: "br = (b, r)" by (cases br)
    with u Some have st: "store b n NUL = None" by simp
    show ?thesis
      unfolding convertRequestToString_def convert_Request_to_string_def d Option.bind_lunit
        prod.case if_not_P [OF neg2(1)] if_not_P [OF neg2(2)] if_not_P [OF neg]
      unfolding Let_def Some [unfolded br n_def] st [unfolded n_def] Option.bind_lunit prod.case by simp
  qed
qed

lemma convert_agree_headers:
  assumes nul: "\<And>p s. p \<in> {pr_method pr, pr_path pr, pr_version pr} \<Longrightarrow> deref pr p = Some s \<Longrightarrow> NUL \<notin> set s"
    and d: "deref pr (pr_host pr) = Some ho"
    "ParsedHeader_set realloc_ok pr ''Host'' ho = Some (pr1, r1)"
    "ParsedHeader_set realloc_ok pr1 ''Connection'' ''close'' = Some (pr2, r2)"
    "ParsedHeader_headersLen pr2 = Some len"
  shows "convertRequestToString realloc_ok pr =
    convert_Request_to_string realloc_ok pr \<bind> (\<lambda>(r, x). map_option (Pair r) x)"
proof (cases "to_int32 (int len) < 0")
  case True
  then show ?thesis by (simp add: convertRequestToString_def convert_Request_to_string_def d)
next
  case False
  then have neg: "\<not> to_int32 (int len) < -1" "to_int32 (int len) \<noteq> -1" by auto
  let ?n = "nat (to_int32 (int len))"
  let ?u = "ParsedRequest_unparse_headers pr2 (replicate (?n + 1) (CHR ''?'')) 0 ?n"
  show ?thesis
  proof (cases "bind ?u (\<lambda>(b, r). store b ?n NUL)")
    case None
    from convert_agree_fail [OF d False None] show ?thesis by simp
  next
    case (Some buf)
    then obtain b r where u: "?u = Some (b, r)" "store b ?n NUL = Some buf" by (auto split: bind_splits)
    note f = only_headers_fields [OF only_headers_trans [OF set_only_headers [OF d(2)] set_only_headers [OF d(3)]]]
    have nul2: "NUL \<notin> set s" if "p \<in> {pr_method pr2, pr_path pr2, pr_version pr2}" "deref pr2 p = Some s" for p s
      using nul that by (simp add: f)
    have l: "convert_Request_to_string realloc_ok pr = (do {
        me \<leftarrow> deref pr2 (pr_method pr2); pa \<leftarrow> deref pr2 (pr_path pr2); ve \<leftarrow> deref pr2 (pr_version pr2);
        hs \<leftarrow> str_at buf 0;
        let requestSize = length me + length pa + length ve + ?n + 4;
        if 2147483647 \<le> requestSize then None else do {
        s \<leftarrow> str_at (snprintf (requestSize + 1) (request_text me pa ve hs)) 0; Some (pr2, Some s) } })"
      unfolding convert_Request_to_string_def d Option.bind_lunit
        prod.case if_not_P [OF neg(1)] if_not_P [OF neg(2)] unfolding Let_def u Option.bind_lunit prod.case
      by (rule finish_text [OF nul2 u(2), unfolded Let_def])
    have r: "convertRequestToString realloc_ok pr = (do {
        me \<leftarrow> deref pr2 (pr_method pr2); pa \<leftarrow> deref pr2 (pr_path pr2); ve \<leftarrow> deref pr2 (pr_version pr2);
        hs \<leftarrow> str_at buf 0;
        let requestSize = length me + length pa + length ve + ?n + 4;
        if 2147483647 \<le> requestSize then None else do {
        s \<leftarrow> str_at (snprintf (requestSize + 1) (request_text me pa ve hs)) 0; Some (pr2, s) } })"
      unfolding convertRequestToString_def d Option.bind_lunit prod.case if_not_P [OF False]
      unfolding Let_def u Option.bind_lunit prod.case ..
    show ?thesis unfolding l r by (auto split: bind_splits simp: Let_def)
  qed
qed

lemma convert_agree:
  assumes nul: "\<And>p s. p \<in> {pr_method pr, pr_path pr, pr_version pr} \<Longrightarrow> deref pr p = Some s \<Longrightarrow> NUL \<notin> set s"
  shows "convertRequestToString realloc_ok pr =
    convert_Request_to_string realloc_ok pr \<bind> (\<lambda>(r, x). map_option (Pair r) x)"
proof (cases "\<exists>ho pr1 r1 pr2 r2 len. deref pr (pr_host pr) = Some ho \<and>
    ParsedHeader_set realloc_ok pr ''Host'' ho = Some (pr1, r1) \<and>
    ParsedHeader_set realloc_ok pr1 ''Connection'' ''close'' = Some (pr2, r2) \<and>
    ParsedHeader_headersLen pr2 = Some len")
  case True
  then obtain ho pr1 r1 pr2 r2 len where d: "deref pr (pr_host pr) = Some ho"
    "ParsedHeader_set realloc_ok pr ''Host'' ho = Some (pr1, r1)"
    "ParsedHeader_set realloc_ok pr1 ''Connection'' ''close'' = Some (pr2, r2)"
    "ParsedHeader_headersLen pr2 = Some len" by blast
  show ?thesis by (rule convert_agree_headers [OF _ d]) (rule nul)
next
  case False
  then have "\<exists>x. deref pr (pr_host pr) = None \<or> deref pr (pr_host pr) = Some x \<and>
    (ParsedHeader_set realloc_ok pr ''Host'' x = None \<or>
     (\<exists>pr1 r1. ParsedHeader_set realloc_ok pr ''Host'' x = Some (pr1, r1) \<and>
      (ParsedHeader_set realloc_ok pr1 ''Connection'' ''close'' = None \<or>
       (\<exists>pr2 r2. ParsedHeader_set realloc_ok pr1 ''Connection'' ''close'' = Some (pr2, r2) \<and>
         ParsedHeader_headersLen pr2 = None))))"
    by (metis not_None_eq surj_pair)
  then show ?thesis by (auto simp: convertRequestToString_def convert_Request_to_string_def)
qed

subsection \<open>Relaying small packets\<close>

definition small :: "recv_event list \<Rightarrow> bool" where
  "small es = list_all (\<lambda>e. case e of Data d \<Rightarrow> length d < 5000 | _ \<Rightarrow> True) es"

lemma recv_small: "small es \<Longrightarrow> recv 5000 es = Some (ev, es') \<Longrightarrow> small es' \<and> (\<forall>d. ev = Data d \<longrightarrow> length d < 5000)"
  by (induction "5000 :: nat" es rule: recv.induct) (auto simp: small_def split: if_splits)

fun relay_outcome :: "relay_end \<Rightarrow> outcome" where
  "relay_outcome Clean = Served"
| "relay_outcome Broken = Terminated 1"
| "relay_outcome Pending = Hanging"

lemma in_str_at: "NUL \<in> set m \<Longrightarrow> \<exists>s. str_at m 0 = Some s"
  using cstr_is_Some by (simp add: str_at_def)

lemma writeToclientSocket_piece:
  assumes "NUL \<in> set buf" "take n buf = d" "length d = n" "generous ks (n + m)"
  shows "\<exists>ks'. writeToclientSocket buf (int n) ks = Some (d, Sent, ks') \<and> generous ks' m"
proof -
  from in_str_at [OF assms(1)] obtain s where "str_at buf 0 = Some s" by blast
  moreover have "int n \<le> int (length buf)" using assms(2,3) by auto
  with writeToSocket_complete [of 0 "int n" buf ks m] assms(2,4) obtain ks' where
    "writeToSocket buf (int n) 0 ks = Some (d, Sent, ks')" "generous ks' m" by auto
  ultimately show ?thesis by (auto simp: writeToclientSocket_def)
qed

lemma relay2_small:
  assumes "small es" "length buf = 5000" "last buf = NUL" "generous ks (length (stream es))"
  shows "relay2 es buf response out ks =
    Some (response @ stream es, out @ stream es, relay_outcome (stream_end es))"
  using assms
proof (induction es buf response out ks rule: relay2.induct)
  case (1 es buf response out ks)
  note rs = recv_stream [of 5000 es]
  show ?case
  proof (cases "recv 5000 es")
    case None
    with rs show ?thesis by (subst relay2.simps) simp
  next
    case (Some p)
    obtain ev es1 where p: "p = (ev, es1)" by (cases p)
    show ?thesis
    proof (cases ev)
      case (Data d)
      with rs Some p have s: "stream es = d @ stream es1" "stream_end es1 = stream_end es" by simp_all
      from recv_small [OF "1.prems"(1)] Some p Data have sm: "small es1" "length d < 5000" by auto
      define b where "b = d @ drop (length d) buf"
      have m: "memcpy buf 0 d = Some b" using sm(2) "1.prems"(2) by (simp add: memcpy_def b_def)
      have l: "length b = 5000" "drop (length d) buf \<noteq> []" using sm(2) "1.prems"(2) by (simp_all add: b_def)
      have "NUL \<in> set b" using l(2) "1.prems"(3) by (metis b_def last_drop last_in_set length_drop
          length_greater_0_conv set_append UnCI zero_less_diff)
      moreover have "take (length d) b = d" by (simp add: b_def)
      moreover have "generous ks (length d + length (stream es1))" using "1.prems"(4) s(1) by simp
      ultimately obtain ks1 where
        w: "writeToclientSocket b (int (length d)) ks = Some (d, Sent, ks1)" "generous ks1 (length (stream es1))"
        using writeToclientSocket_piece by blast
      have z: "length (replicate (length b) NUL) = 5000" "last (replicate (length b) NUL) = NUL"
        by (simp_all add: l(1))
      from "1.IH" [OF Some p [symmetric] Data m w(1) refl refl refl sm(1) z w(2)]
      show ?thesis using Some p Data m w(1) s by (subst relay2.simps) simp
    qed (use rs Some p in \<open>subst relay2.simps, simp\<close>)+
  qed
qed

lemma answer_miss_spec:
  assumes "lru_wf c" "fresh conn \<notin> dom (heap c)" "lru_lookup c url = None"
    and "connect_ok conn ho po" "generous (server_ks conn) (length req)" "NUL \<notin> set req"
    and "small (server_in conn)" "length stack = 5000" "last stack = NUL"
    and "stream_end (server_in conn) = Clean" "length (stream (server_in conn)) < 2147483648"
    and "generous (client_ks conn) (length (stream (server_in conn)))"
  shows "\<exists>c'. answer_miss c conn stack url ho po req = Some (c', \<lparr>to_client = stream (server_in conn),
      to_server = Some (ho, po, req), ended = Served\<rparr>) \<and> lru_wf c' \<and>
    lru_lookup c' url = Some (stream (server_in conn))"
proof -
  let ?d = "stream (server_in conn)"
  from writeToSocket_complete [of 0 "int (length req)" "req @ [NUL]" "server_ks conn" 0] assms(5) obtain ks1 where
    "writeToSocket (req @ [NUL]) (int (length req)) 0 (server_ks conn) = Some (req, Sent, ks1)" by auto
  then have w: "writeToserverSocket (req @ [NUL]) (int (length req)) (server_ks conn) = Some (req, Sent, ks1)"
    using str_at_0 [OF assms(6), of "[]"] by (simp add: writeToserverSocket_def)
  have i: "to_int32 (int (length ?d)) = int (length ?d)" using assms(11) by (simp add: to_int32_id)
  from add_spec [OF assms(1,2) refl, of "clock conn" url ?d] obtain c' where
    c': "LRUCache_add c (fresh conn) (clock conn) url ?d (int (length ?d)) = Some c'" "lru_wf c'"
      "lru_entries c' = lru_insert (capacity c) url ?d (lru_entries c)" by blast
  have "writeToClient2 c conn stack url = Some (c', ?d, Served)"
    using relay2_small [OF assms(7-9,12), of "[]" "[]"] assms(10) c'(1) i by (simp add: writeToClient2_def)
  moreover have "lru_lookup c' url = Some ?d"
    using assms(3) by (auto simp: lru_lookup_def c'(3) lru_insert_def map_of_touch key_iff)
  ultimately show ?thesis using assms(4) w c'(2) by (simp add: answer_miss_def)
qed

subsection \<open>Serving a request\<close>

lemma serve_message2_parsed:
  assumes ok: "request_ok r" and port: "port_ok einval r" and re: "\<forall>n. realloc_ok n"
    and len: "int (length (render r @ body)) \<le> MAX_REQ_LEN"
  shows "\<exists>req x. serve_message2 einval realloc_ok junk stack c conn (render r @ body) = do {
       (c, hit) \<leftarrow> LRUCache_find c (rq_host r @ rq_path r) (clock conn);
       (c, rep) \<leftarrow> (case hit of
           Some p \<Rightarrow> answer_hit c conn p
         | None \<Rightarrow> answer_miss c conn stack (rq_host r @ rq_path r) (rq_host r) (port_of r) (forward_text r));
       if ended rep \<noteq> Served then Some (c, rep) else do {
         _ \<leftarrow> ParsedRequest_destroy req;
         Some (c, rep) } } \<and> ParsedRequest_destroy req = Some x"
proof -
  from message_parsed [OF assms, of junk] obtain pr req x where
    p: "ParsedRequest_parse einval realloc_ok (ParsedRequest_create junk) (render r @ body)
        (int (length (render r @ body))) = Some (pr, 0)" and rq: "request_of pr = Some r" and
    q: "convertRequestToString realloc_ok (if pr_port pr = Null then pr\<lparr>pr_port := Own ''80''\<rparr> else pr)
        = Some (req, forward_text r)"
      "deref req (pr_host req) = Some (rq_host r)" "deref req (pr_path req) = Some (rq_path r)"
      "deref req (pr_port req) = Some (port_of r)" "ParsedRequest_destroy req = Some x" by blast
  let ?pr = "if pr_port pr = Null then pr\<lparr>pr_port := Own ''80''\<rparr> else pr"
  note d = request_ofD [OF request_of_port [OF rq]]
  have nul: "NUL \<notin> set s" if "p \<in> {pr_method ?pr, pr_path ?pr, pr_version ?pr}" "deref ?pr p = Some s" for p s
    using that d(1,4,5) ok by (auto simp: request_ok_def)
  have "convertRequestToString realloc_ok ?pr =
      convert_Request_to_string realloc_ok ?pr \<bind> (\<lambda>(r, x). map_option (Pair r) x)"
    by (rule convert_agree) (rule nul)
  with q(1) have "convert_Request_to_string realloc_ok ?pr = Some (req, Some (forward_text r))"
    by (cases "convert_Request_to_string realloc_ok ?pr") auto
  then show ?thesis
    unfolding serve_message2_def p
    by (intro exI [of _ req] exI [of _ x]) (simp add: q(2-) Let_def)
qed

lemma unterminated_undefined: "NUL \<notin> set d \<Longrightarrow> writeToclientSocket d n ks = None"
  using cstr_None_iff [of d] by (simp add: writeToclientSocket_def str_at_def)

lemma datafromclient2_message:
  assumes "request_ok r" "prefix (render r) (stream (client_in conn))"
    "length (stream (client_in conn)) < BUF_SIZE" "NUL \<notin> set (stream (client_in conn))"
  shows "\<exists>body. datafromclient2 einval realloc_ok junk stack c conn =
      serve_message2 einval realloc_ok junk stack c conn (render r @ body) \<and>
    int (length (render r @ body)) \<le> MAX_REQ_LEN"
  using receive_render [OF assms, of realloc_ok]
  by (auto simp: datafromclient2_def BUF_SIZE_def MAX_REQ_LEN_def)

lemma datafromclient2_miss:
  assumes wf: "lru_wf c" "fresh conn \<notin> dom (heap c)" "lru_lookup c (rq_host r @ rq_path r) = None"
    and w: "works conn r" "port_ok einval r" "\<forall>n. realloc_ok n"
    and srv: "small (server_in conn)" "length stack = 5000" "last stack = NUL"
    and cl: "generous (client_ks conn) (length (stream (server_in conn)))"
  shows "\<exists>c'. datafromclient2 einval realloc_ok junk stack c conn = Some (c',
      \<lparr>to_client = stream (server_in conn), to_server = Some (rq_host r, port_of r, forward_text r),
       ended = Served\<rparr>) \<and> lru_wf c' \<and> lru_lookup c' (rq_host r @ rq_path r) = Some (stream (server_in conn))"
proof -
  let ?url = "rq_host r @ rq_path r"
  note w' = w(1) [unfolded works_def]
  from datafromclient2_message [of r conn einval realloc_ok junk stack c] w' obtain body where
    b: "datafromclient2 einval realloc_ok junk stack c conn =
      serve_message2 einval realloc_ok junk stack c conn (render r @ body)"
      "int (length (render r @ body)) \<le> MAX_REQ_LEN" by blast
  from w' have ok: "request_ok r" by simp
  from serve_message2_parsed [OF ok w(2,3) b(2), of junk stack c conn] obtain req x where
    sm: "serve_message2 einval realloc_ok junk stack c conn (render r @ body) = do {
       (c, hit) \<leftarrow> LRUCache_find c ?url (clock conn);
       (c, rep) \<leftarrow> (case hit of
           Some p \<Rightarrow> answer_hit c conn p
         | None \<Rightarrow> answer_miss c conn stack ?url (rq_host r) (port_of r) (forward_text r));
       if ended rep \<noteq> Served then Some (c, rep) else do {
         _ \<leftarrow> ParsedRequest_destroy req;
         Some (c, rep) } }" and x: "ParsedRequest_destroy req = Some x" by blast
  from find_spec [OF wf(1), of ?url "clock conn"] obtain c1 where
    f: "LRUCache_find c ?url (clock conn) = Some (c1, cache_map c ?url)" "lru_wf c1"
      "lru_entries c1 = touch ?url (lru_entries c)" "dom (heap c1) = dom (heap c)" by blast
  have m: "cache_map c ?url = None"
    using lru_entries_key [OF wf(1), of ?url] wf(3) by (auto simp: lru_lookup_def key_iff)
  have l1: "lru_lookup c1 ?url = None" using wf(3) by (simp add: lru_lookup_def f(3) map_of_touch)
  have fr: "fresh conn \<notin> dom (heap c1)" using wf(2) f(4) by simp
  have nt: "NUL \<notin> set (forward_text r)"
  proof -
    have "NUL \<notin> set (render_headers (forward_headers (rq_host r) (rq_headers r)))"
      using ok by (intro render_headers_nul) (auto simp: nul_free_headers_def forward_headers_def
          request_ok_def header_ok_def list_all_iff)
    then show ?thesis using ok by (auto simp: forward_text_def request_ok_def)
  qed
  from answer_miss_spec [OF f(2) fr l1 _ _ nt srv _ _ cl, of "rq_host r" "port_of r"] w' obtain c' where
    "answer_miss c1 conn stack ?url (rq_host r) (port_of r) (forward_text r) =
      Some (c', \<lparr>to_client = stream (server_in conn),
        to_server = Some (rq_host r, port_of r, forward_text r), ended = Served\<rparr>)"
    "lru_wf c'" "lru_lookup c' ?url = Some (stream (server_in conn))" by blast
  then show ?thesis unfolding b(1) sm f(1) m using x by simp
qed

lemma datafromclient2_hit:
  assumes wf: "lru_wf c" "lru_lookup c (rq_host r @ rq_path r) = Some d" "NUL \<notin> set d"
    and w: "works conn r" "port_ok einval r" "\<forall>n. realloc_ok n"
  shows "datafromclient2 einval realloc_ok junk stack c conn = None"
proof -
  let ?url = "rq_host r @ rq_path r"
  note w' = w(1) [unfolded works_def]
  from datafromclient2_message [of r conn einval realloc_ok junk stack c] w' obtain body where
    b: "datafromclient2 einval realloc_ok junk stack c conn =
      serve_message2 einval realloc_ok junk stack c conn (render r @ body)"
      "int (length (render r @ body)) \<le> MAX_REQ_LEN" by blast
  from w' have ok: "request_ok r" by simp
  from find_spec [OF wf(1), of ?url "clock conn"] obtain c1 where
    f: "LRUCache_find c ?url (clock conn) = Some (c1, cache_map c ?url)" and
    el: "\<forall>p. cache_map c ?url = Some p \<longrightarrow> (\<exists>e. heap c1 p = Some e \<and> ce_url e = ?url \<and>
       ce_time e = clock conn \<and> entry (heap c) p = (?url, ce_data e))" by blast
  obtain p where p: "cache_map c ?url = Some p"
    using lru_entries_key [OF wf(1), of ?url] wf(2) by (auto simp: lru_lookup_def key_iff)
  with el obtain e where e: "heap c1 p = Some e" "entry (heap c) p = (?url, ce_data e)" by blast
  have "ce_data e = d" using lru_lookup_entry [OF wf(1) p e(2)] wf(2) by simp
  then have "answer_hit c1 conn p = None"
    using e(1) unterminated_undefined [OF wf(3)] by (simp add: answer_hit_def)
  with serve_message2_parsed [OF ok w(2,3) b(2), of junk stack c conn] f p show ?thesis
    unfolding b(1) by auto
qed

subsection \<open>Properties\<close>

text \<open>C32. The request text of the single-file versions and of \<open>ProxyUtils.cpp\<close>: for every request
  object whose method, path and version are C strings, the sequence of \<open>strcpy\<close> and \<open>strcat\<close>
  returns a text exactly when the \<open>snprintf\<close> of the later version does, the same text, and
  leaves the same object; both are undefined on the same inputs, except that the older one
  exits the process where the later one returns a null pointer.\<close>

theorem convert_versions_agree:
  assumes "\<forall>p \<in> {pr_method pr, pr_path pr, pr_version pr}. \<forall>s. deref pr p = Some s \<longrightarrow> NUL \<notin> set s"
  shows "convert_Request_to_string realloc_ok pr = Some (pr', Some s) \<longleftrightarrow>
    convertRequestToString realloc_ok pr = Some (pr', s)"
  using convert_agree [of pr realloc_ok] assms by (auto split: bind_splits)

theorem convert_versions_agree_witness:
  "\<exists>pr'. convert_Request_to_string (\<lambda>_. True) ((ParsedRequest_create zeroed)
    \<lparr>pr_method := Own ''GET'', pr_host := Own ''a'', pr_path := Own ''/x'', pr_version := Own ''HTTP/1.0'',
     pr_protocol := Own ''http'', pr_port := Own ''81'', pr_buf := Some [NUL]\<rparr>) = Some (pr',
      Some (''GET /x HTTP/1.0'' @ CRLF @ ''Host: a'' @ CRLF @ ''Connection: close'' @ CRLF @ CRLF))"
proof -
  let ?pr = "(ParsedRequest_create zeroed)
    \<lparr>pr_method := Own ''GET'', pr_host := Own ''a'', pr_path := Own ''/x'', pr_version := Own ''HTTP/1.0'',
     pr_protocol := Own ''http'', pr_port := Own ''81'', pr_buf := Some [NUL]\<rparr>"
  let ?r = "\<lparr>rq_method = ''GET'', rq_protocol = ''http'', rq_host = ''a'', rq_port = Some ''81'',
    rq_path = ''/x'', rq_version = ''HTTP/1.0'', rq_headers = []\<rparr>"
  have "request_of ?pr = Some ?r"
    by (simp add: request_of_def ParsedRequest_create_def ParsedHeader_create_def header_list_def)
  moreover have "header_wf ?pr"
    by (simp add: header_wf_def ParsedRequest_create_def ParsedHeader_create_def DEFAULT_NHDRS_def)
  ultimately obtain pr' where "convertRequestToString (\<lambda>_. True) ?pr = Some (pr', forward_text ?r)"
    using convert_spec [of ?pr ?r "\<lambda>_. True"]
    by (fastforce simp: nul_free_headers_def forward_text_def forward_headers_def render_headers_def)
  with convert_versions_agree [of ?pr "\<lambda>_. True" pr' "forward_text ?r"]
  have "convert_Request_to_string (\<lambda>_. True) ?pr = Some (pr', Some (forward_text ?r))" by simp
  then show ?thesis by (auto simp: forward_text_def forward_headers_def render_headers_def)
qed

text \<open>\<open>v1/proxy2.cpp\<close> and \<open>v1/proxy3.cpp\<close> serve a text response once. A well-formed request for
  an uncached URL, answered by the origin server in packets of less than 5000 bytes, is served
  exactly and cached; the same request again, from any client, is undefined when the response
  has no NUL: \<open>writeToclientSocket\<close> first appends the cached block, which has exactly the
  length of the response, to a string as if it were NUL-terminated.\<close>

theorem text_response_served_once:
  assumes "lru_wf c" "fresh conn1 \<notin> dom (heap c)" "lru_lookup c (rq_host r @ rq_path r) = None"
    and "works conn1 r" "works conn2 r" "port_ok einval r"
    and "small (server_in conn1)" "length stack = 5000" "last stack = NUL"
    and "generous (client_ks conn1) (length (stream (server_in conn1)))"
    and "NUL \<notin> set (stream (server_in conn1))"
  shows "\<exists>c'. datafromclient2 einval (\<lambda>_. True) junk stack c conn1 = Some (c',
      \<lparr>to_client = stream (server_in conn1), to_server = Some (rq_host r, port_of r, forward_text r),
       ended = Served\<rparr>) \<and> lru_lookup c' (rq_host r @ rq_path r) = Some (stream (server_in conn1)) \<and>
    datafromclient2 einval (\<lambda>_. True) junk2 stack2 c' conn2 = None"
proof -
  from datafromclient2_miss [OF assms(1-4,6) _ assms(7-10), of "\<lambda>_. True" junk] obtain c' where
    c': "datafromclient2 einval (\<lambda>_. True) junk stack c conn1 = Some (c',
      \<lparr>to_client = stream (server_in conn1), to_server = Some (rq_host r, port_of r, forward_text r),
       ended = Served\<rparr>)" "lru_wf c'"
      "lru_lookup c' (rq_host r @ rq_path r) = Some (stream (server_in conn1))" by blast
  with datafromclient2_hit [OF c'(2,3) assms(11,5,6), of "\<lambda>_. True" junk2 stack2] show ?thesis by blast
qed

theorem text_response_served_once_witness:
  "\<exists>c. datafromclient2 False (\<lambda>_. True) zeroed (replicate 5000 NUL) (LRUCache_new 100) (example_conn None 0 ''hello'') =
      Some (c, \<lparr>to_client = ''hello'', to_server = Some (''h'', ''80'', forward_text (example_request None)),
        ended = Served\<rparr>) \<and>
    datafromclient2 False (\<lambda>_. True) zeroed (replicate 5000 NUL) c (example_conn None 1 ''hello'') = None"
proof -
  let ?r = "example_request None" and ?c = "example_conn None 0 ''hello''"
  have w: "lru_wf (LRUCache_new 100)" "fresh ?c \<notin> dom (heap (LRUCache_new 100))"
    by (rule new_wf, simp) (simp add: LRUCache_new_def)
  have e: "lru_lookup (LRUCache_new 100) u = None" for u
    by (simp add: lru_lookup_def lru_entries_def LRUCache_new_def)
  have x: "works ?c ?r" "works (example_conn None 1 ''hello'') ?r" by (rule example_works, simp_all)+
  have s: "stream (server_in ?c) = ''hello''" "small (server_in ?c)" by (simp_all add: example_conn_def small_def)
  have g: "generous (client_ks ?c) (length ''hello'')" by (simp add: example_conn_def generous_def)
  have k: "length (replicate 5000 NUL) = 5000" "last (replicate 5000 NUL) = NUL" by simp_all
  from text_response_served_once [OF w e x example_port s(2) k, unfolded s(1), OF g,
      of zeroed zeroed "replicate 5000 NUL"]
  show ?thesis by (auto simp: example_request_def port_of_def)
qed

text \<open>The relay of the single-file versions reads past its own buffer when the origin server
  fills it: a packet of 5000 bytes without a NUL leaves no terminator in the array, and the
  append in \<open>writeToclientSocket\<close> runs over its end.\<close>

theorem full_packet_overreads:
  assumes "length d = 5000" "NUL \<notin> set d" "length stack = 5000"
  shows "writeToClient2 c (conn\<lparr>server_in := Data d # es\<rparr>) stack url = None"
proof -
  have "d \<noteq> []" using assms(1) by auto
  then have "recv 5000 (Data d # es) = Some (Data d, es)" using assms(1) by simp
  moreover have "memcpy stack 0 d = Some d" using assms(1,3) by (simp add: memcpy_def)
  moreover note unterminated_undefined [OF assms(2)]
  ultimately have "relay2 (Data d # es) stack [] [] ks = None" for ks by (subst relay2.simps) simp
  then show ?thesis by (simp add: writeToClient2_def)
qed

theorem full_packet_overreads_witness:
  "writeToClient2 (LRUCache_new 100) ((example_conn None 0 [])\<lparr>server_in := [Data (replicate 5000 (CHR ''x'')), Closed]\<rparr>)
    (replicate 5000 NUL) ''u'' = None"
  by (rule full_packet_overreads) simp_all


end
