(* ===== verification/V1_No_Cache.thy ===== *)
theory V1_No_Cache
  imports V1_With_Cache
begin

text \<open>
  What \<^verbatim>\<open>v1/proxy_server_without_cache.c\<close> does differently: \<open>handle_request\<close> builds
  the request to the origin server in the block the client's request was received in, zeroed
  before; it caches nothing; and nothing closes the socket that \<open>connectRemoteServer\<close> made, not
  even that function itself when it fails. The list of cached elements is never added to, and the
  function that would add to it is another one. The rest, to the letter, is in \<open>V1_Server\<close> and \<open>V1_With_Cache\<close>.
\<close>

subsection \<open>Adding to the cache\<close>

text \<open>
  \<open>add_cache_element\<close> of this file asks for more room than it needs (ten bytes behind \<open>size\<close>), and
  frees both of its arguments at the end; the last component says whether it has. Its only call is
  commented out.
\<close>

definition add_cache_element_nc ::
  "v1_cache \<Rightarrow> nat \<Rightarrow> int \<Rightarrow> string \<Rightarrow> int \<Rightarrow> string \<Rightarrow> (v1_cache \<times> int run \<times> bool) option" where
  "add_cache_element_nc c a now data sz url = (if lock c then Some (c, Blocks, False) else do {
     let c = c\<lparr>lock := True\<rparr>;
     let element_size = to_int32 (sz + 1 + int (length url) + ELEMENT_SIZE);
     if element_size \<le> MAX_ELEMENT_SIZE
     then (case make_room c element_size of
         None \<Rightarrow> None
       | Some Blocks \<Rightarrow> Some (c, Blocks, False)
       | Some (Returns c) \<Rightarrow>
           if sz + 9 < int (length data) then None
           else Some (c\<lparr>mem := (mem c)(a \<mapsto> \<lparr>
                 el_data = data @ NUL # replicate (nat (sz + 9) - length data) (CHR ''?''),
                 el_len = sz, el_url = url, el_time = now, el_next = head c\<rparr>),
               head := Some a, cache_size := cache_size c + element_size, lock := False\<rparr>, Returns 1, True))
     else Some (c\<lparr>lock := False\<rparr>, Returns 0, True) })"

text \<open>
  Wherever the function of the other versions is defined, this one does the same, up to nine
  bytes more behind the string. It is defined also for a \<open>size\<close> up to nine short of the string,
  where the other one writes behind its block.
\<close>

lemma add_cache_element_nc_agrees:
  assumes "add_cache_element c a now data sz url = Some (c', rc)"
  shows "add_cache_element_nc c a now data sz url = Some
    (if rc = Returns 1 then c'\<lparr>mem := (mem c')(a := map_option
       (\<lambda>e. e\<lparr>el_data := el_data e @ replicate 9 (CHR ''?'')\<rparr>) (mem c' a))\<rparr> else c', rc, rc \<noteq> Blocks)"
proof -
  have r: "replicate (nat (sz + 9) - length data) x = replicate (nat sz - length data) x @ replicate 9 x"
    if "int (length data) \<le> sz" for x :: char
  proof -
    have "nat (sz + 9) - length data = (nat sz - length data) + 9" using that by linarith
    then show ?thesis by (simp only: replicate_add)
  qed
  show ?thesis using assms
    by (auto simp: add_cache_element_def add_cache_element_nc_def Let_def not_less r
        split: if_splits option.splits run.splits)
qed

subsection \<open>The handler\<close>

text \<open>The cache, and the number of sockets to origin servers that are open.\<close>

record nc_state =
  nc_cache :: v1_cache
  nc_open :: nat

text \<open>
  Whether it succeeds: there is a socket, and then the host is found and answers. The socket
  stays open in any case.
\<close>

definition connectRemoteServer :: "bool \<Rightarrow> v1_conn \<Rightarrow> nc_state \<Rightarrow> string \<Rightarrow> int \<Rightarrow> nc_state \<times> bool" where
  "connectRemoteServer socket_ok conn st host_addr port_num =
    (if \<not> socket_ok then (st, False)
     else (st\<lparr>nc_open := nc_open st + 1\<rparr>, vc_connect conn host_addr port_num))"

definition handle_request_nc ::
  "(nat \<Rightarrow> bool) \<Rightarrow> bool \<Rightarrow> v1_conn \<Rightarrow> block \<Rightarrow> nc_state \<Rightarrow> ParsedRequest \<Rightarrow>
   (nc_state \<times> ParsedRequest \<times> v1_reply \<times> int) option" where
  "handle_request_nc realloc_ok socket_ok conn buf st request = do {
     (request, msg) \<leftarrow> build_request realloc_ok request buf;
     ho \<leftarrow> deref request (pr_host request);
     server_port \<leftarrow> (if pr_port request = Null then Some 80
       else map_option (\<lambda>p. to_int32 (strtol10 p)) (deref request (pr_port request)));
     let (st, connected) = connectRemoteServer socket_ok conn st ho server_port;
     if \<not> connected
     then Some (st, request, \<lparr>vr_client = [], vr_server = None, vr_done = True\<rparr>, -1)
     else do {
       let sent = take (nat (vc_server_k conn)) msg;
       (out, resp, e) \<leftarrow> relay_response (vc_server_in conn) (vc_ks conn);
       Some (st, request, \<lparr>vr_client = out, vr_server = Some (ho, server_port, sent),
         vr_done = (e \<noteq> Pending)\<rparr>, 0) } }"

text \<open>\<open>tempReq\<close> has room for ten bytes more than are copied: \<open>js\<close>.\<close>

definition thread_fn_nc ::
  "bool \<Rightarrow> (nat \<Rightarrow> bool) \<Rightarrow> bool \<Rightarrow> ParsedRequest \<Rightarrow> block \<Rightarrow> block \<Rightarrow> nc_state \<Rightarrow> v1_conn \<Rightarrow>
   (nc_state \<times> v1_reply) option" where
  "thread_fn_nc einval realloc_ok socket_ok junk js response st conn = do {
     rv \<leftarrow> first_recv (vc_in conn);
     case rv of None \<Rightarrow> Some (st, \<lparr>vr_client = [], vr_server = None, vr_done = False\<rparr>)
     | Some (buffer, bytes_send_client) \<Rightarrow> do {
         s \<leftarrow> str_at buffer 0;
         let tempReq = s @ js;
         temp \<leftarrow> find_at (nc_cache st) tempReq (vc_now conn);
         case temp of
           Blocks \<Rightarrow> Some (st, \<lparr>vr_client = [], vr_server = None, vr_done = False\<rparr>)
         | Returns (c, Some a) \<Rightarrow> do {
             e \<leftarrow> mem c a;
             out \<leftarrow> send_cached (el_data e) (nat (el_len e)) 0;
             _ \<leftarrow> str_at (if out = [] then response else drop (length out - MAX_BYTES) out) 0;
             Some (st\<lparr>nc_cache := c\<rparr>, \<lparr>vr_client = out, vr_server = None, vr_done = True\<rparr>) }
         | Returns (c, None) \<Rightarrow>
             if bytes_send_client > 0
             then process_request (handle_request_nc realloc_ok socket_ok conn (replicate MAX_BYTES NUL))
               einval realloc_ok junk (vc_date conn) st s
             else Some (st, \<lparr>vr_client = [], vr_server = None, vr_done = True\<rparr>) } }"

text \<open>
  The accept loop of \<open>main\<close>, one client after the other: each is served and its socket closed before
  the next one connects. \<open>avail\<close> is the number of descriptors the process may have open besides the
  standard streams and the listening socket. \<open>accept\<close> needs one, and \<open>exit(1)\<close> is called when there
  is none; \<open>socket\<close> needs another one. The i-th client is stored in an array of \<open>MAX_CLIENTS\<close> places.
  The last component is the argument of \<open>exit\<close>, if it was called.
\<close>

fun nc_run ::
  "bool \<Rightarrow> (nat \<Rightarrow> bool) \<Rightarrow> nat \<Rightarrow> ParsedRequest \<Rightarrow> block \<Rightarrow> block \<Rightarrow> nc_state \<Rightarrow> nat \<Rightarrow> v1_conn list \<Rightarrow>
   (nc_state \<times> v1_reply list \<times> int option) option" where
  "nc_run einval realloc_ok avail junk js response st i [] = Some (st, [], None)"
| "nc_run einval realloc_ok avail junk js response st i (conn # conns) =
    (if \<not> nc_open st < avail then Some (st, [], Some 1)
     else if \<not> i < MAX_CLIENTS then None
     else do {
       (st, rep) \<leftarrow> thread_fn_nc einval realloc_ok (nc_open st + 1 < avail) junk js response st conn;
       (st, reps, code) \<leftarrow> nc_run einval realloc_ok avail junk js response st (i + 1) conns;
       Some (st, rep # reps, code) })"

subsection \<open>A request that works\<close>

text \<open>
  A complete well-formed request of fewer than 4096 bytes, also when rewritten; a server that
  answers it and closes the connection; and sockets that take the data. The response and the
  number of packets it comes in are small enough for \<open>temp_buffer_size\<close>, an \<open>int\<close> that grows by 4096
  with every \<open>recv\<close>, not to overflow.
\<close>

definition nc_works :: "bool \<Rightarrow> v1_conn \<Rightarrow> request \<Rightarrow> bool" where
  "nc_works einval conn r = (request_ok r \<and> port_ok einval r \<and> checkHTTPversion (rq_version r) = 1 \<and>
     stream (vc_in conn) = render r \<and> length (render r) < MAX_BYTES \<and> length (v1_text r) < MAX_BYTES \<and>
     vc_connect conn (rq_host r) (v1_port r) \<and> int (length (v1_text r)) \<le> vc_server_k conn \<and>
     stream_end (vc_server_in conn) = Clean \<and> weight (vc_server_in conn) < 524287 \<and>
     (\<forall>k \<in> set (vc_ks conn). 4095 \<le> k) \<and> weight (vc_server_in conn) \<le> length (vc_ks conn))"

lemma relay_works:
  assumes "nc_works einval conn r"
  shows "\<exists>d. relay_response (vc_server_in conn) (vc_ks conn) = Some (stream (vc_server_in conn), Some d, Clean)"
proof -
  note w = assms [unfolded nc_works_def]
  have ks0: "\<forall>k \<in> set (vc_ks conn). 0 \<le> k" using w by auto
  have c0: "MAX_BYTES + weight (vc_server_in conn) * MAX_BYTES < 2147483648"
    using w by (simp add: MAX_BYTES_def)
  from relay_v1_spec [OF ks0 _ c0, of "[]" "[]"] w obtain cap where
    "relay_v1 (vc_server_in conn) (vc_ks conn) [] MAX_BYTES [] =
      Some (stream (vc_server_in conn), cap, stream (vc_server_in conn), Clean)"
    "length (stream (vc_server_in conn)) < cap" by auto
  then show ?thesis by (simp add: relay_response_def)
qed

lemma zeros_tail: "n < MAX_BYTES \<Longrightarrow> cstr (drop n (replicate MAX_BYTES NUL)) = Some []"
  by (cases "MAX_BYTES - n") (auto simp: drop_replicate)

definition nc_reply :: "bool \<Rightarrow> v1_conn \<Rightarrow> request \<Rightarrow> v1_reply" where
  "nc_reply socket_ok conn r = (if socket_ok
     then \<lparr>vr_client = stream (vc_server_in conn), vr_server = Some (rq_host r, v1_port r, v1_text r), vr_done = True\<rparr>
     else \<lparr>vr_client = fst (sendErrorMessage 500 (vc_date conn)), vr_server = None, vr_done = True\<rparr>)"

lemma handle_request_nc_spec:
  assumes rq: "request_of pr = Some r" and wf: "header_wf pr" "pr_buf pr \<noteq> None"
    and re: "\<forall>n. realloc_ok n" and w: "nc_works einval conn r"
  shows "\<exists>pr' hs n u. handle_request_nc realloc_ok socket_ok conn (replicate MAX_BYTES NUL) st pr =
      Some (if socket_ok then (st\<lparr>nc_open := nc_open st + 1\<rparr>, pr', nc_reply True conn r, 0)
        else (st, pr', \<lparr>vr_client = [], vr_server = None, vr_done = True\<rparr>, -1)) \<and> header_wf pr' \<and>
    pr' = pr\<lparr>pr_headers := hs, pr_headerslen := n, pr_headersused := u\<rparr>"
proof -
  note w' = w [unfolded nc_works_def]
  let ?hl = "render_headers (v1_forward_headers (rq_host r) (rq_headers r))"
  have t: "v1_line r @ ?hl = v1_text r" by (simp add: v1_text_def)
  have nul: "NUL \<notin> set (rq_path r)" "NUL \<notin> set (rq_version r)" "NUL \<notin> set (rq_host r)"
    "nul_free_headers (rq_headers r)"
    using w' by (auto simp: request_ok_def nul_free_headers_def header_ok_def list_all_iff)
  have l: "length ?hl < 2147483648" using w' by (simp add: v1_text_def MAX_BYTES_def)
  have ln: "length (v1_line r) < MAX_BYTES" using w' by (simp add: v1_text_def)
  from build_request_spec [OF rq wf re _ nul ln refl l, of "replicate MAX_BYTES NUL"] obtain pr' hs n u where
    p: "header_wf pr'" "pr' = pr\<lparr>pr_headers := hs, pr_headerslen := n, pr_headersused := u\<rparr>"
    and b: "build_request realloc_ok pr (replicate MAX_BYTES NUL) =
      (if MAX_BYTES < length (v1_text r) then Some (pr', v1_line r)
       else map_option (Pair pr') (map_option (append (v1_text r))
         (cstr (drop (length (v1_text r)) (replicate MAX_BYTES NUL)))))"
    unfolding t by auto
  have b2: "build_request realloc_ok pr (replicate MAX_BYTES NUL) = Some (pr', v1_text r)"
    using w' zeros_tail [of "length (v1_text r)"] unfolding b by simp
  note d = request_ofD [OF rq]
  have ho: "deref pr' (pr_host pr') = Some (rq_host r)" using d(3) by (simp add: p(2) deref_headers)
  have po: "(if pr_port pr' = Null then Some 80
       else map_option (\<lambda>p. to_int32 (strtol10 p)) (deref pr' (pr_port pr'))) = Some (v1_port r)"
    using d(6,7) by (auto simp: p(2) deref_headers v1_port_def)
  have "int (length (v1_text r)) \<le> vc_server_k conn" using w' by blast
  then have sk: "length (v1_text r) \<le> nat (vc_server_k conn)" by linarith
  from relay_works [OF w] obtain dd where
    rl: "relay_response (vc_server_in conn) (vc_ks conn) = Some (stream (vc_server_in conn), Some dd, Clean)" by blast
  have "handle_request_nc realloc_ok socket_ok conn (replicate MAX_BYTES NUL) st pr =
      Some (if socket_ok then (st\<lparr>nc_open := nc_open st + 1\<rparr>, pr', nc_reply True conn r, 0)
        else (st, pr', \<lparr>vr_client = [], vr_server = None, vr_done = True\<rparr>, -1))"
    unfolding handle_request_nc_def b2 Option.bind_lunit prod.case ho po
    using w' sk by (simp add: connectRemoteServer_def nc_reply_def rl Let_def)
  with p show ?thesis by blast
qed

lemma thread_fn_nc_spec:
  assumes re: "\<forall>n. realloc_ok n" and w: "nc_works einval conn r"
    and st: "head (nc_cache st) = None" "\<not> lock (nc_cache st)"
  shows "thread_fn_nc einval realloc_ok socket_ok junk js response st conn =
    Some (st\<lparr>nc_open := nc_open st + (if socket_ok then 1 else 0)\<rparr>, nc_reply socket_ok conn r)"
proof -
  note w' = w [unfolded nc_works_def]
  from w' v1_received [of r "vc_in conn"] obtain n where
    n: "first_recv (vc_in conn) = Some (Some (zero_padded (render r), n))" "0 < n" by blast
  from w' have ok: "request_ok r" by simp
  have rd: "str_at (zero_padded (render r)) 0 = Some (render r)"
    using zero_padded_str [OF render_nul [OF ok]] w' by simp
  have f: "find_at (nc_cache st) tb now = Some (Returns (nc_cache st, None))" for tb now
    using st by (subst find_at_def, subst find_loop_at.simps) simp
  from w' process_request_run [OF ok _ re, of einval
      "handle_request_nc realloc_ok socket_ok conn (replicate MAX_BYTES NUL)" junk "vc_date conn" st] obtain pr where
    p: "request_of pr = Some r" "header_wf pr" "pr_buf pr \<noteq> None" "path_ok pr" and
    run: "process_request (handle_request_nc realloc_ok socket_ok conn (replicate MAX_BYTES NUL)) einval realloc_ok
        junk (vc_date conn) st (render r) = do {
      (c, request, rep, rc) \<leftarrow> handle_request_nc realloc_ok socket_ok conn (replicate MAX_BYTES NUL) st pr;
      let rep = (if rc = -1 then rep\<lparr>vr_client := vr_client rep @ fst (sendErrorMessage 500 (vc_date conn))\<rparr> else rep);
      if \<not> vr_done rep then Some (c, rep) else do { _ \<leftarrow> ParsedRequest_destroy request; Some (c, rep) } }"
    by blast
  from handle_request_nc_spec [OF p(1-3) re w, of socket_ok st] obtain pr' hs n' u where
    h: "handle_request_nc realloc_ok socket_ok conn (replicate MAX_BYTES NUL) st pr =
      Some (if socket_ok then (st\<lparr>nc_open := nc_open st + 1\<rparr>, pr', nc_reply True conn r, 0)
        else (st, pr', \<lparr>vr_client = [], vr_server = None, vr_done = True\<rparr>, -1))" "header_wf pr'"
      "pr' = pr\<lparr>pr_headers := hs, pr_headerslen := n', pr_headersused := u\<rparr>" by blast
  from destroy_headers [OF h(2) p(4) h(3)] n(2) show ?thesis
    unfolding thread_fn_nc_def n(1) Option.bind_lunit option.case prod.case rd Let_def f run.case run h(1)
    by (cases socket_ok) (auto simp: nc_reply_def)
qed

subsection \<open>Properties\<close>

lemma nc_run_works:
  assumes "\<forall>n. realloc_ok n"
  shows "list_all (\<lambda>(conn, r). nc_works einval conn r) qs \<Longrightarrow> head (nc_cache st) = None \<Longrightarrow> \<not> lock (nc_cache st) \<Longrightarrow>
    nc_open st < avail \<Longrightarrow> m = avail - 1 - nc_open st \<Longrightarrow>
    nc_run einval realloc_ok avail junk js response st i (map fst qs) =
      (if qs = [] \<or> i + length qs \<le> MAX_CLIENTS
       then Some (st\<lparr>nc_open := nc_open st + min m (length qs)\<rparr>,
         map (\<lambda>(conn, r). nc_reply True conn r) (take m qs) @ map (\<lambda>(conn, r). nc_reply False conn r) (drop m qs), None)
       else None)"
proof (induction qs arbitrary: st i m)
  case Nil
  then show ?case by simp
next
  case (Cons q qs)
  obtain conn r where q: "q = (conn, r)" by (cases q)
  with Cons.prems(1) have w: "nc_works einval conn r" "list_all (\<lambda>(conn, r). nc_works einval conn r) qs" by simp_all
  let ?ok = "nc_open st + 1 < avail"
  let ?st = "st\<lparr>nc_open := nc_open st + (if ?ok then 1 else 0)\<rparr>"
  note one = thread_fn_nc_spec [where socket_ok = ?ok and junk = junk and js = js and response = response,
      OF assms w(1) Cons.prems(2,3)]
  have "nc_open ?st < avail" using Cons.prems(4) by simp
  note rest = Cons.IH [OF w(2) _ _ this refl, of "i + 1"]
  show ?case
  proof (cases "i < MAX_CLIENTS")
    case True
    have full: "qs = [] \<or> i + 1 + length qs \<le> MAX_CLIENTS \<longleftrightarrow> i + length (q # qs) \<le> MAX_CLIENTS" using True by auto
    show ?thesis
    proof (cases ?ok)
      case ok: True
      then obtain m' where m': "m = Suc m'" "m' = avail - 1 - (nc_open st + 1)" using Cons.prems(5) by (cases m) auto
      with rest one True ok Cons.prems(2-4) full show ?thesis by (auto simp: q)
    next
      case no: False
      then have "m = 0" using Cons.prems(5) by simp
      moreover have "st\<lparr>nc_open := nc_open st\<rparr> = st" by simp
      ultimately show ?thesis using rest one True no Cons.prems(2-5) full by (auto simp: q)
    qed
  next
    case False
    with Cons.prems(4) show ?thesis by (simp add: q)
  qed
qed

text \<open>C29. The version without a cache, serving clients one after the other, each with a good request over
  working sockets to a server that answers (\<open>nc_works\<close>): as long as descriptors last, every origin
  server gets exactly the rewritten request (in the zeroed block no old bytes follow it) and
  every client exactly the bytes of its response, repeated requests included; nothing is ever
  cached. But each request leaves one socket to an origin server open: with m descriptors beyond
  the one a client needs, only the first m clients are served, and all later ones get the error
  page 500. And the client after the 400th is stored behind the end of the array, which is
  undefined.\<close>

theorem no_cache_relays_and_leaks:
  assumes "\<forall>n. realloc_ok n" "list_all (\<lambda>(conn, r). nc_works einval conn r) qs"
    and "head (nc_cache st) = None" "\<not> lock (nc_cache st)" "nc_open st = 0"
  shows "nc_run einval realloc_ok (m + 1) junk js response st 0 (map fst qs) =
    (if length qs \<le> 400
     then Some (st\<lparr>nc_open := min m (length qs)\<rparr>,
       map (\<lambda>(conn, r). \<lparr>vr_client = stream (vc_server_in conn),
         vr_server = Some (rq_host r, v1_port r, v1_text r), vr_done = True\<rparr>) (take m qs) @
       map (\<lambda>(conn, r). \<lparr>vr_client = fst (sendErrorMessage 500 (vc_date conn)), vr_server = None, vr_done = True\<rparr>)
         (drop m qs), None)
     else None)"
  using nc_run_works [OF assms(1-4), of "m + 1" m junk js response 0] assms(5)
  by (auto simp: nc_reply_def MAX_CLIENTS_def)

theorem no_cache_relays_and_leaks_witness:
  "nc_run False (\<lambda>_. True) 2 zeroed [] [] \<lparr>nc_cache = v1_empty_cache, nc_open = 0\<rparr> 0 [v1_example, v1_example] =
    Some (\<lparr>nc_cache = v1_empty_cache, nc_open = 1\<rparr>, [\<lparr>vr_client = ''hello'',
      vr_server = Some (''h'', 80, v1_text (example_request None)), vr_done = True\<rparr>,
      \<lparr>vr_client = fst (sendErrorMessage 500 (vc_date v1_example)), vr_server = None, vr_done = True\<rparr>], None)"
proof -
  let ?r = "example_request None"
  have v: "checkHTTPversion (rq_version ?r) = 1"
    by (simp add: checkHTTPversion_def strncmp_eq_def example_request_def)
  have p: "v1_port ?r = 80" "rq_host ?r = ''h''" by (simp_all add: v1_port_def example_request_def)
  have w: "nc_works False v1_example ?r"
    using v example_ok(1) example_port [of ?r] by (simp add: nc_works_def v1_example_def example_text MAX_BYTES_def)
  have e: "head v1_empty_cache = None" "\<not> lock v1_empty_cache" by (simp_all add: v1_empty_cache_def)
  have s: "stream (vc_server_in v1_example) = ''hello''" by (simp add: v1_example_def)
  show ?thesis
    using no_cache_relays_and_leaks [of "\<lambda>_. True" False "[(v1_example, ?r), (v1_example, ?r)]"
      "\<lparr>nc_cache = v1_empty_cache, nc_open = 0\<rparr>" 1 zeroed "[]" "[]"] w e by (simp add: s p numeral_2_eq_2)
qed

end
