(* ===== verification/V1_Turns.thy ===== *)
theory V1_Turns
  imports V1_Handler
begin

text \<open>
  \<open>handle_client\<close> of the first version (\<open>V1_Server\<close>) spread out at its calls on the list cache
  (\<open>V1_Cache\<close>), each of which holds the mutex \<open>lock\<close>; a found element is used after the mutex
  has been released. What one such turn does to the cache, whatever the client sends.
\<close>

subsection \<open>One handler in turns\<close>

text \<open>
  Where a handler is: in the loop of \<open>recv\<close>, before \<open>find\<close> (with its copy of the request, and
  whether \<open>recv\<close> returned more than 0), about to send a found element, about to parse the request
  and fetch the response, before \<open>return\<close>, or in a call that does not return: \<open>recv\<close> from a
  silent peer, or a mutex that is never released.
\<close>

datatype v1_at = Receiving | LookingUp string bool | FromCache nat | Fetching string | Finished | Hung

text \<open>
  \<open>handle_client\<close> from one of these places to the next: the cache, the next place and the bytes
  for the client; \<open>None\<close> when the behaviour is undefined. Between the turns of all handlers
  \<open>lock\<close> is held only by a call that does not return, so who finds it held waits for ever.
\<close>

fun client_turn ::
  "bool \<Rightarrow> (nat \<Rightarrow> bool) \<Rightarrow> ParsedRequest \<Rightarrow> v1_conn \<Rightarrow> v1_cache \<Rightarrow> v1_at \<Rightarrow>
   (v1_cache \<times> v1_at \<times> block) option" where
  "client_turn einval realloc_ok junk conn c Receiving = do {
     rv \<leftarrow> first_recv (vc_in conn);
     case rv of None \<Rightarrow> Some (c, Hung, [])
     | Some (buffer, bytes_send_client) \<Rightarrow> do {
         tempReq \<leftarrow> str_at buffer 0;
         Some (c, LookingUp tempReq (bytes_send_client > 0), []) } }"
| "client_turn einval realloc_ok junk conn c (LookingUp tempReq ok) = do {
     fr \<leftarrow> v1_find c tempReq (vc_now conn);
     case fr of
       Blocks \<Rightarrow> Some (c, Hung, [])
     | Returns (c, Some a) \<Rightarrow> Some (c, FromCache a, [])
     | Returns (c, None) \<Rightarrow> Some (c, if ok then Fetching tempReq else Finished, []) }"
| "client_turn einval realloc_ok junk conn c (FromCache a) = do {
     e \<leftarrow> mem c a;
     out \<leftarrow> send_cached (el_data e) (nat (el_len e)) 0;
     Some (c, Finished, out) }"
| "client_turn einval realloc_ok junk conn c (Fetching tempReq) = do {
     (c, rep) \<leftarrow> v1_process einval realloc_ok junk c conn tempReq (tempReq @ [NUL]);
     Some (c, if vr_done rep then Finished else Hung, vr_client rep) }"
| "client_turn einval realloc_ok junk conn c h = Some (c, h, [])"

text \<open>A handler that nobody disturbs.\<close>

definition client_turns ::
  "bool \<Rightarrow> (nat \<Rightarrow> bool) \<Rightarrow> ParsedRequest \<Rightarrow> v1_conn \<Rightarrow> v1_cache \<Rightarrow> (v1_cache \<times> v1_at \<times> block) option" where
  "client_turns einval realloc_ok junk conn c = do {
     (c, h, out1) \<leftarrow> client_turn einval realloc_ok junk conn c Receiving;
     (c, h, out2) \<leftarrow> client_turn einval realloc_ok junk conn c h;
     (c, h, out3) \<leftarrow> client_turn einval realloc_ok junk conn c h;
     Some (c, h, out1 @ out2 @ out3) }"

text \<open>The turns of a handler that nobody disturbs are \<open>handle_client\<close>: the same cache and the same
  bytes for the client, finished exactly when the call returns, and undefined exactly when it is.\<close>

theorem v1_turns_are_handler:
  "client_turns einval realloc_ok junk conn c =
     map_option (\<lambda>(c, rep). (c, if vr_done rep then Finished else Hung, vr_client rep))
       (handle_client einval realloc_ok junk c conn)"
proof (cases "first_recv (vc_in conn)")
  case None
  then show ?thesis by (simp add: client_turns_def handle_client_def)
next
  case (Some rv)
  show ?thesis
  proof (cases rv)
    case None
    with Some show ?thesis by (simp add: client_turns_def handle_client_def)
  next
    case rv: (Some p)
    obtain buffer m where p: "p = (buffer, m)" by (cases p)
    show ?thesis
    proof (cases "str_at buffer 0")
      case None
      with Some rv p show ?thesis by (simp add: client_turns_def handle_client_def)
    next
      case t: (Some t)
      note run = client_turns_def handle_client_def Some rv p t
      show ?thesis
      proof (cases "v1_find c t (vc_now conn)")
        case None
        with run show ?thesis by simp
      next
        case f: (Some fr)
        then show ?thesis
          by (cases fr) (auto simp: run split: option.splits prod.splits bind_splits)
      qed
    qed
  qed
qed
subsection \<open>What a turn does to the cache\<close>

text \<open>
  Nothing; or the mutex is never released again; or one new element is linked in front.
  \<open>fin\<close>: the call returns.
\<close>

inductive cache_effect :: "nat \<Rightarrow> v1_cache \<Rightarrow> v1_cache \<Rightarrow> bool \<Rightarrow> bool" for a c where
  nothing [simp]: "cache_effect a c c fin"
| holds_lock: "\<not> lock c \<Longrightarrow> cache_effect a c (c\<lparr>lock := True\<rparr>) False"
| links: "\<not> lock c \<Longrightarrow> mem c' = (mem c)(a \<mapsto> e) \<Longrightarrow> head c' = Some a \<Longrightarrow> el_next e = head c \<Longrightarrow> \<not> lock c' \<Longrightarrow>
    cache_effect a c c' fin"

lemma make_room_locked:
  "lock c \<Longrightarrow> make_room c n = (if cache_size c + n \<le> MAX_SIZE then Some (Returns c) else Some Blocks)"
  by (subst make_room.simps) (simp add: remove_cache_element_def)

lemma unlocked_same: "\<not> lock c \<Longrightarrow> c\<lparr>lock := False\<rparr> = c"
  by (cases c) simp

lemma add_effect:
  assumes "add_cache_element c a now data sz url = Some (c', x)"
  shows "cache_effect a c c' (x \<noteq> Blocks)"
proof (cases "lock c")
  case True
  with assms show ?thesis by (auto simp: add_cache_element_def)
next
  case False
  then have l: "\<not> lock c" "c\<lparr>lock := False\<rparr> = c" by (simp_all add: unlocked_same)
  show ?thesis
  proof (cases "MAX_ELEMENT_SIZE < to_int32 (sz + 1 + int (length url) + ELEMENT_SIZE)")
    case True
    with assms l show ?thesis by (auto simp: add_cache_element_def Let_def)
  next
    case False
    with assms l show ?thesis
      by (auto simp: add_cache_element_def make_room_locked Let_def split: if_splits intro!: holds_lock links)
  qed
qed

lemma add_at_effect:
  "add_cache_element_at c a now data sz u = Some (c', x) \<Longrightarrow> cache_effect a c c' (x \<noteq> Blocks)"
  by (auto simp: add_cache_element_at_def split: if_splits bind_splits dest!: add_effect)

lemma handle_request_effect:
  "handle_request realloc_ok c conn request t = Some (c', request', rep, rc) \<Longrightarrow>
    cache_effect (vc_addr conn) c c' (vr_done rep)"
  by (auto simp: handle_request_def Let_def split: if_splits bind_splits option.splits
      dest!: add_at_effect)

lemma process_request_state:
  assumes "process_request handler einval realloc_ok junk date c s = Some (c', rep)"
    and "\<And>request request' rep rc c'. handler c request = Some (c', request', rep, rc) \<Longrightarrow> Q c' (vr_done rep)"
    and "Q c True"
  shows "Q c' (vr_done rep)"
  using assms(1,3)
  by (auto simp: process_request_def Let_def split: if_splits bind_splits dest!: assms(2))

lemma process_effect:
  "v1_process einval realloc_ok junk c conn s t = Some (c', rep) \<Longrightarrow>
    cache_effect (vc_addr conn) c c' (vr_done rep)"
  unfolding v1_process_def
  by (erule process_request_state) (auto dest!: handle_request_effect)
text \<open>The elements on the list are all that is allocated; \<open>keeps_elements\<close>: none is freed or rewritten.\<close>

definition linked :: "v1_cache \<Rightarrow> nat list \<Rightarrow> bool" where
  "linked c as = (chain (mem c) (head c) as \<and> distinct as \<and> dom (mem c) = set as)"

definition keeps_elements :: "v1_cache \<Rightarrow> v1_cache \<Rightarrow> bool" where
  "keeps_elements c c' = (\<forall>a e. mem c a = Some e \<longrightarrow> (\<exists>e'. mem c' a = Some e' \<and> el_url e' = el_url e \<and>
     el_data e' = el_data e \<and> el_len e' = el_len e))"

lemma keeps_refl [simp]: "keeps_elements c c"
  by (simp add: keeps_elements_def)

lemma keeps_trans: "keeps_elements c1 c2 \<Longrightarrow> keeps_elements c2 c3 \<Longrightarrow> keeps_elements c1 c3"
  unfolding keeps_elements_def by metis

lemma keeps_mem: "keeps_elements c c' \<Longrightarrow> mem c a \<noteq> None \<Longrightarrow> mem c' a \<noteq> None"
  by (fastforce simp: keeps_elements_def)

lemma effect_linked:
  assumes "cache_effect a c c' fin" "linked c as" "mem c a = None"
  shows "linked c' as \<or> linked c' (a # as)" "keeps_elements c c'" "lock c \<Longrightarrow> c' = c"
    "lock c' \<Longrightarrow> lock c \<or> \<not> fin"
proof -
  have a: "a \<notin> set as" using assms(2,3) by (auto simp: linked_def)
  show "linked c' as \<or> linked c' (a # as)"
    using assms(1) by cases (use assms(2) a in \<open>auto simp: linked_def chain_upd\<close>)
  show "keeps_elements c c'"
    using assms(1) by cases (use assms(3) in \<open>auto simp: keeps_elements_def\<close>)
  show "lock c \<Longrightarrow> c' = c" "lock c' \<Longrightarrow> lock c \<or> \<not> fin" using assms(1) by (cases; simp)+
qed

lemma dom_map_option_upd [simp]: "dom (m(a := map_option f (m a))) = dom m"
  by (auto simp: dom_def)

lemma find_linked:
  assumes "v1_find c url now = Some (Returns (c', r))" "linked c as"
  shows "linked c' as" "keeps_elements c c'" "r = Some a \<Longrightarrow> mem c' a \<noteq> None" "\<not> lock c" "\<not> lock c'"
proof -
  from assms have l: "\<not> lock c" and
    f: "find_loop (mem c) (head c) url = Some (List.find (\<lambda>a. it_url (item (mem c a)) = url) as)"
    using find_loop_spec [of "mem c" "head c" as url] by (auto simp: v1_find_def linked_def split: if_splits)
  show "\<not> lock c" by (rule l)
  have c': "c' = c \<or> (\<exists>a. c' = c\<lparr>mem := (mem c)(a := map_option (\<lambda>e. e\<lparr>el_time := now\<rparr>) (mem c a))\<rparr>)"
    using assms(1) l by (auto simp: v1_find_def split: bind_splits option.splits)
  then show "linked c' as" "\<not> lock c'"
    using assms(2) l by (elim disjE exE; simp add: linked_def chain_time del: dom_fun_upd)+
  from c' show "keeps_elements c c'" by (auto simp: keeps_elements_def)
  have "mem c a \<noteq> None" if "List.find (\<lambda>a. it_url (item (mem c a)) = url) as = Some a" for a
  proof -
    from that have "a \<in> set as" by (rule find_SomeD)
    with assms(2) chain_mem [of "mem c" "head c" as a] show ?thesis by (auto simp: linked_def)
  qed
  with f l assms show "r = Some a \<Longrightarrow> mem c' a \<noteq> None"
    by (auto simp: v1_find_def linked_def split: option.splits)
qed

lemma find_locked: "lock c \<Longrightarrow> v1_find c url now = Some Blocks"
  by (simp add: v1_find_def)

lemma turn_linked:
  assumes "client_turn einval realloc_ok junk conn c h = Some (c', h', out)" "linked c as"
    and "mem c (vc_addr conn) = None"
  shows "linked c' as \<or> linked c' (vc_addr conn # as)" "keeps_elements c c'"
    "h' = FromCache a \<Longrightarrow> mem c' a \<noteq> None" "lock c' \<Longrightarrow> lock c \<or> h' = Hung" "lock c \<Longrightarrow> c' = c"
proof -
  have "(linked c' as \<or> linked c' (vc_addr conn # as)) \<and> keeps_elements c c' \<and>
    (\<forall>a. h' = FromCache a \<longrightarrow> h = h' \<or> mem c' a \<noteq> None) \<and> (lock c' \<longrightarrow> lock c \<or> h' = Hung) \<and> (lock c \<longrightarrow> c' = c)"
  proof (cases h)
    case (LookingUp t ok)
    with assms(1) obtain fr where fr: "v1_find c t (vc_now conn) = Some fr" by (auto split: bind_splits)
    show ?thesis
    proof (cases fr)
      case (Returns p)
      obtain c1 r where p: "p = (c1, r)" by (cases p)
      from find_linked [OF fr [unfolded Returns p] assms(2)] assms(1,2) LookingUp fr Returns p show ?thesis
        by (auto split: option.splits if_splits)
    next
      case Blocks
      with assms(1,2) LookingUp fr show ?thesis by simp
    qed
  next
    case (Fetching t)
    with assms(1) obtain rep where r: "v1_process einval realloc_ok junk c conn t (t @ [NUL]) = Some (c', rep)"
      "h' = (if vr_done rep then Finished else Hung)" by (auto split: bind_splits)
    from effect_linked [OF process_effect [OF r(1)] assms(2,3)] r(2) show ?thesis by auto
  qed (use assms(1,2) in \<open>auto split: bind_splits option.splits\<close>)
  moreover have "h' = h \<longrightarrow> h \<noteq> FromCache a" for a
    using assms(1) by (auto split: bind_splits)
  ultimately show "linked c' as \<or> linked c' (vc_addr conn # as)" "keeps_elements c c'"
    "h' = FromCache a \<Longrightarrow> mem c' a \<noteq> None" "lock c' \<Longrightarrow> lock c \<or> h' = Hung" "lock c \<Longrightarrow> c' = c" by blast+
qed

end
