(* ===== verification/V1_Site.thy ===== *)
theory V1_Site
  imports V1_Pool V1_Turns
begin

text \<open>
  The first version with the thread pool at work: the workers of \<open>V1_Pool\<close> run the handlers
  of \<open>V1_Turns\<close> on the one list cache. No element is ever freed, and once a call holds the
  mutex for ever the server has only a bounded number of answers left in it.
\<close>

subsection \<open>States and steps of the server\<close>

text \<open>
  \<open>vs_conn\<close>: which connection (in the order of \<open>accept\<close>) the handler of a worker serves;
  \<open>vs_at\<close>: where that handler is; \<open>vs_replies\<close>: what was sent to which connection.
\<close>

record v1_site =
  vs_pool :: v1_pool
  vs_cache :: v1_cache
  vs_at :: "nat \<Rightarrow> v1_at"
  vs_conn :: "nat \<Rightarrow> nat"
  vs_replies :: "(nat \<times> block) list"
  vs_undefined :: bool

definition v1_site_init :: v1_site where
  "v1_site_init = \<lparr>vs_pool = v1_pool_init, vs_cache = v1_empty_cache, vs_at = (\<lambda>_. Finished),
     vs_conn = (\<lambda>_. 0), vs_replies = [], vs_undefined = False\<rparr>"

definition v1_up :: "v1_site \<Rightarrow> bool" where
  "v1_up s = (\<not> vs_undefined s \<and> main_pc (vs_pool s) \<noteq> Exited)"

fun is_handling :: "worker_at \<Rightarrow> bool" where
  "is_handling (Handling sock) = True"
| "is_handling _ = False"

abbreviation in_client :: "v1_site \<Rightarrow> nat \<Rightarrow> bool" where
  "in_client s w \<equiv> is_handling (worker_pc (vs_pool s) w)"

text \<open>What connection k sends and meets; address and time are those of the call.\<close>

definition v1_meets :: "(nat \<Rightarrow> v1_conn) \<Rightarrow> nat \<Rightarrow> nat \<Rightarrow> int \<Rightarrow> v1_conn" where
  "v1_meets conns k a now = (conns k)\<lparr>vc_addr := a, vc_now := now\<rparr>"

inductive v1_site_step ::
  "bool \<Rightarrow> (nat \<Rightarrow> bool) \<Rightarrow> ParsedRequest \<Rightarrow> (nat \<Rightarrow> v1_conn) \<Rightarrow> nat \<Rightarrow> v1_site \<Rightarrow> v1_site \<Rightarrow> bool"
  for einval realloc_ok junk conns n where
  pool_alone: "v1_up s \<Longrightarrow> v1_step n (vs_pool s) t p \<Longrightarrow> taken p = taken (vs_pool s) \<Longrightarrow>
    (\<And>w. t = Some (Worker w) \<Longrightarrow> \<not> in_client s w) \<Longrightarrow>
    v1_site_step einval realloc_ok junk conns n s (s\<lparr>vs_pool := p\<rparr>)"
| takes_client: "v1_up s \<Longrightarrow> v1_step n (vs_pool s) (Some (Worker w)) p \<Longrightarrow> taken p \<noteq> taken (vs_pool s) \<Longrightarrow>
    v1_site_step einval realloc_ok junk conns n s (s\<lparr>vs_pool := p, vs_at := (vs_at s)(w := Receiving),
      vs_conn := (vs_conn s)(w := length (taken (vs_pool s)))\<rparr>)"
| takes_turn: "v1_up s \<Longrightarrow> w < n \<Longrightarrow> in_client s w \<Longrightarrow> vs_at s w \<notin> {Finished, Hung} \<Longrightarrow>
    mem (vs_cache s) a = None \<Longrightarrow>
    client_turn einval realloc_ok junk (v1_meets conns (vs_conn s w) a now) (vs_cache s) (vs_at s w)
      = Some (c, h, out) \<Longrightarrow>
    v1_site_step einval realloc_ok junk conns n s (s\<lparr>vs_cache := c, vs_at := (vs_at s)(w := h),
      vs_replies := (if out = [] then vs_replies s else (vs_conn s w, out) # vs_replies s)\<rparr>)"
| undefined_turn: "v1_up s \<Longrightarrow> w < n \<Longrightarrow> in_client s w \<Longrightarrow> vs_at s w \<notin> {Finished, Hung} \<Longrightarrow>
    mem (vs_cache s) a = None \<Longrightarrow>
    client_turn einval realloc_ok junk (v1_meets conns (vs_conn s w) a now) (vs_cache s) (vs_at s w) = None \<Longrightarrow>
    v1_site_step einval realloc_ok junk conns n s (s\<lparr>vs_undefined := True\<rparr>)"
| client_returns: "v1_up s \<Longrightarrow> in_client s w \<Longrightarrow> vs_at s w = Finished \<Longrightarrow>
    v1_step n (vs_pool s) (Some (Worker w)) p \<Longrightarrow>
    v1_site_step einval realloc_ok junk conns n s (s\<lparr>vs_pool := p\<rparr>)"

inductive v1_site_reach ::
  "bool \<Rightarrow> (nat \<Rightarrow> bool) \<Rightarrow> ParsedRequest \<Rightarrow> (nat \<Rightarrow> v1_conn) \<Rightarrow> nat \<Rightarrow> v1_site \<Rightarrow> bool"
  for einval realloc_ok junk conns n where
  v1_site_start: "v1_site_reach einval realloc_ok junk conns n v1_site_init"
| v1_site_next: "v1_site_reach einval realloc_ok junk conns n s \<Longrightarrow>
    v1_site_step einval realloc_ok junk conns n s s' \<Longrightarrow> v1_site_reach einval realloc_ok junk conns n s'"

inductive_cases v1_site_stepE: "v1_site_step einval realloc_ok junk conns n s s'"

lemma v1_site_pool: "v1_site_reach einval realloc_ok junk conns n s \<Longrightarrow> v1_reach n (vs_pool s)"
proof (induction rule: v1_site_reach.induct)
  case v1_site_start
  then show ?case by (simp add: v1_site_init_def v1_reach.init)
next
  case (v1_site_next s s')
  from v1_site_next.hyps(2) v1_site_next.IH show ?case
    by (cases rule: v1_site_step.cases) (auto intro: v1_reach.step)
qed

text \<open>The steps of the pool, as the handlers see them.\<close>

lemma pool_other:
  assumes "v1_step n p t p'" "v1_born n p" "t \<noteq> Some (Worker v)"
  shows "is_handling (worker_pc p' v) = is_handling (worker_pc p v)"
  using assms(1)
proof (elim v1_stepE main_threadE worker_threadE)
  fix i assume "p' = p\<lparr>worker_pc := (worker_pc p)(i := Dequeueing), main_pc := Creating (Suc i)\<rparr>"
    "main_pc p = Creating i" "i < n"
  then show ?thesis using assms(2) by (auto simp: v1_born_def)
qed (use assms(3) in \<open>auto\<close>)

lemma pool_worker:
  assumes "v1_step n p (Some (Worker w)) p'"
  shows "w < n" "is_handling (worker_pc p w) \<Longrightarrow> \<not> is_handling (worker_pc p' w) \<and> taken p' = taken p"
    "\<not> is_handling (worker_pc p w) \<Longrightarrow>
       (if taken p' = taken p then \<not> is_handling (worker_pc p' w)
        else is_handling (worker_pc p' w) \<and> length (taken p') = Suc (length (taken p)))"
  using assms by (auto elim!: v1_stepE worker_threadE)

lemma pool_taken: "v1_step n p t p' \<Longrightarrow> taken p' \<noteq> taken p \<Longrightarrow> \<exists>w. t = Some (Worker w)"
  by (auto elim!: v1_stepE main_threadE)
text \<open>
  The steps of the server with what they do to the workers inside \<open>handle_client\<close>.
\<close>

lemma site_view:
  assumes "v1_site_step einval realloc_ok junk conns n s s'" "v1_born n (vs_pool s)"
  obtains
    (quiet) p where "s' = s\<lparr>vs_pool := p\<rparr>" "taken p = taken (vs_pool s)" "\<And>v. in_client s' v = in_client s v"
  | (takes) w p where "w < n" "s' = s\<lparr>vs_pool := p, vs_at := (vs_at s)(w := Receiving),
        vs_conn := (vs_conn s)(w := length (taken (vs_pool s)))\<rparr>" "length (taken p) = Suc (length (taken (vs_pool s)))"
      "\<not> in_client s w" "in_client s' w" "\<And>v. v \<noteq> w \<Longrightarrow> in_client s' v = in_client s v"
  | (turn) w a now c h out where "w < n" "s' = s\<lparr>vs_cache := c, vs_at := (vs_at s)(w := h),
        vs_replies := (if out = [] then vs_replies s else (vs_conn s w, out) # vs_replies s)\<rparr>"
      "in_client s w" "vs_at s w \<notin> {Finished, Hung}"
      "mem (vs_cache s) (vc_addr (v1_meets conns (vs_conn s w) a now)) = None"
      "client_turn einval realloc_ok junk (v1_meets conns (vs_conn s w) a now) (vs_cache s) (vs_at s w) = Some (c, h, out)"
  | (undef) w a now where "w < n" "s' = s\<lparr>vs_undefined := True\<rparr>" "in_client s w" "vs_at s w \<notin> {Finished, Hung}"
      "mem (vs_cache s) (vc_addr (v1_meets conns (vs_conn s w) a now)) = None"
      "client_turn einval realloc_ok junk (v1_meets conns (vs_conn s w) a now) (vs_cache s) (vs_at s w) = None"
  | (returns) w p where "w < n" "s' = s\<lparr>vs_pool := p\<rparr>" "taken p = taken (vs_pool s)" "in_client s w"
      "vs_at s w = Finished" "\<not> in_client s' w" "\<And>v. v \<noteq> w \<Longrightarrow> in_client s' v = in_client s v"
  using assms(1)
proof (cases rule: v1_site_step.cases)
  case (pool_alone t p)
  have "is_handling (worker_pc p v) = in_client s v" for v
  proof (cases "t = Some (Worker v)")
    case True
    from pool_worker [OF pool_alone(3) [unfolded True]] pool_alone(4) pool_alone(5) [OF True] show ?thesis by simp
  qed (rule pool_other [OF pool_alone(3) assms(2)])
  with pool_alone(1,4) show ?thesis by (intro quiet [where p = p]) simp_all
next
  case (takes_client w p)
  note w = pool_worker [OF takes_client(3)]
  have "is_handling (worker_pc p v) = in_client s v" if "v \<noteq> w" for v
    by (rule pool_other [OF takes_client(3) assms(2)]) (use that in simp)
  moreover have "\<not> in_client s w" using w(2) takes_client(4) by blast
  ultimately show ?thesis using w(1,3) takes_client(1,4) by (intro takes [where w = w and p = p]) simp_all
next
  case (takes_turn w a now c h out)
  then show ?thesis by (intro turn [where w = w and c = c and h = h and out = out and a = a and now = now]) (simp_all add: v1_meets_def)
next
  case (undefined_turn w a now)
  then show ?thesis by (intro undef [where w = w and a = a and now = now]) (simp_all add: v1_meets_def)
next
  case (client_returns w p)
  note w = pool_worker [OF client_returns(5)]
  have "is_handling (worker_pc p v) = in_client s v" if "v \<noteq> w" for v
    by (rule pool_other [OF client_returns(5) assms(2)]) (use that in simp)
  with w(1,2) client_returns(1,3,4) show ?thesis by (intro returns [where w = w and p = p]) simp_all
qed

subsection \<open>No element is ever freed\<close>

text \<open>
  The invariant: the list is intact, a handler that is about to send an element has one, and
  when the mutex is held a worker hangs in the call that holds it.
\<close>

definition v1_alive :: "nat \<Rightarrow> v1_site \<Rightarrow> bool" where
  "v1_alive n s = ((\<exists>as. linked (vs_cache s) as) \<and>
     (\<forall>w < n. \<forall>a. in_client s w \<longrightarrow> vs_at s w = FromCache a \<longrightarrow> mem (vs_cache s) a \<noteq> None) \<and>
     (lock (vs_cache s) \<longrightarrow> (\<exists>w < n. in_client s w \<and> vs_at s w = Hung)))"

lemma alive_step:
  assumes "v1_site_step einval realloc_ok junk conns n s s'" "v1_alive n s" "v1_born n (vs_pool s)"
  shows "v1_alive n s'" "keeps_elements (vs_cache s) (vs_cache s')"
proof -
  from assms(2) obtain as where as: "linked (vs_cache s) as" by (auto simp: v1_alive_def)
  have "v1_alive n s' \<and> keeps_elements (vs_cache s) (vs_cache s')"
    using assms(1,3)
  proof (cases rule: site_view)
    case (quiet p)
    then have same: "\<And>v. is_handling (worker_pc p v) = in_client s v" by simp
    show ?thesis using assms(2) by (simp add: v1_alive_def quiet(1) same)
  next
    case (takes w p)
    then have other: "v \<noteq> w \<Longrightarrow> is_handling (worker_pc p v) = in_client s v" for v by simp
    have "\<exists>v<n. is_handling (worker_pc p v) \<and> ((vs_at s)(w := Receiving)) v = Hung" if "lock (vs_cache s)"
      using assms(2) that takes(4) other unfolding v1_alive_def by (metis fun_upd_other)
    with assms(2) takes(2) other show ?thesis by (auto simp: v1_alive_def)
  next
    case (turn w a now c h out)
    note t = turn_linked [OF turn(6) as turn(5)]
    have "\<exists>v<n. in_client s v \<and> ((vs_at s)(w := h)) v = Hung" if l: "lock c"
    proof (cases "h = Hung")
      case True
      with turn(1,3) show ?thesis by auto
    next
      case False
      with t(4) l have "lock (vs_cache s)" by blast
      with assms(2) obtain v where v: "v < n" "in_client s v" "vs_at s v = Hung" by (auto simp: v1_alive_def)
      with turn(4) have "v \<noteq> w" by auto
      with v show ?thesis by (intro exI [of _ v]) simp
    qed
    moreover have "mem c b \<noteq> None" if "v < n" "in_client s v" "((vs_at s)(w := h)) v = FromCache b" for v b
    proof (cases "v = w")
      case True
      with that(3) t(3) show ?thesis by simp
    next
      case False
      with that assms(2) have "mem (vs_cache s) b \<noteq> None" by (simp add: v1_alive_def)
      from keeps_mem [OF t(2) this] show ?thesis .
    qed
    ultimately show ?thesis using t(1,2) turn(2) unfolding v1_alive_def by auto
  next
    case (undef w a now)
    with assms(2) show ?thesis by (simp add: v1_alive_def)
  next
    case (returns w p)
    then have other: "v \<noteq> w \<Longrightarrow> is_handling (worker_pc p v) = in_client s v" for v by simp
    have "\<not> is_handling (worker_pc p w)" "vs_at s w \<noteq> Hung" using returns(2,5,6) by simp_all
    with assms(2) returns(2) other show ?thesis unfolding v1_alive_def by (auto, metis+)
  qed
  then show "v1_alive n s'" "keeps_elements (vs_cache s) (vs_cache s')" by simp_all
qed

lemma v1_site_alive:
  assumes "v1_site_reach einval realloc_ok junk conns n s"
  shows "v1_alive n s" "v1_born n (vs_pool s)"
proof -
  have b: "v1_born n (vs_pool s)" if "v1_site_reach einval realloc_ok junk conns n s" for s
    using v1_reach_inv [OF v1_site_pool [OF that]] by (simp add: v1_inv_def)
  show "v1_alive n s" using assms
  proof (induction rule: v1_site_reach.induct)
    case v1_site_start
    have "linked v1_empty_cache []" by (simp add: linked_def v1_empty_cache_def)
    then show ?case by (auto simp: v1_alive_def v1_site_init_def v1_pool_init_def v1_empty_cache_def)
  next
    case (v1_site_next s s')
    from alive_step(1) [OF v1_site_next.hyps(2) v1_site_next.IH b [OF v1_site_next.hyps(1)]] show ?case .
  qed
  show "v1_born n (vs_pool s)" by (rule b [OF assms])
qed

abbreviation v1_site_run ::
  "bool \<Rightarrow> (nat \<Rightarrow> bool) \<Rightarrow> ParsedRequest \<Rightarrow> (nat \<Rightarrow> v1_conn) \<Rightarrow> nat \<Rightarrow> v1_site \<Rightarrow> v1_site \<Rightarrow> bool" where
  "v1_site_run einval realloc_ok junk conns n \<equiv> rtranclp (v1_site_step einval realloc_ok junk conns n)"

lemma v1_site_run_reach:
  assumes "v1_site_run einval realloc_ok junk conns n s s'" "v1_site_reach einval realloc_ok junk conns n s"
  shows "v1_site_reach einval realloc_ok junk conns n s'" "keeps_elements (vs_cache s) (vs_cache s')"
proof -
  have "v1_site_reach einval realloc_ok junk conns n s' \<and> keeps_elements (vs_cache s) (vs_cache s')"
    using assms(1)
  proof (induction rule: rtranclp_induct)
    case base
    with assms(2) show ?case by simp
  next
    case (step s1 s2)
    then have r: "v1_site_reach einval realloc_ok junk conns n s1" by simp
    from alive_step(2) [OF step.hyps(2) v1_site_alive [OF r]] step.IH v1_site_next [OF r step.hyps(2)]
    show ?case by (blast intro: keeps_trans)
  qed
  then show "v1_site_reach einval realloc_ok junk conns n s'" "keeps_elements (vs_cache s) (vs_cache s')" by simp_all
qed

subsection \<open>When the mutex is never released\<close>

text \<open>How many answers, and how many connections from the queue, a worker has still in it.\<close>

fun answers_left :: "bool \<Rightarrow> v1_at \<Rightarrow> nat" where
  "answers_left True (FromCache a) = 1"
| "answers_left True (Fetching t) = 1"
| "answers_left _ _ = 0"

fun takes_left :: "bool \<Rightarrow> v1_at \<Rightarrow> nat" where
  "takes_left True Receiving = 0"
| "takes_left True (LookingUp t ok) = 0"
| "takes_left True Hung = 0"
| "takes_left _ _ = 1"

definition all_left :: "(bool \<Rightarrow> v1_at \<Rightarrow> nat) \<Rightarrow> nat \<Rightarrow> v1_site \<Rightarrow> nat" where
  "all_left f n s = (\<Sum>w < n. f (in_client s w) (vs_at s w))"

lemma all_left_change:
  assumes "w < n" "\<And>v. v \<noteq> w \<Longrightarrow> in_client s' v = in_client s v \<and> vs_at s' v = vs_at s v"
  shows "all_left f n s' + f (in_client s w) (vs_at s w) = all_left f n s + f (in_client s' w) (vs_at s' w)"
  unfolding all_left_def by (rule sum_change) (use assms in auto)

lemma left_le: "answers_left b h \<le> 1" "takes_left b h \<le> 1"
  by (cases b; cases h; simp)+

text \<open>The worker that hangs has none left.\<close>

lemma all_left_less:
  assumes "\<And>b h. f b h \<le> 1" "w < n" "f (in_client s w) (vs_at s w) = 0"
  shows "all_left f n s \<le> n - 1"
proof -
  have "all_left f n s = (\<Sum>v \<in> {..<n} - {w}. f (in_client s v) (vs_at s v))"
    using sum.remove [of "{..<n}" w "\<lambda>v. f (in_client s v) (vs_at s v)"] assms(2,3) by (simp add: all_left_def)
  also have "\<dots> \<le> (\<Sum>v \<in> {..<n} - {w}. 1)" by (intro sum_mono assms(1))
  finally show ?thesis using assms(2) by simp
qed

definition spent :: "nat \<Rightarrow> v1_site \<Rightarrow> v1_site \<Rightarrow> bool" where
  "spent n s s' = (vs_cache s' = vs_cache s \<and>
     length (vs_replies s') + all_left answers_left n s' \<le> length (vs_replies s) + all_left answers_left n s \<and>
     length (taken (vs_pool s')) + all_left takes_left n s' \<le> length (taken (vs_pool s)) + all_left takes_left n s)"

text \<open>What one turn of one handler spends while the mutex is held.\<close>

lemma locked_turn:
  assumes "client_turn einval realloc_ok junk conn c h = Some (c', h', out)" "lock c" "h \<notin> {Finished, Hung}"
  shows "(if out = [] then 0 else 1) + answers_left True h' \<le> answers_left True h" "takes_left True h' \<le> takes_left True h"
  using assms by (cases h; auto simp: find_locked split: bind_splits option.splits)+

lemma spent_step:
  assumes "v1_site_step einval realloc_ok junk conns n s s'" "v1_alive n s" "v1_born n (vs_pool s)" "lock (vs_cache s)"
  shows "spent n s s'"
proof -
  from assms(2) obtain as where as: "linked (vs_cache s) as" by (auto simp: v1_alive_def)
  from assms(1,3) show ?thesis
  proof (cases rule: site_view)
    case (quiet p)
    then have "all_left f n s' = all_left f n s" for f by (simp add: all_left_def)
    with quiet show ?thesis by (simp add: spent_def)
  next
    case (takes w p)
    have "all_left f n s' + f (in_client s w) (vs_at s w) = all_left f n s + f (in_client s' w) (vs_at s' w)" for f
      by (rule all_left_change [OF takes(1)]) (use takes(2,6) in simp)
    from this [of answers_left] this [of takes_left] takes show ?thesis by (simp add: spent_def)
  next
    case (turn w a now c h out)
    have "all_left f n s' + f (in_client s w) (vs_at s w) = all_left f n s + f (in_client s' w) (vs_at s' w)" for f
      by (rule all_left_change [OF turn(1)]) (use turn(2) in simp)
    from locked_turn [OF turn(6) assms(4) turn(4)] this [of answers_left] this [of takes_left] turn(2,3)
      turn_linked(5) [OF turn(6) as turn(5) assms(4)]
    show ?thesis by (simp add: spent_def split: if_splits)
  next
    case (undef w a now)
    then show ?thesis by (simp add: spent_def all_left_def)
  next
    case (returns w p)
    have "all_left f n s' + f (in_client s w) (vs_at s w) = all_left f n s + f (in_client s' w) (vs_at s' w)" for f
      by (rule all_left_change [OF returns(1)]) (use returns(2,7) in simp)
    from this [of answers_left] this [of takes_left] returns show ?thesis by (simp add: spent_def)
  qed
qed

lemma spent_run:
  assumes "v1_site_run einval realloc_ok junk conns n s s'" "v1_site_reach einval realloc_ok junk conns n s"
    and "lock (vs_cache s)"
  shows "spent n s s'"
  using assms(1)
proof (induction rule: rtranclp_induct)
  case base
  show ?case by (simp add: spent_def)
next
  case (step s1 s2)
  then have "lock (vs_cache s1)" using assms(3) by (simp add: spent_def)
  moreover have "v1_site_reach einval realloc_ok junk conns n s1"
    by (rule v1_site_run_reach(1) [OF step.hyps(1) assms(2)])
  ultimately have "spent n s1 s2" using spent_step [OF step.hyps(2)] v1_site_alive by blast
  with step.IH show ?case by (simp add: spent_def)
qed

lemma locked_left:
  assumes "v1_alive n s" "lock (vs_cache s)"
  shows "all_left answers_left n s \<le> n - 1" "all_left takes_left n s \<le> n - 1"
proof -
  from assms obtain w where "w < n" "in_client s w" "vs_at s w = Hung" by (auto simp: v1_alive_def)
  with all_left_less [where f = answers_left, OF left_le(1), of w n s]
    all_left_less [where f = takes_left, OF left_le(2), of w n s]
  show "all_left answers_left n s \<le> n - 1" "all_left takes_left n s \<le> n - 1" by simp_all
qed

end
