(* ===== verification/V1_Clients.thy ===== *)
theory V1_Clients
  imports V1_Site
begin

text \<open>
  Clients of the first version that send well-formed requests while the sockets work, on the
  server of \<open>V1_Site\<close>: what they get while the cache has room, and how a single worker fills
  the cache until it hangs.
\<close>

subsection \<open>One such client\<close>

text \<open>
  Connection with the well-formed request r of fewer than 4096 bytes (at most 4096 when
  rewritten), to a server that answers \<open>origin\<close> of the whole text of the request and closes; the
  sockets work. The \<open>weight\<close> of the response, its bytes and packets, is below 524287, so that
  \<open>temp_buffer_size\<close>, an \<open>int\<close> that grows by 4096 with every \<open>recv\<close>, does not overflow even when the
  bytes come one by one. The uninitialised block for the request has a NUL behind it.
\<close>

definition v1_good :: "bool \<Rightarrow> (string \<Rightarrow> block) \<Rightarrow> v1_conn \<Rightarrow> request \<Rightarrow> bool" where
  "v1_good einval origin conn r = (request_ok r \<and> port_ok einval r \<and> checkHTTPversion (rq_version r) = 1 \<and>
     stream (vc_in conn) = render r \<and> length (render r) < MAX_BYTES \<and>
     length (vc_junk conn) = MAX_BYTES \<and> length (v1_text r) \<le> MAX_BYTES \<and>
     cstr (drop (length (v1_text r)) (vc_junk conn)) \<noteq> None \<and> vc_connect conn (rq_host r) (v1_port r) \<and>
     stream_end (vc_server_in conn) = Clean \<and> weight (vc_server_in conn) < 524287 \<and>
     (\<forall>k \<in> set (vc_ks conn). 4095 \<le> k) \<and> weight (vc_server_in conn) \<le> length (vc_ks conn) \<and>
     stream (vc_server_in conn) = origin (render r))"

text \<open>What is cached of a response: the string, without the NUL that ends its copy.\<close>

definition v1_cached :: "block \<Rightarrow> block" where
  "v1_cached b = takeWhile (\<lambda>c. c \<noteq> NUL) b"

lemma v1_cached_length: "length (v1_cached b) \<le> length b"
  by (simp add: v1_cached_def length_takeWhile_le)

lemma good_meets [simp]: "v1_good einval origin (v1_meets conns k a now) r = v1_good einval origin (conns k) r"
  by (simp add: v1_good_def v1_meets_def)

lemma good_receives:
  assumes "v1_good einval origin conn r"
  shows "client_turn einval realloc_ok junk conn c Receiving = Some (c, LookingUp (render r) True, [])"
proof -
  from assms have ok: "request_ok r" "stream (vc_in conn) = render r" "length (render r) < MAX_BYTES"
    by (simp_all add: v1_good_def)
  from v1_received [OF ok] obtain n where n: "first_recv (vc_in conn) = Some (Some (zero_padded (render r), n))" "0 < n"
    by blast
  have "str_at (zero_padded (render r)) 0 = Some (render r)"
    using zero_padded_str [OF render_nul [OF ok(1)]] ok(3) by simp
  with n show ?thesis by simp
qed

lemma good_fetches:
  assumes good: "v1_good einval origin conn r" and re: "\<forall>n. realloc_ok n"
  shows "\<exists>srv. v1_process einval realloc_ok junk c conn (render r) (render r @ [NUL]) =
    map_option (\<lambda>(c', x). (c', \<lparr>vr_client = origin (render r), vr_server = srv, vr_done = (x \<noteq> Blocks)\<rparr>))
      (add_cache_element c (vc_addr conn) (vc_now conn) (v1_cached (origin (render r)))
        (int (length (v1_cached (origin (render r))))) (render r))"
proof -
  note q = good [unfolded v1_good_def]
  then obtain g where g: "cstr (drop (length (v1_text r)) (vc_junk conn)) = Some g" by auto
  have ks0: "\<forall>k \<in> set (vc_ks conn). 0 \<le> k" using q by auto
  have "MAX_BYTES + weight (vc_server_in conn) * MAX_BYTES < 2147483648" using q by (simp add: MAX_BYTES_def)
  from relay_v1_spec [OF ks0 _ this, of "[]" "[]"] q obtain cap where
    "relay_v1 (vc_server_in conn) (vc_ks conn) [] MAX_BYTES [] = Some (origin (render r), cap, origin (render r), Clean)"
    "length (origin (render r)) < cap" by auto
  then have rl: "relay_response (vc_server_in conn) (vc_ks conn) =
      Some (origin (render r), Some (v1_cached (origin (render r))), Clean)"
    by (simp add: relay_response_def v1_cached_def)
  have ok: "request_ok r" using q by simp
  from v1_process_spec [of r einval realloc_ok conn g, OF ok _ re _ _ _ _ g _ rl] q
    add_cache_element_at_string [OF render_nul [OF ok]]
  show ?thesis
    by (intro exI [of _ "Some (rq_host r, v1_port r, take (nat (vc_server_k conn)) (v1_text r @ g))"]) simp
qed

subsection \<open>Adding to a well-formed cache\<close>

text \<open>What \<open>add_cache_element\<close> charges for an element.\<close>

definition v1_size :: "string \<Rightarrow> block \<Rightarrow> int" where
  "v1_size url d = int (length d + length url) + 41"

lemma add_cases:
  assumes "v1_wf c as" "a \<notin> set as" "v1_size url d < 2147483600"
  shows "\<exists>c' x. add_cache_element c a now d (int (length d)) url = Some (c', x) \<and>
    (if v1_size url d > MAX_ELEMENT_SIZE then c' = c \<and> x = Returns 0
     else if cache_size c + v1_size url d > MAX_SIZE then c' = c\<lparr>lock := True\<rparr> \<and> x = Blocks
     else x = Returns 1 \<and> v1_wf c' (a # as) \<and>
       items (mem c') (a # as) = (url, d @ [NUL], int (length d), now) # items (mem c) as)"
proof (cases "cache_size c + v1_size url d \<le> MAX_SIZE")
  case True
  with add_spec_v1 [of c as a d url now] assms show ?thesis by (fastforce simp: v1_size_def)
next
  case False
  have l: "\<not> lock c" using assms(1) by (simp add: v1_wf_def)
  show ?thesis
  proof (cases "v1_size url d > MAX_ELEMENT_SIZE")
    case True
    have "to_int32 (int (length d) + 1 + int (length url) + ELEMENT_SIZE) = v1_size url d"
      using assms(3) by (simp add: to_int32_id ELEMENT_SIZE_def v1_size_def)
    with True l show ?thesis by (simp add: add_cache_element_def Let_def unlocked_same)
  next
    case small: False
    with full_cache_blocks [of c "int (length d)" url] False l show ?thesis by (simp add: v1_size_def)
  qed
qed
subsection \<open>The invariant\<close>

text \<open>
  Every element of the list holds what the origin server answers to the text of its request; a
  handler works for the request of its own connection; \<open>may_add\<close> counts the workers that may
  still add an element for the connection they have taken. \<open>m\<close> bounds the size of an element.
\<close>

definition right_items :: "(string \<Rightarrow> block) \<Rightarrow> (string \<times> block \<times> int \<times> int) list \<Rightarrow> bool" where
  "right_items origin is = (\<forall>i \<in> set is. fst (snd i) = v1_cached (origin (it_url i)) @ [NUL] \<and>
     it_len i = int (length (v1_cached (origin (it_url i)))))"

definition v1_fine_cache :: "(string \<Rightarrow> block) \<Rightarrow> int \<Rightarrow> v1_cache \<Rightarrow> nat list \<Rightarrow> bool" where
  "v1_fine_cache origin m c as = (v1_wf (c\<lparr>lock := False\<rparr>) as \<and> cache_size c \<le> m * int (length as) \<and>
     right_items origin (items (mem c) as))"

fun for_request :: "v1_cache \<Rightarrow> string \<Rightarrow> v1_at \<Rightarrow> bool" where
  "for_request c t (LookingUp u ok) = (u = t \<and> ok)"
| "for_request c t (FromCache a) = (\<exists>e. mem c a = Some e \<and> el_url e = t)"
| "for_request c t (Fetching u) = (u = t)"
| "for_request c t _ = True"

fun may_add :: "bool \<Rightarrow> v1_at \<Rightarrow> nat" where
  "may_add True Receiving = 1"
| "may_add True (LookingUp t ok) = 1"
| "may_add True (Fetching t) = 1"
| "may_add _ _ = 0"

lemma for_request_kept: "for_request c t h \<Longrightarrow> keeps_elements c c' \<Longrightarrow> for_request c' t h"
  by (cases h) (fastforce simp: keeps_elements_def)+

lemma fine_find:
  assumes "v1_fine_cache origin m c as" "\<not> lock c"
  shows "\<exists>c' r. v1_find c t now = Some (Returns (c', r)) \<and> v1_fine_cache origin m c' as \<and> \<not> lock c' \<and>
    (\<forall>a. r = Some a \<longrightarrow> (\<exists>e. mem c' a = Some e \<and> el_url e = t))"
proof -
  from assms have wf: "v1_wf c as" and cs: "cache_size c \<le> m * int (length as)"
    and ri: "right_items origin (items (mem c) as)" by (simp_all add: v1_fine_cache_def unlocked_same)
  define r where "r = List.find (\<lambda>a. it_url (item (mem c a)) = t) as"
  define f where "f = (\<lambda>a. if r = Some a
      then (it_url (item (mem c a)), fst (snd (item (mem c a))), it_len (item (mem c a)), now) else item (mem c a))"
  from find_spec_v1 [OF wf, of t now] obtain c' r0 where
    c': "v1_find c t now = Some (Returns (c', r0))" "v1_wf c' as" and r0: "r0 = r" and
    im: "items (mem c') as = map (\<lambda>a. if r0 = Some a
      then (it_url (item (mem c a)), fst (snd (item (mem c a))), it_len (item (mem c a)), now) else item (mem c a)) as"
    by (elim exE conjE) (rule that, assumption, assumption, simp only: r_def, assumption)
  have im: "items (mem c') as = map f as" using im unfolding r0 f_def .
  note c' = c' [unfolded r0]
  have same: "it_url (f a) = it_url (item (mem c a))" "fst (snd (f a)) = fst (snd (item (mem c a)))"
    "it_len (f a) = it_len (item (mem c a))" for a by (simp_all add: f_def)
  have "right_items origin (items (mem c') as)"
    using ri unfolding im by (simp add: right_items_def same items_def)
  moreover have "cache_size c' = cache_size c"
    using c'(1) by (auto simp: v1_find_def split: if_splits bind_splits option.splits)
  moreover have l: "\<not> lock c'" using c'(2) by (simp add: v1_wf_def)
  ultimately have fine: "v1_fine_cache origin m c' as"
    using c'(2) cs by (simp add: v1_fine_cache_def unlocked_same)
  have "\<exists>e. mem c' a = Some e \<and> el_url e = t" if "r = Some a" for a
  proof -
    note a = find_SomeD [OF that [unfolded r_def]]
    have "item (mem c' a) = f a" using im a(1) by (simp add: items_def)
    with same(1) a(2) have "it_url (item (mem c' a)) = t" by simp
    moreover obtain e where "mem c' a = Some e" using v1_wf_mem [OF c'(2) a(1)] by blast
    ultimately show ?thesis by simp
  qed
  with c'(1) fine l show ?thesis by blast
qed

lemma fine_sends:
  assumes "v1_fine_cache origin m c as" "mem c a = Some e" "NUL \<notin> set (origin (el_url e))"
    and "length (origin (el_url e)) mod 4096 = 0"
  shows "send_cached (el_data e) (nat (el_len e)) 0 = Some (origin (el_url e))"
proof -
  have "a \<in> set as" using assms(1,2) by (auto simp: v1_fine_cache_def v1_wf_def)
  then have "item (Some e) \<in> set (items (mem c) as)" using assms(2) by (force simp: items_def)
  then have e: "el_data e = v1_cached (origin (el_url e)) @ [NUL]" "el_len e = int (length (v1_cached (origin (el_url e))))"
    using assms(1) by (auto simp: v1_fine_cache_def right_items_def)
  have "v1_cached (origin (el_url e)) = origin (el_url e)"
    using assms(3) by (auto simp: v1_cached_def takeWhile_eq_all_conv)
  with e assms(4) send_cached_spec [of "origin (el_url e) @ [NUL]" "length (origin (el_url e))" 0] show ?thesis by simp
qed

lemma fine_add:
  assumes "v1_fine_cache origin m c as" "\<not> lock c" "mem c a = None" "v1_size t (origin t) \<le> m" "m < 2147483600"
  shows "\<exists>c' x as'. add_cache_element c a now (v1_cached (origin t)) (int (length (v1_cached (origin t)))) t = Some (c', x) \<and>
    v1_fine_cache origin m c' as' \<and> length as' \<le> Suc (length as) \<and>
    (m * (int (length as) + 1) \<le> MAX_SIZE \<longrightarrow> \<not> lock c' \<and> x \<noteq> Blocks)"
proof -
  let ?d = "v1_cached (origin t)"
  from assms(1,2) have wf: "v1_wf c as" and cs: "cache_size c \<le> m * int (length as)"
    and ri: "right_items origin (items (mem c) as)" by (simp_all add: v1_fine_cache_def unlocked_same)
  have a: "a \<notin> set as" using wf assms(3) by (auto simp: v1_wf_def)
  have sz: "v1_size t ?d \<le> m" "0 \<le> v1_size t ?d"
    using assms(4) v1_cached_length [of "origin t"] by (simp_all add: v1_size_def)
  then have "v1_size t ?d < 2147483600" using assms(5) by simp
  from add_cases [OF wf a this, of now] obtain c' x where
    ad: "add_cache_element c a now ?d (int (length ?d)) t = Some (c', x)" and
    r: "if v1_size t ?d > MAX_ELEMENT_SIZE then c' = c \<and> x = Returns 0
     else if cache_size c + v1_size t ?d > MAX_SIZE then c' = c\<lparr>lock := True\<rparr> \<and> x = Blocks
     else x = Returns 1 \<and> v1_wf c' (a # as) \<and>
       items (mem c') (a # as) = (t, ?d @ [NUL], int (length ?d), now) # items (mem c) as" by blast
  consider "c' = c" "x = Returns 0"
    | "c' = c\<lparr>lock := True\<rparr>" "x = Blocks" "cache_size c + v1_size t ?d > MAX_SIZE"
    | "x = Returns 1" "v1_wf c' (a # as)" "items (mem c') (a # as) = (t, ?d @ [NUL], int (length ?d), now) # items (mem c) as"
    using r by (auto split: if_splits)
  then show ?thesis
  proof cases
    case 1
    with ad assms(1,2) show ?thesis by (intro exI [of _ c'] exI [of _ x] exI [of _ as]) simp
  next
    case 2
    have "v1_fine_cache origin m c' as" using assms(1) 2(1) by (simp add: v1_fine_cache_def)
    moreover have "MAX_SIZE < m * (int (length as) + 1)" using 2(3) cs sz(1) by (simp add: algebra_simps)
    ultimately show ?thesis using ad by (intro exI [of _ c'] exI [of _ x] exI [of _ as]) simp
  next
    case 3
    have "cache_size c' = charge ((t, ?d @ [NUL], int (length ?d), now) # items (mem c) as)"
      using 3(2,3) by (simp add: v1_wf_def)
    also have "\<dots> = v1_size t ?d + cache_size c"
      using wf by (simp add: charge_Cons v1_size_def ELEMENT_SIZE_def v1_wf_def)
    finally have "cache_size c' \<le> m * int (length (a # as))" using cs sz(1) by (simp add: algebra_simps)
    moreover have l: "\<not> lock c'" using 3(2) by (simp add: v1_wf_def)
    moreover have "right_items origin (items (mem c') (a # as))" unfolding 3(3) using ri by (simp add: right_items_def)
    ultimately have "v1_fine_cache origin m c' (a # as)" using 3(2) by (simp add: v1_fine_cache_def unlocked_same)
    with ad l 3(1) show ?thesis by (intro exI [of _ c'] exI [of _ x] exI [of _ "a # as"]) simp
  qed
qed

text \<open>One turn of a handler whose connection is good.\<close>

definition v1_whole :: "block \<Rightarrow> bool" where
  "v1_whole b = (NUL \<notin> set b \<and> length b mod 4096 = 0)"

text \<open>The turn that looks the request up, and the one that fetches it.\<close>

lemma fine_lookup:
  assumes "v1_fine_cache origin m c as"
  shows "\<exists>c' h'. client_turn einval realloc_ok junk conn c (LookingUp t True) = Some (c', h', []) \<and>
    v1_fine_cache origin m c' as \<and> may_add True h' \<le> 1 \<and> for_request c' t h' \<and>
    (\<not> lock c \<longrightarrow> \<not> lock c' \<and> h' \<noteq> Hung)"
proof (cases "lock c")
  case True
  with assms show ?thesis
    by (intro exI [of _ c] exI [of _ Hung]) (simp add: find_locked)
next
  case False
  from fine_find [OF assms False, of t "vc_now conn"] obtain c' r where
    f: "v1_find c t (vc_now conn) = Some (Returns (c', r))" "v1_fine_cache origin m c' as" "\<not> lock c'"
      "\<forall>a. r = Some a \<longrightarrow> (\<exists>e. mem c' a = Some e \<and> el_url e = t)" by blast
  let ?h = "case r of None \<Rightarrow> Fetching t | Some a \<Rightarrow> FromCache a"
  show ?thesis using f by (intro exI [of _ c'] exI [of _ ?h]) (cases r; simp)
qed

lemma fine_fetch:
  assumes "v1_fine_cache origin m c as" "v1_good einval origin conn r" "\<forall>n. realloc_ok n" "t = render r"
    and "v1_size t (origin t) \<le> m" "m < 2147483600" "mem c (vc_addr conn) = None"
  shows "\<exists>c' h' as'. client_turn einval realloc_ok junk conn c (Fetching t) = Some (c', h', origin t) \<and>
    h' \<in> {Finished, Hung} \<and> v1_fine_cache origin m c' as' \<and> length as' \<le> Suc (length as) \<and>
    (\<not> lock c \<and> m * (int (length as) + 1) \<le> MAX_SIZE \<longrightarrow> \<not> lock c' \<and> h' \<noteq> Hung)"
proof -
  let ?d = "v1_cached (origin t)"
  from good_fetches [OF assms(2,3)] obtain srv where
    p: "v1_process einval realloc_ok junk c conn t (t @ [NUL]) =
      map_option (\<lambda>(c', x). (c', \<lparr>vr_client = origin t, vr_server = srv, vr_done = (x \<noteq> Blocks)\<rparr>))
        (add_cache_element c (vc_addr conn) (vc_now conn) ?d (int (length ?d)) t)"
    unfolding assms(4) by blast
  show ?thesis
  proof (cases "lock c")
    case True
    then have "add_cache_element c (vc_addr conn) (vc_now conn) ?d (int (length ?d)) t = Some (c, Blocks)"
      by (simp add: add_cache_element_def)
    with True p assms(1) show ?thesis
      by (intro exI [of _ c] exI [of _ Hung] exI [of _ as]) simp
  next
    case False
    from fine_add [OF assms(1) False assms(7,5,6), of "vc_now conn"] obtain c' x as' where
      a: "add_cache_element c (vc_addr conn) (vc_now conn) ?d (int (length ?d)) t = Some (c', x)"
        "v1_fine_cache origin m c' as'" "length as' \<le> Suc (length as)"
        "m * (int (length as) + 1) \<le> MAX_SIZE \<longrightarrow> \<not> lock c' \<and> x \<noteq> Blocks" by blast
    show ?thesis using a p
      by (intro exI [of _ c'] exI [of _ "if x \<noteq> Blocks then Finished else Hung"] exI [of _ as']) simp
  qed
qed

lemma fine_turn:
  assumes "v1_fine_cache origin m c as" "v1_good einval origin conn r" "\<forall>n. realloc_ok n" "t = render r"
    and "h \<notin> {Finished, Hung}" "for_request c t h" "v1_whole (origin t)" "v1_size t (origin t) \<le> m" "m < 2147483600"
    and "mem c (vc_addr conn) = None"
  shows "\<exists>c' h' out as'. client_turn einval realloc_ok junk conn c h = Some (c', h', out) \<and>
    v1_fine_cache origin m c' as' \<and> length as' + may_add True h' \<le> length as + may_add True h \<and>
    for_request c' t h' \<and> (out \<noteq> [] \<longrightarrow> out = origin t) \<and>
    (\<not> lock c \<and> m * int (length as + may_add True h) \<le> MAX_SIZE \<longrightarrow> \<not> lock c' \<and> h' \<noteq> Hung)"
proof (cases h)
  case Receiving
  show ?thesis unfolding Receiving good_receives [OF assms(2)] using assms(1,4)
    by (intro exI [of _ c] exI [of _ "LookingUp t True"] exI [of _ "[]"] exI [of _ as]) simp
next
  case (LookingUp u ok)
  with assms(6) have h: "h = LookingUp t True" by simp
  from fine_lookup [OF assms(1)] obtain c' h' where
    "client_turn einval realloc_ok junk conn c h = Some (c', h', [])" "v1_fine_cache origin m c' as"
    "may_add True h' \<le> 1" "for_request c' t h'" "\<not> lock c \<longrightarrow> \<not> lock c' \<and> h' \<noteq> Hung" unfolding h by blast
  then show ?thesis unfolding h
    by (intro exI [of _ c'] exI [of _ h'] exI [of _ "[]"] exI [of _ as]) simp
next
  case (FromCache a)
  with assms(6) obtain e where e: "mem c a = Some e" "el_url e = t" by auto
  with assms(7) have "send_cached (el_data e) (nat (el_len e)) 0 = Some (origin t)"
    using fine_sends [OF assms(1) e(1)] by (simp add: v1_whole_def)
  with FromCache e assms(1) show ?thesis
    by (intro exI [of _ c] exI [of _ Finished] exI [of _ "origin t"] exI [of _ as]) simp
next
  case (Fetching u)
  with assms(6) have h: "h = Fetching t" by simp
  from fine_fetch [OF assms(1-4,8-10)] obtain c' h' as' where
    "client_turn einval realloc_ok junk conn c h = Some (c', h', origin t)" "h' \<in> {Finished, Hung}"
    "v1_fine_cache origin m c' as'" "length as' \<le> Suc (length as)"
    "\<not> lock c \<and> m * (int (length as) + 1) \<le> MAX_SIZE \<longrightarrow> \<not> lock c' \<and> h' \<noteq> Hung" unfolding h by blast
  then show ?thesis unfolding h
    by (intro exI [of _ c'] exI [of _ h'] exI [of _ "origin t"] exI [of _ as']) (auto simp: add.commute)
qed (use assms(5) in simp_all)

subsection \<open>All clients\<close>

definition v1_fine ::
  "(string \<Rightarrow> block) \<Rightarrow> (nat \<Rightarrow> request) \<Rightarrow> int \<Rightarrow> nat \<Rightarrow> v1_site \<Rightarrow> bool" where
  "v1_fine origin r m n s = (\<not> vs_undefined s \<and>
     (\<exists>as. v1_fine_cache origin m (vs_cache s) as \<and>
        length as + all_left may_add n s \<le> length (taken (vs_pool s))) \<and>
     (\<forall>w < n. in_client s w \<longrightarrow> for_request (vs_cache s) (render (r (vs_conn s w))) (vs_at s w)) \<and>
     (\<forall>(k, out) \<in> set (vs_replies s). out = origin (render (r k))) \<and>
     (m * int (length (taken (vs_pool s))) \<le> MAX_SIZE \<longrightarrow>
        \<not> lock (vs_cache s) \<and> (\<forall>w < n. in_client s w \<longrightarrow> vs_at s w \<noteq> Hung)))"

lemma fineD:
  assumes "v1_fine origin r m n s"
  shows "\<not> vs_undefined s"
    "\<exists>as. v1_fine_cache origin m (vs_cache s) as \<and> length as + all_left may_add n s \<le> length (taken (vs_pool s))"
    "w < n \<Longrightarrow> in_client s w \<Longrightarrow> for_request (vs_cache s) (render (r (vs_conn s w))) (vs_at s w)"
    "(k, out) \<in> set (vs_replies s) \<Longrightarrow> out = origin (render (r k))"
    "m * int (length (taken (vs_pool s))) \<le> MAX_SIZE \<Longrightarrow> \<not> lock (vs_cache s)"
    "m * int (length (taken (vs_pool s))) \<le> MAX_SIZE \<Longrightarrow> w < n \<Longrightarrow> in_client s w \<Longrightarrow> vs_at s w \<noteq> Hung"
  using assms by (auto simp: v1_fine_def)

lemma fine_takes:
  assumes "v1_fine origin r m n s" "0 \<le> m" "w < n" "\<not> in_client s w" "in_client s' w"
    and "\<And>v. v \<noteq> w \<Longrightarrow> in_client s' v = in_client s v"
    and "s' = s\<lparr>vs_pool := p, vs_at := (vs_at s)(w := Receiving), vs_conn := (vs_conn s)(w := k)\<rparr>"
    and "length (taken p) = Suc (length (taken (vs_pool s)))"
  shows "v1_fine origin r m n s'"
  unfolding v1_fine_def
proof (intro conjI allI impI)
  have "all_left may_add n s' + may_add (in_client s w) (vs_at s w) = all_left may_add n s + may_add (in_client s' w) (vs_at s' w)"
    by (rule all_left_change [OF assms(3)]) (use assms(6,7) in simp)
  then have cnt: "all_left may_add n s' = Suc (all_left may_add n s)" using assms(4,5,7) by simp
  have le: "m * int (length (taken (vs_pool s))) \<le> m * int (length (taken (vs_pool s')))"
    using assms(2,7,8) by (simp add: mult_left_mono)
  show "\<exists>as. v1_fine_cache origin m (vs_cache s') as \<and> length as + all_left may_add n s' \<le> length (taken (vs_pool s'))"
    using fineD(2) [OF assms(1)] cnt assms(7,8) by auto
  show "for_request (vs_cache s') (render (r (vs_conn s' v))) (vs_at s' v)" if "v < n" "in_client s' v" for v
    using fineD(3) [OF assms(1) that(1)] that(2) assms(6,7) by (cases "v = w") simp_all
  show "vs_at s' v \<noteq> Hung" if "m * int (length (taken (vs_pool s'))) \<le> MAX_SIZE" "v < n" "in_client s' v" for v
    using fineD(6) [OF assms(1) _ that(2)] that le assms(6,7) by (cases "v = w") simp_all
  show "\<not> lock (vs_cache s')" if "m * int (length (taken (vs_pool s'))) \<le> MAX_SIZE"
    using fineD(5) [OF assms(1)] that le assms(7) by simp
qed (use assms(1,7) in \<open>simp_all add: v1_fine_def\<close>)

lemma fine_turns:
  assumes "v1_fine origin r m n s" "0 \<le> m" "w < n" "in_client s w"
    and "s' = s\<lparr>vs_cache := c, vs_at := (vs_at s)(w := h),
        vs_replies := (if out = [] then vs_replies s else (vs_conn s w, out) # vs_replies s)\<rparr>"
    and "v1_fine_cache origin m (vs_cache s) as" "length as + all_left may_add n s \<le> length (taken (vs_pool s))"
    and "v1_fine_cache origin m c as'" "length as' + may_add True h \<le> length as + may_add True (vs_at s w)"
    and "for_request c (render (r (vs_conn s w))) h" "out \<noteq> [] \<longrightarrow> out = origin (render (r (vs_conn s w)))"
    and "\<not> lock (vs_cache s) \<and> m * int (length as + may_add True (vs_at s w)) \<le> MAX_SIZE \<longrightarrow> \<not> lock c \<and> h \<noteq> Hung"
    and "keeps_elements (vs_cache s) c"
  shows "v1_fine origin r m n s'"
  unfolding v1_fine_def
proof (intro conjI allI impI)
  have ch: "all_left may_add n s' + may_add (in_client s w) (vs_at s w) = all_left may_add n s + may_add (in_client s' w) (vs_at s' w)"
    by (rule all_left_change [OF assms(3)]) (use assms(5) in simp)
  show "\<exists>as. v1_fine_cache origin m (vs_cache s') as \<and> length as + all_left may_add n s' \<le> length (taken (vs_pool s'))"
    using ch assms(4,5,7,8,9) by (intro exI [of _ as']) simp
  show "for_request (vs_cache s') (render (r (vs_conn s' v))) (vs_at s' v)" if "v < n" "in_client s' v" for v
    using for_request_kept [OF fineD(3) [OF assms(1) that(1)] assms(13)] that(2) assms(5,10) by (cases "v = w") simp_all
  have "may_add True (vs_at s w) \<le> all_left may_add n s"
    unfolding all_left_def using member_le_sum [of w "{..<n}" "\<lambda>v. may_add (in_client s v) (vs_at s v)"] assms(3,4) by simp
  then have "length as + may_add True (vs_at s w) \<le> length (taken (vs_pool s))" using assms(7) by simp
  then have "m * int (length as + may_add True (vs_at s w)) \<le> m * int (length (taken (vs_pool s)))"
    using assms(2) by (simp only: mult_left_mono of_nat_le_iff)
  then have room: "\<not> lock c \<and> h \<noteq> Hung" if "m * int (length (taken (vs_pool s))) \<le> MAX_SIZE"
    using assms(12) fineD(5) [OF assms(1) that] that by simp
  show "vs_at s' v \<noteq> Hung" if "m * int (length (taken (vs_pool s'))) \<le> MAX_SIZE" "v < n" "in_client s' v" for v
    using fineD(6) [OF assms(1) _ that(2)] that room assms(5) by (cases "v = w") simp_all
  show "\<not> lock (vs_cache s')" if "m * int (length (taken (vs_pool s'))) \<le> MAX_SIZE"
    using room that assms(5) by simp
  show "\<forall>(k, out) \<in> set (vs_replies s'). out = origin (render (r k))"
    using assms(1,5,11) by (auto simp: v1_fine_def)
qed (use assms(1,5) in \<open>simp add: v1_fine_def\<close>)

lemma fine_step:
  assumes "v1_site_step einval realloc_ok junk conns n s s'" "v1_fine origin r m n s" "v1_born n (vs_pool s)"
    and "\<And>k. v1_good einval origin (conns k) (r k)" "\<forall>n. realloc_ok n"
    and "\<And>k. v1_whole (origin (render (r k)))" "\<And>k. v1_size (render (r k)) (origin (render (r k))) \<le> m" "m < 2147483600"
  shows "v1_fine origin r m n s'"
proof -
  from fineD(2) [OF assms(2)] obtain as where
    as: "v1_fine_cache origin m (vs_cache s) as" "length as + all_left may_add n s \<le> length (taken (vs_pool s))" by blast
  have m0: "0 \<le> m" using assms(7) [of 0] by (simp add: v1_size_def)
  note f = fine_turn [where junk = junk, OF as(1) _ assms(5) refl _ _ assms(6,7,8)]
  from assms(1,3) show ?thesis
  proof (cases rule: site_view)
    case (quiet p)
    then have "\<And>v. is_handling (worker_pc p v) = in_client s v" by simp
    with assms(2) quiet show ?thesis by (simp add: v1_fine_def all_left_def)
  next
    case (takes w p)
    show ?thesis by (rule fine_takes [OF assms(2) m0 takes(1,4,5,6,2,3)])
  next
    case (turn w a now c h out)
    have good: "v1_good einval origin (v1_meets conns (vs_conn s w) a now) (r (vs_conn s w))" using assms(4) by simp
    have lk: "linked (vs_cache s) as" using as(1) by (simp add: v1_fine_cache_def v1_wf_def linked_def)
    from f [OF good turn(4) fineD(3) [OF assms(2) turn(1,3)] turn(5)] obtain as' where
      "v1_fine_cache origin m c as'" "length as' + may_add True h \<le> length as + may_add True (vs_at s w)"
      "for_request c (render (r (vs_conn s w))) h" "out \<noteq> [] \<longrightarrow> out = origin (render (r (vs_conn s w)))"
      "\<not> lock (vs_cache s) \<and> m * int (length as + may_add True (vs_at s w)) \<le> MAX_SIZE \<longrightarrow> \<not> lock c \<and> h \<noteq> Hung"
      unfolding turn(6) by auto
    from fine_turns [OF assms(2) m0 turn(1,3,2) as this turn_linked(2) [OF turn(6) lk turn(5)]] show ?thesis .
  next
    case (undef w a now)
    have good: "v1_good einval origin (v1_meets conns (vs_conn s w) a now) (r (vs_conn s w))" using assms(4) by simp
    from f [OF good undef(4) fineD(3) [OF assms(2) undef(1,3)] undef(5)] undef(6) show ?thesis by auto
  next
    case (returns w p)
    have "all_left may_add n s' + may_add (in_client s w) (vs_at s w) = all_left may_add n s + may_add (in_client s' w) (vs_at s' w)"
      by (rule all_left_change [OF returns(1)]) (use returns(2,7) in simp)
    then have cnt: "all_left may_add n s' = all_left may_add n s" using returns(4,5,6) by simp
    have in_old: "in_client s v" if "in_client s' v" for v using that returns(6,7) by (cases "v = w") auto
    show ?thesis
      using assms(2) cnt in_old returns(2,3) by (simp add: v1_fine_def)
  qed
qed

lemma fine_reach:
  assumes "v1_site_reach einval realloc_ok junk conns n s"
    and "\<And>k. v1_good einval origin (conns k) (r k)" "\<forall>n. realloc_ok n"
    and "\<And>k. v1_whole (origin (render (r k)))" "\<And>k. v1_size (render (r k)) (origin (render (r k))) \<le> m" "m < 2147483600"
  shows "v1_fine origin r m n s"
  using assms(1)
proof (induction rule: v1_site_reach.induct)
  case v1_site_start
  have "v1_wf v1_empty_cache []" unfolding v1_empty_cache_def by (rule v1_empty)
  then have "v1_fine_cache origin m v1_empty_cache []"
    by (simp add: v1_fine_cache_def v1_empty_cache_def right_items_def items_def)
  then show ?case
    by (auto simp: v1_fine_def v1_site_init_def v1_pool_init_def all_left_def v1_empty_cache_def)
next
  case (v1_site_next s s')
  from fine_step [OF v1_site_next.hyps(2) v1_site_next.IH v1_site_alive(2) [OF v1_site_next.hyps(1)] assms(2-6)]
  show ?case .
qed

end
