(* ===== verification/V1_Fill.thy ===== *)
theory V1_Fill
  imports V1_Clients
begin

text \<open>
  Runs of the first version: a single worker serves one client after the other until the cache
  is full and it hangs in \<open>add_cache_element\<close> with the mutex held. With them, the properties of
  \<open>V1_Site\<close> and \<open>V1_Clients\<close>.
\<close>

subsection \<open>Serving one client after the other\<close>

text \<open>All threads are created, and k clients have been served, all on socket 5.\<close>

definition idle_pool :: "nat \<Rightarrow> nat \<Rightarrow> v1_pool" where
  "idle_pool n k = \<lparr>vq = queue_init, queue_lock = None, worker_pc = (\<lambda>w. if w < n then Dequeueing else Unborn),
     main_pc = Accepting, accepted = replicate k 5, taken = replicate k 5, handled = replicate k 5\<rparr>"

text \<open>The first worker has taken the next client.\<close>

definition serving_pool :: "nat \<Rightarrow> nat \<Rightarrow> v1_pool" where
  "serving_pool n k = (idle_pool n k)\<lparr>worker_pc := (worker_pc (idle_pool n k))(0 := Handling 5),
     accepted := replicate (Suc k) 5, taken := replicate (Suc k) 5\<rparr>"

definition v1_idle ::
  "bool \<Rightarrow> (nat \<Rightarrow> bool) \<Rightarrow> ParsedRequest \<Rightarrow> (nat \<Rightarrow> v1_conn) \<Rightarrow> nat \<Rightarrow> nat \<Rightarrow> v1_cache \<Rightarrow> bool" where
  "v1_idle einval realloc_ok junk conns n k c = (\<exists>s. v1_site_reach einval realloc_ok junk conns n s \<and>
     vs_pool s = idle_pool n k \<and> vs_cache s = c \<and> \<not> vs_undefined s)"

definition v1_serving ::
  "bool \<Rightarrow> (nat \<Rightarrow> bool) \<Rightarrow> ParsedRequest \<Rightarrow> (nat \<Rightarrow> v1_conn) \<Rightarrow> nat \<Rightarrow> nat \<Rightarrow> v1_cache \<Rightarrow> v1_at \<Rightarrow> bool" where
  "v1_serving einval realloc_ok junk conns n k c h = (\<exists>s. v1_site_reach einval realloc_ok junk conns n s \<and>
     vs_pool s = serving_pool n k \<and> vs_cache s = c \<and> vs_at s 0 = h \<and> vs_conn s 0 = k \<and> \<not> vs_undefined s)"

lemma replicate_snoc: "replicate k x @ [x] = replicate (Suc k) x"
  by (simp add: replicate_append_same)

text \<open>A step of the pool outside \<open>handle_client\<close>, from a state in which no worker is inside.\<close>

lemma pool_reach:
  assumes "v1_site_reach einval realloc_ok junk conns n s" "\<not> vs_undefined s" "main_pc (vs_pool s) \<noteq> Exited"
    and "v1_step n (vs_pool s) t p" "taken p = taken (vs_pool s)" "\<And>w. \<not> in_client s w"
  shows "v1_site_reach einval realloc_ok junk conns n (s\<lparr>vs_pool := p\<rparr>)"
  by (rule v1_site_next [OF assms(1) pool_alone [OF _ assms(4,5)]]) (use assms(2,3,6) in \<open>simp_all add: v1_up_def\<close>)

lemma idle_start: "v1_idle einval realloc_ok junk conns n 0 v1_empty_cache"
proof -
  define p where "p = (\<lambda>i. v1_pool_init\<lparr>worker_pc := (\<lambda>w. if w < i then Dequeueing else Unborn), main_pc := Creating i\<rparr>)"
  let ?s = "\<lambda>i. v1_site_init\<lparr>vs_pool := p i\<rparr>"
  have no: "\<not> in_client (?s i) w" for i w by (simp add: p_def)
  have created: "v1_site_reach einval realloc_ok junk conns n (?s i)" if "i \<le> n" for i
    using that
  proof (induction i)
    case 0
    have "?s 0 = v1_site_init" by (simp add: p_def v1_site_init_def v1_pool_init_def)
    then show ?case by (simp only: v1_site_start)
  next
    case (Suc i)
    have f: "(\<lambda>w. if w < Suc i then Dequeueing else Unborn) = (\<lambda>w. if w < i then Dequeueing else Unborn)(i := Dequeueing)"
      by (auto simp: fun_eq_iff)
    have "main_thread n (p i) (p (Suc i))"
      using main_thread.create_thread [of "p i" i n] Suc.prems f by (simp add: p_def)
    then have "v1_step n (vs_pool (?s i)) (Some Main) (p (Suc i))" by (simp add: v1_step.main)
    from pool_reach [OF _ _ _ this] Suc no show ?case by (simp add: p_def v1_site_init_def)
  qed
  have "main_thread n (p n) (idle_pool n 0)"
    using main_thread.all_created [of "p n" n n] by (simp add: p_def idle_pool_def v1_pool_init_def)
  then have "v1_step n (vs_pool (?s n)) (Some Main) (idle_pool n 0)" by (simp add: v1_step.main)
  from pool_reach [OF created [of n] _ _ this] no
  have "v1_site_reach einval realloc_ok junk conns n (?s n\<lparr>vs_pool := idle_pool n 0\<rparr>)"
    by (simp add: p_def v1_site_init_def v1_pool_init_def idle_pool_def)
  then show ?thesis unfolding v1_idle_def by (intro exI conjI) (assumption, simp_all add: v1_site_init_def)
qed

lemma idle_takes:
  assumes "v1_idle einval realloc_ok junk conns n k c" "0 < n"
  shows "v1_serving einval realloc_ok junk conns n k c Receiving"
proof -
  from assms(1) obtain s where s: "v1_site_reach einval realloc_ok junk conns n s" "vs_pool s = idle_pool n k"
    "vs_cache s = c" "\<not> vs_undefined s" by (auto simp: v1_idle_def)
  have wp: "\<not> is_handling (worker_pc (idle_pool n k) w)" "worker_pc (idle_pool n k) 0 = Dequeueing"
    "worker_pc (idle_pool n k) w \<noteq> Asleep" for w using assms(2) by (simp_all add: idle_pool_def)
  let ?q = "\<lparr>qmem = [0 \<mapsto> \<lparr>client_socket = 5, next_node = None\<rparr>], queue_head = Some 0, queue_tail = Some 0\<rparr>"
  let ?p0 = "idle_pool n k" and ?acc = "replicate (Suc k) 5"
  let ?p1 = "?p0\<lparr>main_pc := Enqueueing 5, accepted := ?acc\<rparr>"
  let ?p2 = "?p0\<lparr>main_pc := Signalling, queue_lock := Some Main, vq := ?q, accepted := ?acc\<rparr>"
  let ?p3 = "?p2\<lparr>main_pc := Unlocking\<rparr>"
  let ?p4 = "?p0\<lparr>vq := ?q, accepted := ?acc\<rparr>"
  let ?p5 = "?p4\<lparr>worker_pc := (worker_pc ?p0)(0 := Testing), queue_lock := Some (Worker 0)\<rparr>"
  note step = pool_reach [where conns = conns and einval = einval and junk = junk and realloc_ok = realloc_ok and n = n]
  have "main_thread n ?p0 ?p1"
    using main_thread.accept_client [of ?p0 5 n] by (simp add: idle_pool_def replicate_snoc)
  from step [OF s(1) s(4) _ v1_step.main, of ?p1] this s(2) wp
  have r1: "v1_site_reach einval realloc_ok junk conns n (s\<lparr>vs_pool := ?p1\<rparr>)" by (simp add: idle_pool_def)
  have "main_thread n ?p1 ?p2"
    using main_thread.link_node [of ?p1 5 0 ?q n] by (simp add: idle_pool_def queue_init_def enqueue_def)
  from step [OF r1 _ _ v1_step.main, of ?p2] this s(4) wp
  have r2: "v1_site_reach einval realloc_ok junk conns n (s\<lparr>vs_pool := ?p2\<rparr>)" by (simp add: idle_pool_def)
  have "main_thread n ?p2 ?p3" using main_thread.signal_nobody [of ?p2 n] wp by simp
  from step [OF r2 _ _ v1_step.main, of ?p3] this s(4) wp
  have r3: "v1_site_reach einval realloc_ok junk conns n (s\<lparr>vs_pool := ?p3\<rparr>)" by (simp add: idle_pool_def)
  have "main_thread n ?p3 ?p4" using main_thread.unlock_queue [of ?p3 n] by (simp add: idle_pool_def)
  from step [OF r3 _ _ v1_step.main, of ?p4] this s(4) wp
  have r4: "v1_site_reach einval realloc_ok junk conns n (s\<lparr>vs_pool := ?p4\<rparr>)" by (simp add: idle_pool_def)
  have "worker_thread n ?p4 0 ?p5"
    using worker_thread.lock_queue [of 0 n ?p4] assms(2) wp(2) by (simp add: idle_pool_def)
  then have "v1_step n (vs_pool (s\<lparr>vs_pool := ?p4\<rparr>)) (Some (Worker 0)) ?p5"
    by (simp add: v1_step.worker idle_pool_def)
  from step [OF r4 _ _ this] s(4) wp
  have r5: "v1_site_reach einval realloc_ok junk conns n (s\<lparr>vs_pool := ?p5\<rparr>)" by (simp add: idle_pool_def)
  have dq: "dequeue ?q = Some (queue_init, Some 5)" by (simp add: dequeue_def queue_init_def)
  have "worker_thread n ?p5 0 (serving_pool n k)"
    using worker_thread.take_socket [of 0 n ?p5 queue_init 5] assms(2) dq
    by (simp add: idle_pool_def serving_pool_def replicate_snoc)
  then have "v1_step n ?p5 (Some (Worker 0)) (serving_pool n k)" by (intro v1_step.worker) (simp_all add: idle_pool_def)
  then have "v1_site_step einval realloc_ok junk conns n (s\<lparr>vs_pool := ?p5\<rparr>) ((s\<lparr>vs_pool := ?p5\<rparr>)\<lparr>
      vs_pool := serving_pool n k, vs_at := (vs_at s)(0 := Receiving), vs_conn := (vs_conn s)(0 := k)\<rparr>)"
    using takes_client [where s = "s\<lparr>vs_pool := ?p5\<rparr>" and w = 0 and p = "serving_pool n k" and n = n] s(4)
    by (simp add: v1_up_def idle_pool_def serving_pool_def)
  from v1_site_next [OF r5 this] s(3,4) show ?thesis
    unfolding v1_serving_def by (intro exI conjI) (assumption, simp_all)
qed

lemma serving_turn:
  assumes "v1_serving einval realloc_ok junk conns n k c h" "0 < n" "h \<notin> {Finished, Hung}" "mem c a = None"
    and "client_turn einval realloc_ok junk (v1_meets conns k a now) c h = Some (c', h', out)"
  shows "v1_serving einval realloc_ok junk conns n k c' h'"
proof -
  from assms(1) obtain s where s: "v1_site_reach einval realloc_ok junk conns n s" "vs_pool s = serving_pool n k"
    "vs_cache s = c" "vs_at s 0 = h" "vs_conn s 0 = k" "\<not> vs_undefined s" by (auto simp: v1_serving_def)
  have "in_client s 0" "v1_up s" using s(2,6) by (simp_all add: v1_up_def serving_pool_def idle_pool_def)
  from takes_turn [OF this(2) assms(2) this(1), of a einval realloc_ok junk conns now c' h' out] assms(3-5) s
  have "v1_site_step einval realloc_ok junk conns n s (s\<lparr>vs_cache := c', vs_at := (vs_at s)(0 := h'),
      vs_replies := (if out = [] then vs_replies s else (vs_conn s 0, out) # vs_replies s)\<rparr>)" by simp
  from v1_site_next [OF s(1) this] s show ?thesis
    unfolding v1_serving_def by (intro exI conjI) (assumption, simp_all)
qed

lemma serving_returns:
  assumes "v1_serving einval realloc_ok junk conns n k c Finished" "0 < n"
  shows "v1_idle einval realloc_ok junk conns n (Suc k) c"
proof -
  from assms(1) obtain s where s: "v1_site_reach einval realloc_ok junk conns n s" "vs_pool s = serving_pool n k"
    "vs_cache s = c" "vs_at s 0 = Finished" "\<not> vs_undefined s" by (auto simp: v1_serving_def)
  have up: "in_client s 0" "v1_up s" using s(2,5) by (simp_all add: v1_up_def serving_pool_def idle_pool_def)
  have "worker_thread n (serving_pool n k) 0 (idle_pool n (Suc k))"
    using worker_thread.client_done [of 0 n "serving_pool n k" 5] assms(2)
    by (simp add: serving_pool_def idle_pool_def replicate_snoc fun_upd_def if_distrib cong: if_cong)
  then have "v1_step n (vs_pool s) (Some (Worker 0)) (idle_pool n (Suc k))"
    using s(2) by (intro v1_step.worker) (simp_all add: serving_pool_def idle_pool_def)
  from v1_site_next [OF s(1) client_returns [OF up(2,1) s(4) this]] s(3,5) show ?thesis
    unfolding v1_idle_def by (intro exI conjI) (assumption, simp_all)
qed
subsection \<open>Filling the cache\<close>

text \<open>The next client's request is not in the cache: the call of \<open>add_cache_element\<close> decides.\<close>

lemma idle_miss:
  assumes "v1_idle einval realloc_ok junk conns n k c" "0 < n" "v1_wf c as" "a \<notin> set as"
    and good: "v1_good einval origin (conns k) r" and re: "\<forall>n. realloc_ok n"
    and new: "\<forall>i \<in> set (items (mem c) as). it_url i \<noteq> render r"
    and add: "add_cache_element c a 0 (v1_cached (origin (render r))) (int (length (v1_cached (origin (render r))))) (render r)
      = Some (c', x)"
  shows "v1_serving einval realloc_ok junk conns n k c' (if x = Blocks then Hung else Finished)"
proof -
  let ?conn = "v1_meets conns k a 0"
  have g: "v1_good einval origin ?conn r" using good by simp
  have a: "mem c a = None" using assms(3,4) by (auto simp: v1_wf_def)
  note serve = serving_turn [OF _ assms(2) _ a]
  from serve [OF idle_takes [OF assms(1,2)] _ good_receives [OF g]]
  have s1: "v1_serving einval realloc_ok junk conns n k c (LookingUp (render r) True)" by simp
  have "List.find (\<lambda>b. it_url (item (mem c b)) = render r) as = None"
    using new by (auto simp: find_None_iff items_def)
  with find_loop_spec [of "mem c" "head c" as "render r"] assms(3)
  have "client_turn einval realloc_ok junk ?conn c (LookingUp (render r) True) = Some (c, Fetching (render r), [])"
    by (simp add: v1_find_def v1_wf_def)
  from serve [OF s1 _ this] have s2: "v1_serving einval realloc_ok junk conns n k c (Fetching (render r))" by simp
  have "vc_addr ?conn = a" "vc_now ?conn = 0" by (simp_all add: v1_meets_def)
  with good_fetches [OF g re, of junk c] add
  have "client_turn einval realloc_ok junk ?conn c (Fetching (render r)) =
    Some (c', if x = Blocks then Hung else Finished, origin (render r))" by auto
  from serve [OF s2 _ this] show ?thesis by simp
qed

text \<open>
  K clients with different requests: when the elements for their responses do not all fit, some
  reachable state has the mutex held for ever.
\<close>

definition element_size :: "(string \<Rightarrow> block) \<Rightarrow> request \<Rightarrow> int" where
  "element_size origin r = v1_size (render r) (v1_cached (origin (render r)))"

lemma fill:
  assumes "0 < n" "\<forall>n. realloc_ok n" "\<And>k. k < K \<Longrightarrow> v1_good einval origin (conns k) (r k)"
    and "\<And>i k. i < k \<Longrightarrow> k < K \<Longrightarrow> render (r i) \<noteq> render (r k)"
    and size: "\<And>k. k < K \<Longrightarrow> element_size origin (r k) \<le> MAX_ELEMENT_SIZE"
  shows "k \<le> K \<Longrightarrow> (\<exists>j c. v1_serving einval realloc_ok junk conns n j c Hung \<and> lock c) \<or>
    (\<exists>c as. v1_idle einval realloc_ok junk conns n k c \<and> v1_wf c as \<and> (\<Sum>j < k. element_size origin (r j)) \<le> cache_size c \<and>
       (\<forall>i \<in> set (items (mem c) as). \<exists>j < k. it_url i = render (r j)))"
proof (induction k)
  case 0
  have "v1_wf v1_empty_cache []" unfolding v1_empty_cache_def by (rule v1_empty)
  with idle_start show ?case by (intro disjI2 exI conjI) (assumption+, simp_all add: v1_empty_cache_def items_def)
next
  case (Suc k)
  then have k: "k < K" by simp
  from Suc consider "\<exists>j c. v1_serving einval realloc_ok junk conns n j c Hung \<and> lock c"
    | c as where "v1_idle einval realloc_ok junk conns n k c" "v1_wf c as" "(\<Sum>j < k. element_size origin (r j)) \<le> cache_size c"
      "\<forall>i \<in> set (items (mem c) as). \<exists>j < k. it_url i = render (r j)" by auto
  then show ?case
  proof cases
    case (2 c as)
    let ?t = "render (r k)" and ?d = "v1_cached (origin (render (r k)))"
    obtain a where a: "a \<notin> set as" using ex_new_if_finite [OF infinite_UNIV_nat finite_set] by blast
    have new: "\<forall>i \<in> set (items (mem c) as). it_url i \<noteq> ?t" using 2(4) assms(4) k by metis
    have sz: "v1_size ?t ?d \<le> MAX_ELEMENT_SIZE" using size [OF k] by (simp add: element_size_def)
    then have "v1_size ?t ?d < 2147483600" by (simp add: MAX_ELEMENT_SIZE_def)
    from add_cases [OF 2(2) a this, of 0] sz obtain c' x where
      ad: "add_cache_element c a 0 ?d (int (length ?d)) ?t = Some (c', x)" and
      r: "if cache_size c + v1_size ?t ?d > MAX_SIZE then c' = c\<lparr>lock := True\<rparr> \<and> x = Blocks
        else x = Returns 1 \<and> v1_wf c' (a # as) \<and>
          items (mem c') (a # as) = (?t, ?d @ [NUL], int (length ?d), 0) # items (mem c) as"
      by (auto simp: not_less [symmetric])
    note s = idle_miss [OF 2(1) assms(1) 2(2) a assms(3) [OF k] assms(2) new ad]
    show ?thesis
    proof (cases "cache_size c + v1_size ?t ?d > MAX_SIZE")
      case True
      with r s have "v1_serving einval realloc_ok junk conns n k (c\<lparr>lock := True\<rparr>) Hung" by simp
      then show ?thesis by (intro disjI1 exI conjI) (assumption, simp)
    next
      case False
      with r have x: "x = Returns 1" and w: "v1_wf c' (a # as)" and
        im: "items (mem c') (a # as) = (?t, ?d @ [NUL], int (length ?d), 0) # items (mem c) as" by simp_all
      have "cache_size c' = v1_size ?t ?d + cache_size c"
        using w 2(2) im by (simp add: charge_Cons v1_size_def ELEMENT_SIZE_def v1_wf_def)
      then have "(\<Sum>j < Suc k. element_size origin (r j)) \<le> cache_size c'" using 2(3) by (simp add: element_size_def)
      moreover have "\<forall>i \<in> set (items (mem c') (a # as)). \<exists>j < Suc k. it_url i = render (r j)"
        unfolding im using 2(4) by (auto intro: less_SucI)
      moreover have "v1_idle einval realloc_ok junk conns n (Suc k) c'"
        using s x by (intro serving_returns [OF _ assms(1)]) simp
      ultimately show ?thesis using w by blast
    qed
  qed blast
qed

lemma fills_up:
  assumes "0 < n" "\<forall>n. realloc_ok n" "\<And>k. k < K \<Longrightarrow> v1_good einval origin (conns k) (r k)"
    and "\<And>i k. i < k \<Longrightarrow> k < K \<Longrightarrow> render (r i) \<noteq> render (r k)"
    and "\<And>k. k < K \<Longrightarrow> element_size origin (r k) \<le> MAX_ELEMENT_SIZE"
    and "MAX_SIZE < (\<Sum>k < K. element_size origin (r k))"
  shows "\<exists>k c. v1_serving einval realloc_ok junk conns n k c Hung \<and> lock c"
  using fill [OF assms(1-5) order_refl, where junk = junk] assms(6) by (fastforce simp: v1_wf_def)

subsection \<open>Example clients\<close>

definition filler_request :: "nat \<Rightarrow> request" where
  "filler_request k = (example_request None)\<lparr>rq_path := ''/'' @ replicate k (CHR ''a'')\<rparr>"

definition filler :: "block \<Rightarrow> nat \<Rightarrow> v1_conn" where
  "filler resp k = \<lparr>vc_in = [Data (render (filler_request k))], vc_ks = replicate (length resp + 2) 5000,
     vc_connect = (\<lambda>_ _. True), vc_server_k = 5000, vc_server_in = [Data resp, Closed], vc_now = 0, vc_addr = 0,
     vc_junk = replicate MAX_BYTES NUL, vc_date = []\<rparr>"

lemma filler_text:
  "render (filler_request k) = ''GET http://h/'' @ replicate k (CHR ''a'') @ '' HTTP/1.0'' @ CRLF @ CRLF"
  "length (v1_text (filler_request k)) = k + 46"
  by (simp_all add: filler_request_def example_request_def render_def render_line_def render_addr_def render_headers_def
      v1_text_def v1_line_def v1_forward_headers_def)

lemma filler_good:
  assumes "k < 1000" "length resp < 524280"
  shows "v1_good False (\<lambda>_. resp) (filler resp k) (filler_request k)"
proof -
  have "take 2 (''/'' @ replicate k (CHR ''a'')) \<noteq> ''//''" by (cases k) simp_all
  then have ok: "request_ok (filler_request k)"
    using example_ok(1) by (auto simp: filler_request_def request_ok_def)
  have v: "checkHTTPversion (rq_version (filler_request k)) = 1"
    by (simp add: filler_request_def example_request_def checkHTTPversion_def strncmp_eq_def)
  have z: "cstr (drop (k + 46) (replicate MAX_BYTES NUL)) \<noteq> None"
    using example_zero [of "k + 46"] assms(1) by (simp add: MAX_BYTES_def)
  show ?thesis unfolding v1_good_def filler_text(2)
    using ok v z example_port assms by (simp add: filler_def filler_text(1) MAX_BYTES_def)
qed

lemma filler_differ: "i < k \<Longrightarrow> render (filler_request i) \<noteq> render (filler_request k)"
proof
  assume "i < k" "render (filler_request i) = render (filler_request k)"
  then have "length (render (filler_request i)) = length (render (filler_request k))" by simp
  with \<open>i < k\<close> show False by (simp add: filler_text(1))
qed

text \<open>The server after one client.\<close>

lemma one_served:
  assumes "0 < n" "length resp < 524280"
  shows "\<exists>c. v1_idle False (\<lambda>_. True) zeroed (\<lambda>_. filler resp 0) n 1 c \<and> v1_wf c [0]"
proof -
  let ?r = "filler_request 0" and ?conns = "\<lambda>_ :: nat. filler resp 0" and ?o = "\<lambda>_. resp"
  let ?t = "render ?r" and ?d = "v1_cached resp"
  have w: "v1_wf v1_empty_cache []" unfolding v1_empty_cache_def by (rule v1_empty)
  have l: "length ?d < 524280" using v1_cached_length [of resp] assms(2) by simp
  then have b: "v1_size ?t ?d < 2147483600" "\<not> v1_size ?t ?d > MAX_ELEMENT_SIZE"
    "\<not> cache_size v1_empty_cache + v1_size ?t ?d > MAX_SIZE"
    by (simp_all add: v1_size_def filler_text(1) MAX_ELEMENT_SIZE_def MAX_SIZE_def v1_empty_cache_def)
  from add_cases [OF w _ b(1), of 0 0] b(2,3) obtain c x where
    c: "add_cache_element v1_empty_cache 0 0 ?d (int (length ?d)) ?t = Some (c, x)" "x = Returns 1" "v1_wf c [0]" by auto
  have g: "v1_good False ?o (?conns 0) ?r"
    using filler_good [of 0] assms(2) by simp
  have new: "\<forall>i \<in> set (items (mem v1_empty_cache) []). it_url i \<noteq> ?t" by (simp add: items_def)
  from idle_miss [where conns = ?conns and origin = ?o and r = ?r and realloc_ok = "\<lambda>_. True" and junk = zeroed
      and a = 0 and c' = c and x = x, OF idle_start assms(1) w _ g _ new] c(1,2)
  have "v1_serving False (\<lambda>_. True) zeroed (\<lambda>_. filler resp 0) n 0 c Finished" by simp
  from serving_returns [OF this assms(1)] c(3) show ?thesis by auto
qed

text \<open>A server whose cache is full.\<close>

lemma filler_sizes:
  assumes "length resp = 500000" "v1_cached resp = resp"
  shows "k < 450 \<Longrightarrow> element_size (\<lambda>_. resp) (filler_request k) \<le> MAX_ELEMENT_SIZE"
    "MAX_SIZE < (\<Sum>k < 450. element_size (\<lambda>_. resp) (filler_request k))"
proof -
  have sz: "element_size (\<lambda>_. resp) (filler_request k) = 500000 + (int (length (render (filler_request k))) + 41)" for k
    using assms by (simp add: element_size_def v1_size_def)
  show "k < 450 \<Longrightarrow> element_size (\<lambda>_. resp) (filler_request k) \<le> MAX_ELEMENT_SIZE"
    unfolding sz by (simp add: filler_text(1) MAX_ELEMENT_SIZE_def)
  have "(\<Sum>k < 450::nat. 500000) \<le> (\<Sum>k < 450::nat. element_size (\<lambda>_. resp) (filler_request k))"
    by (rule sum_mono) (simp add: sz)
  then show "MAX_SIZE < (\<Sum>k < 450. element_size (\<lambda>_. resp) (filler_request k))" by (simp add: MAX_SIZE_def)
qed

lemma full_server:
  assumes "0 < n"
  shows "\<exists>resp k c. v1_serving False (\<lambda>_. True) zeroed (filler resp) n k c Hung \<and> lock c"
proof -
  define resp where "resp = replicate (500000::nat) (CHR ''x'')"
  have l: "length resp = 500000" by (simp only: resp_def length_replicate)
  have d: "v1_cached resp = resp" by (simp only: v1_cached_def resp_def) (simp add: takeWhile_eq_all_conv)
  note fit = filler_sizes [OF l d]
  have "\<exists>k c. v1_serving False (\<lambda>_. True) zeroed (filler resp) n k c Hung \<and> lock c"
    by (rule fills_up [where K = 450 and origin = "\<lambda>_. resp" and r = filler_request])
      (use assms l fit filler_good [of _ resp] filler_differ in simp_all)
  then show ?thesis by blast
qed

subsection \<open>Properties\<close>

text \<open>C21. No element of the first version's cache is ever freed: whatever its clients send, in every
  state that a run leads to, the list is intact, every element that was ever on it is still
  there with its URL, data and length, and an element that a handler uses after \<open>find\<close> has
  released the mutex exists; and when the mutex is held between the calls, a worker hangs.\<close>

theorem v1_no_element_freed:
  assumes "v1_site_reach einval realloc_ok junk conns n s" "v1_site_run einval realloc_ok junk conns n s s'"
  shows "(\<exists>as. linked (vs_cache s') as) \<and> keeps_elements (vs_cache s) (vs_cache s') \<and>
    (\<forall>w < n. \<forall>a. in_client s' w \<longrightarrow> vs_at s' w = FromCache a \<longrightarrow> mem (vs_cache s') a \<noteq> None) \<and>
    (lock (vs_cache s') \<longrightarrow> (\<exists>w < n. in_client s' w \<and> vs_at s' w = Hung))"
  using v1_site_run_reach [OF assms(2,1)] v1_site_alive(1) unfolding v1_alive_def by blast

theorem v1_no_element_freed_witness:
  "\<exists>s. v1_site_reach False (\<lambda>_. True) zeroed (\<lambda>_. filler ''hello'' 0) 200 s \<and>
    mem (vs_cache s) 0 \<noteq> None \<and> (\<exists>as. linked (vs_cache s) as)"
proof -
  from one_served [of 200 "''hello''"] obtain c s where
    "v1_site_reach False (\<lambda>_. True) zeroed (\<lambda>_. filler ''hello'' 0) 200 s" "vs_cache s = c" "v1_wf c [0]"
    by (auto simp: v1_idle_def)
  with v1_no_element_freed [OF this(1) rtranclp.rtrancl_refl] show ?thesis
    by (intro exI [of _ s]) (auto simp: v1_wf_def)
qed

text \<open>C19. Once the first version's cache is full it serves nobody: from any reachable state in which
  the mutex is held, whatever the clients do, the mutex stays held and the cache as it is, at
  most n - 1 more responses are sent and at most n - 1 more connections taken up; all other
  accepted ones are in the queue or in the hands of \<open>main\<close>, and stay there.\<close>

theorem v1_full_cache_stops_server:
  assumes "v1_site_reach einval realloc_ok junk conns n s" "lock (vs_cache s)"
    and "v1_site_run einval realloc_ok junk conns n s s'"
  shows "vs_cache s' = vs_cache s \<and> length (vs_replies s') \<le> length (vs_replies s) + (n - 1) \<and>
    length (taken (vs_pool s')) \<le> length (taken (vs_pool s)) + (n - 1) \<and>
    accepted (vs_pool s') = taken (vs_pool s') @ sockets (vq (vs_pool s')) @ pending (main_pc (vs_pool s'))"
proof -
  have sp: "spent n s s'" by (rule spent_run [OF assms(3,1,2)])
  note l = locked_left [OF v1_site_alive(1) [OF assms(1)] assms(2)]
  have "v1_site_reach einval realloc_ok junk conns n s'" by (rule v1_site_run_reach(1) [OF assms(3,1)])
  from v1_reach_inv [OF v1_site_pool [OF this]]
  have "accepted (vs_pool s') = taken (vs_pool s') @ sockets (vq (vs_pool s')) @ pending (main_pc (vs_pool s'))"
    by (simp add: v1_inv_def v1_history_def)
  with sp l show ?thesis unfolding spent_def by linarith
qed

theorem v1_full_cache_stops_server_witness:
  "\<exists>resp s (s' :: v1_site). v1_site_reach False (\<lambda>_. True) zeroed (filler resp) 200 s \<and> lock (vs_cache s) \<and>
    length (accepted (vs_pool s')) = Suc (length (accepted (vs_pool s))) \<and>
    vs_cache s' = vs_cache s \<and> length (vs_replies s') \<le> length (vs_replies s) + 199"
proof -
  from full_server [of 200] obtain resp k c s where
    s: "v1_site_reach False (\<lambda>_. True) zeroed (filler resp) 200 s" "lock (vs_cache s)" "vs_pool s = serving_pool 200 k"
    "\<not> vs_undefined s" by (auto simp: v1_serving_def)
  let ?p = "(vs_pool s)\<lparr>main_pc := Enqueueing 7, accepted := accepted (vs_pool s) @ [7]\<rparr>"
  have m: "main_pc (vs_pool s) = Accepting" using s(3) by (simp add: serving_pool_def idle_pool_def)
  have "v1_step 200 (vs_pool s) (Some Main) ?p" by (intro v1_step.main main_thread.accept_client m) simp
  then have "v1_site_step False (\<lambda>_. True) zeroed (filler resp) 200 s (s\<lparr>vs_pool := ?p\<rparr>)"
    by (rule pool_alone [rotated]) (use s(4) m in \<open>simp_all add: v1_up_def\<close>)
  then have "v1_site_run False (\<lambda>_. True) zeroed (filler resp) 200 s (s\<lparr>vs_pool := ?p\<rparr>)" by simp
  note stop = v1_full_cache_stops_server [OF s(1,2) this]
  define t where "t = s\<lparr>vs_pool := ?p\<rparr>"
  have "length (accepted (vs_pool t)) = Suc (length (accepted (vs_pool s)))" by (simp add: t_def)
  moreover have "vs_cache t = vs_cache s" "length (vs_replies t) \<le> length (vs_replies s) + 199"
    using stop unfolding t_def by simp_all
  ultimately show ?thesis using s(1,2) by blast
qed

text \<open>C20. And it can become full: with at least one worker and K clients that send different good
  requests over working sockets (\<open>v1_good\<close>), whose elements are each small enough to be cached but
  do not fit in 200 MB together, some run (the one that serves them one after the other) leads to
  a state in which the mutex is held for ever.\<close>

theorem v1_cache_fills:
  assumes "0 < n" "\<forall>n. realloc_ok n" "\<forall>k < K. v1_good einval origin (conns k) (r k)"
    and "\<forall>k < K. \<forall>i < k. render (r i) \<noteq> render (r k)"
    and "\<forall>k < K. element_size origin (r k) \<le> MAX_ELEMENT_SIZE"
    and "MAX_SIZE < (\<Sum>k < K. element_size origin (r k))"
  shows "\<exists>s. v1_site_reach einval realloc_ok junk conns n s \<and> lock (vs_cache s)"
  using fills_up [of n realloc_ok K einval origin conns r junk] assms by (auto simp: v1_serving_def)

theorem v1_cache_fills_witness:
  "\<exists>resp s. v1_site_reach False (\<lambda>_. True) zeroed (filler resp) 200 s \<and> lock (vs_cache s)"
proof -
  define resp where "resp = replicate (500000::nat) (CHR ''x'')"
  have l: "length resp = 500000" by (simp only: resp_def length_replicate)
  have d: "v1_cached resp = resp" by (simp only: v1_cached_def resp_def) (simp add: takeWhile_eq_all_conv)
  note fit = filler_sizes [OF l d]
  have "\<exists>s. v1_site_reach False (\<lambda>_. True) zeroed (filler resp) 200 s \<and> lock (vs_cache s)"
    by (rule v1_cache_fills [where K = 450 and origin = "\<lambda>_. resp" and r = filler_request])
      (use l fit filler_good [of _ resp] filler_differ in simp_all)
  then show ?thesis by blast
qed

text \<open>An element gets into the cache only together with a reply.\<close>

lemma cached_replied:
  assumes "v1_site_reach einval realloc_ok junk conns n s"
    and "\<And>k. v1_good einval origin (conns k) (r k)" "\<forall>n. realloc_ok n"
    and "\<And>k. v1_whole (origin (render (r k)))" "\<And>k. v1_size (render (r k)) (origin (render (r k))) \<le> m"
    and "m < 2147483600" "\<And>k. origin (render (r k)) \<noteq> []"
  shows "vs_replies s = [] \<Longrightarrow> mem (vs_cache s) = Map.empty"
  using assms(1)
proof (induction rule: v1_site_reach.induct)
  case v1_site_start
  show ?case by (simp add: v1_site_init_def v1_empty_cache_def)
next
  case (v1_site_next s s')
  note fine = fine_reach [OF v1_site_next.hyps(1) assms(2-6)]
  from v1_site_next.hyps(2) v1_site_alive(2) [OF v1_site_next.hyps(1)] show ?case
  proof (cases rule: site_view)
    case (turn w a now c h out)
    then have out: "out = []" and e: "mem (vs_cache s) = Map.empty"
      using v1_site_next.prems v1_site_next.IH by (simp_all split: if_splits)
    from fineD(2) [OF fine] obtain as where as: "v1_fine_cache origin m (vs_cache s) as" by blast
    then have lk: "linked (vs_cache s) as" by (simp add: v1_fine_cache_def v1_wf_def linked_def)
    have good: "v1_good einval origin (v1_meets conns (vs_conn s w) a now) (r (vs_conn s w))" using assms(2) by simp
    note fr = fineD(3) [OF fine turn(1,3)]
    have "mem c = Map.empty"
    proof (cases "vs_at s w")
      case Receiving
      with turn(6) good_receives [OF good, of realloc_ok junk] e show ?thesis by simp
    next
      case (LookingUp u ok)
      with turn(6) e show ?thesis
        by (auto split: bind_splits option.splits run.splits dest!: find_linked(1) [OF _ lk]) (use lk in \<open>auto simp: linked_def\<close>)
    next
      case (FromCache b)
      with fr e show ?thesis by simp
    next
      case (Fetching u)
      with fr have "vs_at s w = Fetching (render (r (vs_conn s w)))" by simp
      with fine_fetch [OF as good assms(3) refl assms(5,6) turn(5), of junk] turn(6)
      have "out = origin (render (r (vs_conn s w)))" by auto
      with out assms(7) show ?thesis by metis
    qed (use turn(4) in simp_all)
    with turn(2) show ?thesis by simp
  qed (use v1_site_next in simp_all)
qed

text \<open>C18. Before that it answers its clients, on any number of threads and in any interleaving: when
  every client sends a well-formed request of fewer than 4096 bytes and its sockets work, every
  response is free of NULs, a multiple of 4096 bytes long and small enough for the capacity of
  the response buffer to stay an \<open>int\<close> (\<open>v1_good\<close>), then in every reachable state nothing undefined
  has happened and every client that got a response got the one for its own request; and as long
  as the elements of the connections taken so far would fit, of at most m bytes each, the mutex
  is free and no handler hangs.\<close>

theorem v1_clients_answered:
  assumes "v1_site_reach einval realloc_ok junk conns n s" "\<forall>k. v1_good einval origin (conns k) (r k)"
    and "\<forall>n. realloc_ok n" "\<forall>k. v1_whole (origin (render (r k)))"
    and "\<forall>k. v1_size (render (r k)) (origin (render (r k))) \<le> m" "m < 2147483600"
  shows "\<not> vs_undefined s \<and> (\<forall>(k, out) \<in> set (vs_replies s). out = origin (render (r k))) \<and>
    (m * int (length (taken (vs_pool s))) \<le> MAX_SIZE \<longrightarrow>
      \<not> lock (vs_cache s) \<and> (\<forall>w < n. in_client s w \<longrightarrow> vs_at s w \<noteq> Hung))"
  using fine_reach [OF assms(1) _ assms(3) _ _ assms(6), of origin r] assms(2,4,5) by (simp add: v1_fine_def)

theorem v1_clients_answered_witness:
  "\<exists>s k. v1_site_reach False (\<lambda>_. True) zeroed (\<lambda>_. filler (replicate 4096 (CHR ''x'')) 0) 200 s \<and>
    (k, replicate 4096 (CHR ''x'')) \<in> set (vs_replies s) \<and> length (taken (vs_pool s)) = 1 \<and> \<not> lock (vs_cache s)"
proof -
  define resp where "resp = replicate (4096::nat) (CHR ''x'')"
  have l: "length resp = 4096" "resp \<noteq> []" "NUL \<notin> set resp" by (simp_all only: resp_def length_replicate) simp_all
  let ?conns = "\<lambda>_ :: nat. filler resp 0" and ?r = "\<lambda>_ :: nat. filler_request 0" and ?o = "\<lambda>_ :: string. resp"
  from one_served [of 200 resp] l(1) obtain c s where
    s: "v1_site_reach False (\<lambda>_. True) zeroed ?conns 200 s" "length (taken (vs_pool s)) = 1"
      "vs_cache s = c" "v1_wf c [0]"
    by (auto simp: v1_idle_def idle_pool_def)
  have h: "v1_good False ?o (?conns k) (?r k)" "v1_whole (?o (render (?r k)))"
    "v1_size (render (?r k)) (?o (render (?r k))) \<le> 5000" for k
    using filler_good [of 0 resp] l by (simp_all add: v1_whole_def v1_size_def filler_text(1))
  have "mem (vs_cache s) \<noteq> Map.empty" using s(3,4) by (auto simp: v1_wf_def)
  with cached_replied [where r = ?r, OF s(1) h(1) _ h(2,3)] l(2) have "vs_replies s \<noteq> []" by auto
  then obtain k out where k: "(k, out) \<in> set (vs_replies s)" by (cases "vs_replies s") auto
  have "(\<forall>(k, out) \<in> set (vs_replies s). out = resp) \<and> \<not> lock (vs_cache s)"
    using v1_clients_answered [OF s(1), of ?o ?r 5000] h s(2) by (simp add: MAX_SIZE_def)
  with k s(1,2) have "v1_site_reach False (\<lambda>_. True) zeroed ?conns 200 s \<and> (k, resp) \<in> set (vs_replies s) \<and>
      length (taken (vs_pool s)) = 1 \<and> \<not> lock (vs_cache s)" by auto
  then show ?thesis unfolding resp_def by blast
qed

end
