(* ===== verification/Spec2Isabelle.thy ===== *)
theory Spec2Isabelle
  imports Client_Handler Pooled_Server Semaphore_Site V1_Mains V1_Proxy2 V1_No_Cache V1_Fill
begin

text \<open>
  A verification development of the HTTP proxy: the current program (the files directly under
  \<^verbatim>\<open>src/\<close>) and its predecessors under \<^verbatim>\<open>src/v1/\<close>.

  \<^bold>\<open>The program.\<close> \<open>main\<close> reads the command line and lets \<open>ServerFactory\<close> make a cache and a
  server. Both servers accept connections on 25 threads, the one through \<open>ThreadPool\<close>, the
  other through a semaphore and a flag that SIGINT clears. One connection is one call of
  \<open>handleClient\<close> (or \<open>datafromclient\<close>, the same body): receive until an empty line, parse with
  \<^verbatim>\<open>proxy_parse.c\<close>, look up host and path in the cache, and on a miss print the
  rewritten request, send it to the origin server, relay the response and cache it.

  \<^bold>\<open>Conventions.\<close> A C or C++ operation with undefined behaviour is \<open>None\<close>, a defined outcome
  \<open>Some\<close>; so every access outside a block, through a bad pointer, to a freed element or behind
  the end of a container is a branch of the model, and a theorem that a function gives \<open>Some\<close>
  is memory safety. Error codes, exceptions and calls of \<open>exit\<close> are values. What comes from
  outside is an argument: the bytes and failures of each \<open>recv\<close> (a list of events), the room
  in the socket buffer at each \<open>send\<close>, addresses that \<open>malloc\<close> and \<open>new\<close> return (any unused
  one), contents of uninitialised memory (\<open>junk\<close>), success of \<open>realloc\<close>, \<open>errno\<close> where the code
  reads it unreset (\<open>einval\<close>), the time, and what the platform does where the standard leaves it
  undefined (\<open>lib\<close>): the result of advancing the end iterator of a list, and of adding 1 to the
  largest \<open>int\<close>. \<open>gnu\<close> is the platform whose lists are rings and whose \<open>int\<close> wraps around. An
  \<open>int\<close> is \<open>int\<close> with its range written out (\<open>to_int32\<close>), a \<open>size_t\<close> is a \<open>nat\<close> with \<open>to_size_t\<close>.

  \<^bold>\<open>The theories and what they show.\<close>

  \<^item> \<open>Prelude\<close>, \<open>CStrings\<close>: blocks, \<open>memcpy\<close>, C integers, sums over threads; NUL-terminated
    strings and the functions of \<open>string.h\<close>.
  \<^item> \<open>Header_Table\<close>, \<open>Request_Print\<close>, \<open>Request_Parse\<close>, \<open>Parse_Properties\<close>
    (\<^verbatim>\<open>proxy_parse.c\<close>, \<^verbatim>\<open>proxy_parse.h\<close>): the growing table of
    headers with holes, its invariant \<open>header_wf\<close> and its abstraction to a list of pairs (the
    locale \<open>header_table\<close>); the printers, exact to the byte; the parser that cuts a copy of the
    request line in place with \<open>strtok_r\<close>, refined to a string grammar on every input
    (undefined inputs included); round trip of printing and parsing; safety of every script of
    header operations and of destruction; and the inputs on which the parser reads out of
    bounds.
  \<^item> \<open>Cache_Strategy\<close>, \<open>LRU_Cache\<close>, \<open>LFU_Cache\<close>, \<open>Server_Cache\<close>: the interface
    \<open>CacheStrategy\<close> as a locale, interpreted on both classes and on the pointer to either. The
    heap, list and map code of each class implements a list of pairs in recency order, or a
    map; eviction keeps the most recent URLs (LRU), and throws out a URL that is asked for again
    and again before those that never are (LFU with libstdc++; in standard C++ every hit of it
    is undefined).
  \<^item> \<open>Proxy_Utils\<close>, \<open>Client_Handler\<close>: the request text, the send and relay loops, and the whole
    handler on either cache, from bytes to bytes, hit and miss; what a second request, another
    port, an early disconnect or a long request does.
  \<^item> \<open>Thread_Pool\<close>, \<open>Semaphore_Server\<close>: step relations of the threads over mutex, condition
    variables, semaphore, flag and descriptor table, with invariants by induction on reachable
    states: exactly-once and FIFO, no stranded task, the drained destructor and its lost
    wake-up; the semaphore never blocks, SIGINT stops the server, the second \<open>close\<close>.
  \<^item> \<open>Server_Main\<close>: \<open>std::stoi\<close>, \<open>main\<close>, the factory, and the listening sockets.
  \<^item> \<open>Shared_Cache\<close>, \<open>Working_Set\<close>: the handlers of all threads on the one cache, with the window
    between \<open>find\<close> and the use of its result: the cache never holds a wrong response, a found
    element outlives as many calls of other threads as the cache has places, and past that a
    client can get the response of another URL; with places for all URLs nothing is ever freed.
  \<^item> \<open>Pooled_Server\<close>: the product of \<open>Thread_Pool\<close> and \<open>Shared_Cache\<close>, the whole thread pool
    server: each accepted connection is handled once and answered with its own response; a thread
    that does not wait for a peer can always go on, and the server comes to rest in a bounded
    number of steps, with every connection handled but for those of threads that wait for a
    peer; as many silent clients as there are threads block it; and a request that does not
    parse ends it for all. \<open>Semaphore_Site\<close>: the product of \<open>Semaphore_Server\<close> and
    \<open>Shared_Cache\<close>, with the descriptors that handlers read from and write to: clients get only
    their own responses exactly when there is at most one thread; after SIGINT all workers
    return within a bounded number of moves, but for those that wait in \<open>accept\<close> or for a peer.
  \<^item> \<open>V1_Cache\<close>, \<open>V1_Queue\<close>, \<open>V1_Pool\<close>, \<open>V1_Server\<close>, \<open>V1_Handler\<close>
    (\<^verbatim>\<open>v1/proxy_server_with_threadpool_and_cache.c\<close>): the linked-list cache and its
    deadlock, the queue of sockets (locale \<open>fifo_queue\<close>) and the threads around it, the
    handler.
  \<^item> \<open>V1_Turns\<close>, \<open>V1_Site\<close>, \<open>V1_Clients\<close>, \<open>V1_Fill\<close>: that version at work. \<open>handle_client\<close> is
    spread out at its calls on the cache, from bytes to bytes; the workers of \<open>V1_Pool\<close> run it on
    the one list cache.
    Whatever clients send, no element is ever freed; clients get their own responses as long as
    the cache has room (and responses are NUL-free multiples of 4096 bytes); the cache can fill up;
    and then the server answers at most n - 1 more clients and lets all others wait for ever.
  \<^item> \<open>V1_With_Cache\<close>, \<open>V1_Threads\<close> (\<^verbatim>\<open>v1/proxy_server_with_cache.c\<close>): the handler with its
    unterminated copy; the accept loop, a thread per connection, the semaphore and the
    descriptors of clients and origin servers. \<open>V1_No_Cache\<close> holds what the version without a
    cache does differently, and runs it until its descriptors or its array are used up;
    \<open>V1_Proxy2\<close> what the single-file versions do differently.
  \<^item> \<open>V1_Mains\<close>: the \<open>main\<close> functions under \<^verbatim>\<open>v1/\<close>, from the port argument to the states
    the theories above start from, the connections to origin servers as lists of system calls,
    and the semaphore workers of \<^verbatim>\<open>proxy3.cpp\<close>.
  \<^item> This theory: the program as a whole, from the command line to the bytes each client gets, for
    clients one after the other and for the thread pool server under every schedule.

  \<^bold>\<open>Interfaces.\<close> What one part promises another is a locale, interpreted on the code's own
  definitions: \<open>header_table\<close> (setting and getting headers), \<open>cache_strategy\<close> (both
  caches and the pointer to either; the handlers use only its laws), \<open>fifo_queue\<close> (the queue of
  sockets) and \<open>bounded_runs\<close> (steps that bring a bound down while an invariant is kept: the
  workers after SIGINT, without and with their handlers, and the thread pool server without new
  connections).

  \<^bold>\<open>Blocking.\<close> A step relation says what a thread may do next, not that it does it. \<open>accept\<close>,
  \<open>recv\<close> and \<open>send\<close> block until a peer acts, which may never happen; the sequential handlers have
  a result for it (\<open>Hanging\<close>, a reply that is not done), and the theories with threads name the
  threads that are in such a call (\<open>in_io\<close>, \<open>waits\<close>, \<open>all_handling\<close>). What is proved about progress
  and coming to rest holds for any set of such threads that never go on.

  \<^bold>\<open>Bounds and termination.\<close> There is no fuel. Loops that receive end because the \<open>weight\<close> of the
  list of events decreases; the loops over lists of pointers that the C code does not bound
  are \<open>partial_function (option)\<close> and proved to return on well-formed lists. After SIGINT the
  workers of a server of n threads make at most 5 n more steps when a handler is one step, and
  at most 8 n + 1 when it runs on the shared cache (with places for all URLs); without new
  connections the thread pool server makes at most 20 for each queued connection and 12 n + 13 more. The constants of the
  code are kept (5000 and 4096 byte buffers, 65535 bytes of request, 400 sockets, 25 threads,
  200 MB of cache), the numbers of threads of the step relations are arbitrary.

  \<^bold>\<open>Not modelled.\<close> Log output (\<open>debug\<close> and the prints); the system calls themselves;
  \<^verbatim>\<open>benchmark.py\<close>, the makefile and the README. Code that the versions
  under \<^verbatim>\<open>v1/\<close> repeat literally (the list cache, the error pages and the connection
  to the origin server in the three C files, \<open>LRUCache\<close> and the thread pool in the
  single-file versions) is modelled once; what is left of those files beyond it and the
  definitions mapped to them is log output and comments. One handler is a sequential function
  from bytes to bytes; the interleavings that are modelled are those of the thread pools, of
  the semaphore workers and the threads per connection with the descriptor table, of handlers
  with each other on one cache, and of the three servers whose threads run such handlers; in
  these, sending a cached response is one step. The product of the threads per connection with
  the list cache is left out: its handler works on a copy of the request without a terminating
  NUL, and is the handler of the thread pool version when the next byte happens to be 0; for
  every other byte it is undefined on each complete request that it relays (\<open>V1_With_Cache\<close>).
\<close>

section \<open>From the command line to the clients\<close>

text \<open>
  The clients of a server one after the other, as a single worker serves them; \<open>a\<close> numbers the
  addresses that \<open>new\<close> returns.
\<close>

fun serve_clients ::
  "platform \<Rightarrow> bool \<Rightarrow> ParsedRequest \<Rightarrow> cache \<Rightarrow> nat \<Rightarrow> connection list \<Rightarrow> (cache \<times> reply list) option" where
  "serve_clients lib einval junk c a [] = Some (c, [])"
| "serve_clients lib einval junk c a (conn # conns) = do {
     (c, rep) \<leftarrow> handleClient lib einval (\<lambda>_. True) junk c (conn\<lparr>fresh := a\<rparr>);
     (c, reps) \<leftarrow> serve_clients lib einval junk c (Suc a) conns;
     Some (c, rep # reps) }"

text \<open>The connection carries the request r, everything works, and the server answers \<open>origin\<close>.\<close>

definition asks :: "(string \<Rightarrow> block) \<Rightarrow> bool \<Rightarrow> connection \<Rightarrow> request \<Rightarrow> bool" where
  "asks origin einval conn r = (works conn r \<and> port_ok einval r \<and>
     stream (server_in conn) = origin (rq_host r @ rq_path r) \<and>
     generous (client_ks conn) (length (origin (rq_host r @ rq_path r))))"

lemma serve_one:
  assumes "cache_ok lib c" "strategy.faithful origin c" "\<forall>b \<in> cache_used c. b < a" "asks origin einval conn r"
  shows "\<exists>c' rep. handleClient lib einval (\<lambda>_. True) junk c (conn\<lparr>fresh := a\<rparr>) = Some (c', rep) \<and>
    to_client rep = origin (rq_host r @ rq_path r) \<and> ended rep = Served \<and> cache_ok lib c' \<and>
    strategy.faithful origin c' \<and> (\<forall>b \<in> cache_used c'. b < Suc a)"
proof -
  let ?conn = "conn\<lparr>fresh := a\<rparr>" and ?u = "rq_host r @ rq_path r"
  note q = assms(4) [unfolded asks_def works_def]
  have ans: "origin ?u = (case cache_lookup c ?u of None \<Rightarrow> stream (server_in ?conn) | Some d \<Rightarrow> d)"
    using assms(2) q by (auto simp: strategy.faithful_def split: option.splits)
  have "\<exists>c'. handleClient lib einval (\<lambda>_. True) junk c ?conn = Some (c', \<lparr>to_client = origin ?u,
      to_server = (if cache_lookup c ?u = None then Some (rq_host r, port_of r, forward_text r) else None),
      ended = Served\<rparr>) \<and> cache_ok lib c' \<and> cache_lookup c' ?u = Some (origin ?u) \<and>
    cache_extends c c' (fresh ?conn) ?u"
    by (rule handleClient_spec [OF assms(1) _ _ _ _ _ _ _ _ _ _ _ _ ans]) (use q assms(3) in auto)
  then obtain c' rep where
    c': "handleClient lib einval (\<lambda>_. True) junk c ?conn = Some (c', rep)" "to_client rep = origin ?u"
      "ended rep = Served" "cache_ok lib c'" "cache_lookup c' ?u = Some (origin ?u)"
      "cache_extends c c' a ?u" by auto
  have "strategy.faithful origin c'" unfolding strategy.faithful_def
  proof (intro allI impI)
    fix u d assume "cache_lookup c' u = Some d"
    then show "d = origin u"
      using c'(5,6) assms(2) by (cases "u = ?u") (auto simp: cache_extends_def strategy.faithful_def)
  qed
  moreover have "\<forall>b \<in> cache_used c'. b < Suc a" using c'(6) assms(3) by (auto simp: cache_extends_def less_Suc_eq)
  ultimately show ?thesis using c' by blast
qed

lemma serve_all:
  assumes "cache_ok lib c" "strategy.faithful origin c" "\<forall>b \<in> cache_used c. b < a"
    and "list_all (\<lambda>(conn, r). asks origin einval conn r) qs"
  shows "\<exists>c' reps. serve_clients lib einval junk c a (map fst qs) = Some (c', reps) \<and>
    map to_client reps = map (\<lambda>(conn, r). origin (rq_host r @ rq_path r)) qs \<and>
    list_all (\<lambda>rep. ended rep = Served) reps"
  using assms
proof (induction qs arbitrary: c a)
  case Nil
  then show ?case by simp
next
  case (Cons q qs)
  obtain conn r where q: "q = (conn, r)" by (cases q)
  with Cons.prems have w: "asks origin einval conn r" "list_all (\<lambda>(conn, r). asks origin einval conn r) qs"
    by simp_all
  from serve_one [OF Cons.prems(1-3) w(1), of junk] obtain c1 rep where
    c1: "handleClient lib einval (\<lambda>_. True) junk c (conn\<lparr>fresh := a\<rparr>) = Some (c1, rep)"
      "to_client rep = origin (rq_host r @ rq_path r)" "ended rep = Served" and
    i: "cache_ok lib c1" "strategy.faithful origin c1" "\<forall>b \<in> cache_used c1. b < Suc a" by blast
  from Cons.IH [OF i w(2)] c1 show ?case by (auto simp: q)
qed

lemma stoi_range: "stoi s = Inr n \<Longrightarrow> -2147483648 \<le> n \<and> n \<le> 2147483647"
  by (auto simp: stoi_def Let_def split: if_splits)

text \<open>The cache of a server that \<open>main\<close> starts.\<close>

lemma started_cache:
  assumes "main_program argv = Start srv port" "length argv = 6 \<longrightarrow> (\<exists>n>0. stoi (argv ! 5) = Inr n)"
    and "argv ! 2 = ''LFUCache'' \<longrightarrow> lib = gnu"
  shows "cache_ok lib (server_cache srv)" "cache_lookup (server_cache srv) = Map.empty"
    "cache_used (server_cache srv) = {}"
proof -
  from assms(1) obtain nt n where
    m: "length argv \<le> 6" "number_arguments argv = Inr (port, nt, n)"
      "createHTTPServer (argv ! 1) (argv ! 2) nt n = Inr srv" by (auto simp: main_Start)
  have "0 < n \<and> n \<le> 2147483647"
    using m(1,2) assms(2) stoi_range [of "argv ! 5" n] by (auto simp: number_arguments_Inr split: if_splits)
  then have "0 < to_size_t n" by (simp add: to_size_t_id)
  from new_cache_ok [OF this] m(3) assms(3)
  show "cache_ok lib (server_cache srv)" "cache_lookup (server_cache srv) = Map.empty"
    "cache_used (server_cache srv) = {}"
    by (auto simp: createHTTPServer_Inr new_cache_def split: if_splits)
qed





end
